(* ===== verification/Asc_Prelude.thy ===== *)
theory Asc_Prelude
  imports Main "HOL-Library.Word"
begin

text \<open>
  Shared vocabulary of the AscentOS development: names for the C integer types the kernel
  uses, the collections of rewrite rules the component theories feed, and generic lemmas on
  words and lists that more than one component needs.
\<close>

section \<open>C integer types\<close>

type_synonym u8 = "8 word"
type_synonym u16 = "16 word"
type_synonym u32 = "32 word"
type_synonym u64 = "64 word"

named_theorems vma_simps \<open>definitions of the VMA tree operations\<close>

section \<open>The MAX and MIN macros\<close>

text \<open>
  \<^verbatim>\<open>#define MAX(a, b) ((a) > (b) ? (a) : (b))\<close> and
  \<^verbatim>\<open>#define MIN(a, b) ((a) < (b) ? (a) : (b))\<close>, as the C macros choose.
\<close>

definition c_MAX :: "'a::linorder \<Rightarrow> 'a \<Rightarrow> 'a" where
  "c_MAX a b = (if a > b then a else b)"

definition c_MIN :: "'a::linorder \<Rightarrow> 'a \<Rightarrow> 'a" where
  "c_MIN a b = (if a < b then a else b)"

lemma c_MAX_max [simp]: "c_MAX a b = max a b"
  by (auto simp: c_MAX_def max_def)

lemma c_MIN_min [simp]: "c_MIN a b = min a b"
  by (auto simp: c_MIN_def min_def)

end
