(* ===== verification/Slab_Lists.thy ===== *)
theory Slab_Lists
  imports Asc_Prelude
begin

text \<open>
  What the two slab allocators of the kernel share, \<^verbatim>\<open>mm/slab_cache.c\<close> and \<^verbatim>\<open>mm/heap.c\<close>: the
  header of a slab page, the doubly linked lists of slabs ended by null pointers, the
  128-bit map of used objects, and the invariant of the lists of partial, full and
  free slabs. A pointer is the virtual address of a header, and the headers are a function
  of the address.
\<close>

unbundle bit_operations_syntax

section \<open>Headers and lists\<close>

record slab_links =
  sl_next :: u64
  sl_prev :: u64

record slab_page = slab_links +
  sp_magic :: u64
  sp_cache :: nat
  free_count :: u32
  total_count :: u32
  sp_bitmap :: "u32 list"

record slab_heads =
  slabs_partial :: u64
  slabs_full :: u64
  slabs_free :: u64

definition slab_unlink ::
  "u64 \<Rightarrow> u64 \<Rightarrow> (u64 \<Rightarrow> 'a slab_links_scheme) \<Rightarrow> u64 \<times> (u64 \<Rightarrow> 'a slab_links_scheme)" where
  "slab_unlink head s st =
     (let (head, st) =
            (if sl_prev (st s) \<noteq> 0
             then (head, st(sl_prev (st s) := (st (sl_prev (st s)))\<lparr>sl_next := sl_next (st s)\<rparr>))
             else (sl_next (st s), st));
          st = (if sl_next (st s) \<noteq> 0
                then st(sl_next (st s) := (st (sl_next (st s)))\<lparr>sl_prev := sl_prev (st s)\<rparr>)
                else st)
      in (head, st(s := (st s)\<lparr>sl_next := 0, sl_prev := 0\<rparr>)))"

definition slab_push ::
  "u64 \<Rightarrow> u64 \<Rightarrow> (u64 \<Rightarrow> 'a slab_links_scheme) \<Rightarrow> u64 \<times> (u64 \<Rightarrow> 'a slab_links_scheme)" where
  "slab_push head s st =
     (let st = st(s := (st s)\<lparr>sl_next := head, sl_prev := 0\<rparr>);
          st = (if head \<noteq> 0 then st(head := (st head)\<lparr>sl_prev := s\<rparr>) else st)
      in (s, st))"

section \<open>Lists in the store\<close>

fun seg :: "(u64 \<Rightarrow> 'a slab_links_scheme) \<Rightarrow> u64 \<Rightarrow> u64 list \<Rightarrow> u64 \<Rightarrow> u64 \<Rightarrow> bool" where
  "seg st p [] h m \<longleftrightarrow> h = m"
| "seg st p (x # xs) h m \<longleftrightarrow> h = x \<and> x \<noteq> 0 \<and> sl_prev (st x) = p \<and> seg st x xs (sl_next (st x)) m"

abbreviation chain :: "(u64 \<Rightarrow> 'a slab_links_scheme) \<Rightarrow> u64 list \<Rightarrow> u64 \<Rightarrow> bool" where
  "chain st xs h \<equiv> seg st 0 xs h 0"

definition lastp :: "u64 \<Rightarrow> u64 list \<Rightarrow> u64" where
  "lastp p xs = (if xs = [] then p else last xs)"

lemma lastp_simps [simp]: "lastp p [] = p" "lastp p (x # xs) = lastp x xs" "lastp p (xs @ [x]) = x"
  by (simp_all add: lastp_def)

lemma seg_append: "seg st p (xs @ ys) h m \<longleftrightarrow> (\<exists>k. seg st p xs h k \<and> seg st (lastp p xs) ys k m)"
  by (induction xs arbitrary: p h) auto

lemma seg_cong:
  assumes "\<And>x. x \<in> set xs \<Longrightarrow> sl_next (st' x) = sl_next (st x) \<and> sl_prev (st' x) = sl_prev (st x)"
  shows "seg st' p xs h m \<longleftrightarrow> seg st p xs h m"
  using assms by (induction xs arbitrary: p h) simp_all

lemma seg_frame: "\<forall>x\<in>set xs. st' x = st x \<Longrightarrow> seg st' p xs h m \<longleftrightarrow> seg st p xs h m"
  by (rule seg_cong) simp

lemma seg_nonzero: "seg st p xs h m \<Longrightarrow> 0 \<notin> set xs"
  by (induction xs arbitrary: p h) auto

lemma chain_head: "chain st xs h \<Longrightarrow> h = (case xs of [] \<Rightarrow> 0 | x # _ \<Rightarrow> x)"
  by (cases xs) auto

text \<open>The fields a list operation does not touch.\<close>

abbreviation same_payload :: "(u64 \<Rightarrow> 'a slab_links_scheme) \<Rightarrow> (u64 \<Rightarrow> 'a slab_links_scheme) \<Rightarrow> bool" where
  "same_payload st st' \<equiv> \<forall>x. slab_links.more (st' x) = slab_links.more (st x)"

lemma slab_fields:
  assumes "slab_links.more r' = slab_links.more r"
  shows "sp_magic r' = sp_magic r" "sp_cache r' = sp_cache r" "free_count r' = free_count r"
    "total_count r' = total_count r" "sp_bitmap r' = sp_bitmap r" "slab_page.more r' = slab_page.more r"
  using assms by (cases r; cases r'; simp)+

lemma slab_push_chain:
  assumes c: "chain st xs h" "distinct (s # xs)" "s \<noteq> 0" and p: "slab_push h s st = (h', st')"
  shows "chain st' (s # xs) h'" "h' = s" "\<And>x. x \<notin> set (s # xs) \<Longrightarrow> st' x = st x" "same_payload st st'"
proof -
  have r: "h' = s" "st' = (let st1 = st(s := (st s)\<lparr>sl_next := h, sl_prev := 0\<rparr>)
      in if h \<noteq> 0 then st1(h := (st1 h)\<lparr>sl_prev := s\<rparr>) else st1)"
    using p by (auto simp: slab_push_def Let_def)
  show "h' = s" by (rule r)
  show "\<And>x. x \<notin> set (s # xs) \<Longrightarrow> st' x = st x" "same_payload st st'"
    using chain_head[OF c(1)] by (auto simp: r(2) Let_def split: list.splits)
  show "chain st' (s # xs) h'"
  proof (cases xs)
    case Nil
    then show ?thesis using c(1,3) r by auto
  next
    case (Cons x ys)
    then have hx: "h = x" "x \<noteq> 0" "x \<noteq> s" "seg st x ys (sl_next (st x)) 0" using c(1,2) by auto
    then have st': "st' = st(s := (st s)\<lparr>sl_next := x, sl_prev := 0\<rparr>, x := (st x)\<lparr>sl_prev := s\<rparr>)"
      using r(2) by (simp add: Let_def)
    have "seg st' x ys (sl_next (st x)) 0"
      using hx(4) c(2) Cons by (subst seg_cong[where st = st]) (auto simp: st')
    then show ?thesis using hx(1-3) r(1) Cons c(3) by (simp add: st')
  qed
qed

lemma slab_unlink_chain:
  assumes c: "chain st (ys @ s # zs) h" "distinct (ys @ s # zs)" and u: "slab_unlink h s st = (h', st')"
  shows "chain st' (ys @ zs) h'" "\<And>x. x \<notin> set (ys @ s # zs) \<Longrightarrow> st' x = st x" "same_payload st st'"
proof -
  have s: "s \<noteq> 0" "sl_prev (st s) = lastp 0 ys" "seg st 0 ys h s" "seg st s zs (sl_next (st s)) 0"
    using c(1) by (auto simp: seg_append)
  define p n where "p = lastp 0 ys" and "n = sl_next (st s)"
  have z: "0 \<notin> set (ys @ s # zs)" by (rule seg_nonzero[OF c(1)])
  have l: "lastp 0 ys \<in> set ys" if "ys \<noteq> []" using that by (simp add: lastp_def)
  have p: "p = 0 \<longleftrightarrow> ys = []" "ys \<noteq> [] \<Longrightarrow> p \<in> set ys" using z l by (cases "ys = []"; auto simp: p_def)+
  have n: "n = (case zs of [] \<Rightarrow> 0 | z # _ \<Rightarrow> z)" using s(4) by (cases zs) (auto simp: n_def)
  have n': "n \<noteq> 0 \<longleftrightarrow> zs \<noteq> []" "zs \<noteq> [] \<Longrightarrow> n \<in> set zs" using z by (cases zs; simp add: n)+
  have ne: "p \<noteq> s" "n \<noteq> s" "p \<noteq> 0 \<Longrightarrow> p \<noteq> n"
  proof -
    have d: "s \<notin> set ys" "s \<notin> set zs" "set ys \<inter> set zs = {}" using c(2) by auto
    show "p \<noteq> s" using p s(1) d(1) by metis
    show "n \<noteq> s" using n' s(1) d(2) by metis
    show "p \<noteq> n" if "p \<noteq> 0" using p n' d(3) that by (metis disjoint_iff)
  qed
  have e: "sl_prev (st s) = p" "sl_next (st s) = n" using s(2) by (simp_all add: p_def n_def)
  define st2 where "st2 = (\<lambda>x. if x = s then (st s)\<lparr>sl_next := 0, sl_prev := 0\<rparr>
      else if x = p \<and> p \<noteq> 0 then (st p)\<lparr>sl_next := n\<rparr>
      else if x = n \<and> n \<noteq> 0 then (st n)\<lparr>sl_prev := p\<rparr> else st x)"
  have "slab_unlink h s st = (if p = 0 then n else h, st2)"
    unfolding slab_unlink_def st2_def Let_def using ne e by (cases "p = 0"; cases "n = 0") (auto simp: fun_eq_iff)
  then have st': "st' = st2" and h': "h' = (if p = 0 then n else h)" using u by simp_all
  show "\<And>x. x \<notin> set (ys @ s # zs) \<Longrightarrow> st' x = st x"
    using p n by (auto simp: st' st2_def split: list.splits)
  show "same_payload st st'" by (simp add: st' st2_def)
  have right: "seg st' p zs n 0"
  proof (cases zs)
    case (Cons z zs')
    then have "seg st z zs' (sl_next (st z)) 0" "n = z" using s(4) n by auto
    then have "seg st' z zs' (sl_next (st z)) 0"
      using c(2) Cons p by (subst seg_cong[where st = st]) (auto simp: st' st2_def split: if_splits)
    then show ?thesis using Cons \<open>n = z\<close> ne z c(2) p(2) by (auto simp: st' st2_def)
  qed (simp add: n)
  show "chain st' (ys @ zs) h'"
  proof (cases ys rule: rev_cases)
    case Nil
    then show ?thesis using right h' p by simp
  next
    case (snoc ys' y)
    then have y: "y = p" "p \<noteq> 0" using p by (auto simp: p_def)
    have "seg st 0 ys' h p" "sl_prev (st p) = lastp 0 ys'" using s(3) y snoc by (auto simp: seg_append)
    then have "seg st' 0 ys' h p"
      using c(2) snoc y n by (subst seg_cong[where st = st]) (auto simp: st' st2_def split: list.splits)
    then show ?thesis
      using right h' y snoc \<open>sl_prev (st p) = lastp 0 ys'\<close> ne by (auto simp: seg_append st' st2_def)
  qed
qed


section \<open>The map of used objects\<close>

definition BITMAP_SET :: "u32 list \<Rightarrow> nat \<Rightarrow> u32 list" where
  "BITMAP_SET bmp i = bmp[i div 32 := bmp ! (i div 32) OR push_bit (i mod 32) 1]"

definition BITMAP_CLEAR :: "u32 list \<Rightarrow> nat \<Rightarrow> u32 list" where
  "BITMAP_CLEAR bmp i = bmp[i div 32 := bmp ! (i div 32) AND NOT (push_bit (i mod 32) 1)]"

definition BITMAP_TEST :: "u32 list \<Rightarrow> nat \<Rightarrow> bool" where
  "BITMAP_TEST bmp i \<longleftrightarrow> bmp ! (i div 32) AND push_bit (i mod 32) 1 \<noteq> 0"

text \<open>The search for the first clear bit from \<open>i\<close> on.\<close>

function find_free :: "u32 list \<Rightarrow> nat \<Rightarrow> nat \<Rightarrow> nat option" where
  "find_free bmp i cnt =
     (if i < cnt then if \<not> BITMAP_TEST bmp i then Some i else find_free bmp (i + 1) cnt else None)"
  by pat_completeness auto
termination by (relation "measure (\<lambda>(bmp, i, cnt). cnt - i)") auto

declare find_free.simps [simp del]

lemma find_free_Some: "find_free bmp i cnt = Some k \<Longrightarrow> i \<le> k \<and> k < cnt \<and> \<not> BITMAP_TEST bmp k"
  by (induction bmp i cnt rule: find_free.induct) (subst (asm) (2) find_free.simps, auto split: if_splits)

lemma find_free_None: "find_free bmp i cnt = None \<Longrightarrow> i \<le> k \<Longrightarrow> k < cnt \<Longrightarrow> BITMAP_TEST bmp k"
proof (induction bmp i cnt rule: find_free.induct)
  case (1 bmp i cnt)
  show ?case
  proof (cases "k = i")
    case True
    then show ?thesis using "1.prems" by (simp add: find_free.simps[of bmp i] split: if_splits)
  next
    case False
    then show ?thesis using 1 by (simp add: find_free.simps[of bmp i] split: if_splits)
  qed
qed

lemma BITMAP_TEST_bit: "BITMAP_TEST bmp i \<longleftrightarrow> bit (bmp ! (i div 32)) (i mod 32)"
proof -
  have "w AND push_bit n 1 \<noteq> 0 \<longleftrightarrow> bit w n" if "n < 32" for w :: u32 and n
    using that bit_eq_iff[of "w AND push_bit n 1" 0] by (auto simp: bit_and_iff bit_exp_iff)
  then show ?thesis by (simp add: BITMAP_TEST_def)
qed

lemma slot_eq: "i div 32 = j div 32 \<and> i mod 32 = j mod 32 \<longleftrightarrow> i = (j :: nat)"
  by (metis div_mod_decomp)

lemma BITMAP_laws:
  assumes "length bmp = 4" "i < 128" "j < 128"
  shows "BITMAP_TEST (BITMAP_SET bmp i) j \<longleftrightarrow> j = i \<or> BITMAP_TEST bmp j"
    "BITMAP_TEST (BITMAP_CLEAR bmp i) j \<longleftrightarrow> j \<noteq> i \<and> BITMAP_TEST bmp j"
proof -
  have b: "bit (push_bit (i mod 32) 1 :: u32) (j mod 32) \<longleftrightarrow> j mod 32 = i mod 32"
    by (auto simp: bit_exp_iff)
  have l: "i div 32 < 4" using assms(2) by simp
  show "BITMAP_TEST (BITMAP_SET bmp i) j \<longleftrightarrow> j = i \<or> BITMAP_TEST bmp j"
    using slot_eq[of j i] l assms(1) b
    by (auto simp: BITMAP_TEST_bit BITMAP_SET_def nth_list_update bit_or_iff)
  show "BITMAP_TEST (BITMAP_CLEAR bmp i) j \<longleftrightarrow> j \<noteq> i \<and> BITMAP_TEST bmp j"
    using slot_eq[of j i] l assms(1) b
    by (auto simp: BITMAP_TEST_bit BITMAP_CLEAR_def nth_list_update bit_and_iff bit_not_iff)
qed

lemma BITMAP_length [simp]: "length (BITMAP_SET bmp i) = length bmp" "length (BITMAP_CLEAR bmp i) = length bmp"
  by (simp_all add: BITMAP_SET_def BITMAP_CLEAR_def)


section \<open>Slabs of a cache\<close>

text \<open>
  A header of a slab with \<open>n\<close> objects, of the cache \<open>i\<close>: its count is the number of clear bits.
\<close>

definition slots :: "nat \<Rightarrow> 'a slab_page_scheme \<Rightarrow> nat set" where
  "slots n pg = {k. k < n \<and> \<not> BITMAP_TEST (sp_bitmap pg) k}"

definition hdr_ok :: "u64 \<Rightarrow> nat \<Rightarrow> nat \<Rightarrow> 'a slab_page_scheme \<Rightarrow> bool" where
  "hdr_ok M i n pg \<longleftrightarrow>
     sp_magic pg = M \<and> sp_cache pg = i \<and> total_count pg = of_nat n \<and> length (sp_bitmap pg) = 4 \<and>
     free_count pg = of_nat (card (slots n pg))"

text \<open>
  The three lists of a cache: partial slabs have free and used objects, full slabs no free
  ones, free slabs no used ones. The slabs in \<open>E\<close> may be in the partial list with any count.
\<close>

definition triple :: "'c slab_heads_scheme \<Rightarrow> (u64 \<Rightarrow> 'a slab_links_scheme) \<Rightarrow> u64 list \<Rightarrow> u64 list \<Rightarrow> u64 list \<Rightarrow> bool" where
  "triple c st xs ys zs \<longleftrightarrow> distinct (xs @ ys @ zs) \<and>
     chain st xs (slabs_partial c) \<and> chain st ys (slabs_full c) \<and> chain st zs (slabs_free c)"

definition slabs_ok ::
  "u64 set \<Rightarrow> u64 \<Rightarrow> nat \<Rightarrow> nat \<Rightarrow> 'c slab_heads_scheme \<Rightarrow> (u64 \<Rightarrow> 'a slab_page_scheme) \<Rightarrow>
   u64 list \<Rightarrow> u64 list \<Rightarrow> u64 list \<Rightarrow> bool" where
  "slabs_ok E M i n c st xs ys zs \<longleftrightarrow>
     0 < n \<and> n \<le> 128 \<and> triple c st xs ys zs \<and>
     (\<forall>p\<in>set (xs @ ys @ zs). hdr_ok M i n (st p)) \<and>
     (\<forall>p\<in>set xs - E. 0 < card (slots n (st p)) \<and> card (slots n (st p)) < n) \<and>
     (\<forall>p\<in>set ys. card (slots n (st p)) = 0) \<and>
     (\<forall>p\<in>set zs. card (slots n (st p)) = n)"

lemma slots_finite [simp]: "finite (slots n pg)" and slots_card: "card (slots n pg) \<le> n"
proof -
  have s: "slots n pg \<subseteq> {..<n}" by (auto simp: slots_def)
  then show "finite (slots n pg)" by (rule finite_subset) simp
  show "card (slots n pg) \<le> n" using card_mono[OF _ s] by simp
qed

lemma hdr_ok_cong:
  assumes "slab_links.more r' = slab_links.more r"
  shows "hdr_ok M i n r' = hdr_ok M i n r" "slots n r' = slots n r"
  using slab_fields[OF assms] by (simp_all add: hdr_ok_def slots_def)

lemma slots_eq:
  assumes "n \<le> 128" "m \<le> 128"
  shows "(of_nat (card (slots n pg)) :: u32) = of_nat m \<longleftrightarrow> card (slots n pg) = m"
  using slots_card[of n pg] assms by (simp add: word_unat_eq_iff unat_of_nat take_bit_nat_eq_self)

lemma slots_set:
  assumes "k \<in> slots n pg" "n \<le> 128" "length (sp_bitmap pg) = 4"
  shows "slots n (pg\<lparr>sp_bitmap := BITMAP_SET (sp_bitmap pg) k, free_count := f\<rparr>) = slots n pg - {k}"
  using assms BITMAP_laws(1)[OF assms(3), of k] by (auto simp: slots_def)

lemma slots_clear:
  assumes "k < n" "n \<le> 128" "length (sp_bitmap pg) = 4"
  shows "slots n (pg\<lparr>sp_bitmap := BITMAP_CLEAR (sp_bitmap pg) k, free_count := f\<rparr>) = insert k (slots n pg)"
  using assms BITMAP_laws(2)[OF assms(3), of k] by (auto simp: slots_def)

lemma slabs_ok_frame:
  assumes "slabs_ok E M i n c st xs ys zs" "\<And>p. p \<in> set (xs @ ys @ zs) \<Longrightarrow> st' p = st p"
    and "slabs_partial c' = slabs_partial c" "slabs_full c' = slabs_full c" "slabs_free c' = slabs_free c"
  shows "slabs_ok E M i n c' st' xs ys zs"
proof -
  have "triple c' st' xs ys zs"
    using assms seg_cong[of xs st' st 0] seg_cong[of ys st' st 0] seg_cong[of zs st' st 0]
    by (simp add: slabs_ok_def triple_def)
  then show ?thesis using assms(1,2) unfolding slabs_ok_def by (intro conjI ballI; elim conjE; simp)
qed


text \<open>A slab goes from one list to the front of another.\<close>

lemma slab_move:
  assumes c: "chain st (us @ s # vs) h" "chain st ys h2" "chain st zs h3" "distinct (us @ s # vs @ ys @ zs)"
    and u: "slab_unlink h s st = (h', st1)" and p: "slab_push h2 s st1 = (h2', st2)"
  shows "chain st2 (us @ vs) h'" "chain st2 (s # ys) h2'" "chain st2 zs h3" "same_payload st st2"
    "\<And>x. x \<notin> set (us @ s # vs @ ys @ zs) \<Longrightarrow> st2 x = st x"
proof -
  have d: "distinct (us @ s # vs)" "distinct (s # ys)" using c(4) by auto
  have dj: "\<forall>x\<in>set ys. x \<notin> set (us @ s # vs)" "\<forall>x\<in>set zs. x \<notin> set (us @ s # vs)"
    "\<forall>x\<in>set (us @ vs). x \<notin> set (s # ys)" "\<forall>x\<in>set zs. x \<notin> set (s # ys)" using c(4) by auto
  note a = slab_unlink_chain[OF c(1) d(1) u]
  have s0: "s \<noteq> 0" using seg_nonzero[OF c(1)] by auto
  have 1: "\<forall>x\<in>set ys. st1 x = st x" "\<forall>x\<in>set zs. st1 x = st x" using a(2) dj(1,2) by blast+
  have "chain st1 ys h2" using c(2) seg_frame[OF 1(1)] by simp
  note b = slab_push_chain[OF this d(2) s0 p]
  show "chain st2 (s # ys) h2'" by (rule b)
  show "same_payload st st2" using a(3) b(4) by simp
  show "\<And>x. x \<notin> set (us @ s # vs @ ys @ zs) \<Longrightarrow> st2 x = st x" using a(2) b(3) by simp
  have 2: "\<forall>x\<in>set (us @ vs). st2 x = st1 x" "\<forall>x\<in>set zs. st2 x = st1 x" using b(3) dj(3,4) by blast+
  show "chain st2 (us @ vs) h'" using a(1) seg_frame[OF 2(1)] by simp
  show "chain st2 zs h3" using c(3) seg_frame[OF 1(2)] seg_frame[OF 2(2)] by simp
qed

text \<open>The four moves the allocators make.\<close>

lemma triple_fill:
  assumes t: "triple c st (us @ s # vs) ys zs"
    and u: "slab_unlink (slabs_partial c) s st = (h', st1)" and p: "slab_push (slabs_full c) s st1 = (h2', st2)"
  shows "triple (c\<lparr>slabs_partial := h', slabs_full := h2'\<rparr>) st2 (us @ vs) (s # ys) zs" "same_payload st st2"
    "\<And>x. x \<notin> set (us @ s # vs @ ys @ zs) \<Longrightarrow> st2 x = st x"
proof -
  have c: "chain st (us @ s # vs) (slabs_partial c)" "chain st ys (slabs_full c)" "chain st zs (slabs_free c)"
    "distinct (us @ s # vs @ ys @ zs)" using t by (auto simp: triple_def)
  note m = slab_move[OF c u p]
  show "same_payload st st2" "\<And>x. x \<notin> set (us @ s # vs @ ys @ zs) \<Longrightarrow> st2 x = st x" by (rule m)+
  show "triple (c\<lparr>slabs_partial := h', slabs_full := h2'\<rparr>) st2 (us @ vs) (s # ys) zs" using m(1-3) c(4) by (simp add: triple_def inf_commute Un_ac Int_Un_distrib)
qed

lemma triple_empty:
  assumes t: "triple c st (us @ s # vs) ys zs"
    and u: "slab_unlink (slabs_partial c) s st = (h', st1)" and p: "slab_push (slabs_free c) s st1 = (h2', st2)"
  shows "triple (c\<lparr>slabs_partial := h', slabs_free := h2'\<rparr>) st2 (us @ vs) ys (s # zs)" "same_payload st st2"
    "\<And>x. x \<notin> set (us @ s # vs @ zs @ ys) \<Longrightarrow> st2 x = st x"
proof -
  have c: "chain st (us @ s # vs) (slabs_partial c)" "chain st zs (slabs_free c)" "chain st ys (slabs_full c)"
    "distinct (us @ s # vs @ zs @ ys)" using t by (auto simp: triple_def)
  note m = slab_move[OF c u p]
  show "same_payload st st2" "\<And>x. x \<notin> set (us @ s # vs @ zs @ ys) \<Longrightarrow> st2 x = st x" by (rule m)+
  show "triple (c\<lparr>slabs_partial := h', slabs_free := h2'\<rparr>) st2 (us @ vs) ys (s # zs)" using m(1-3) c(4) by (simp add: triple_def inf_commute Un_ac Int_Un_distrib)
qed

lemma triple_reopen:
  assumes t: "triple c st xs (us @ s # vs) zs"
    and u: "slab_unlink (slabs_full c) s st = (h', st1)" and p: "slab_push (slabs_partial c) s st1 = (h2', st2)"
  shows "triple (c\<lparr>slabs_full := h', slabs_partial := h2'\<rparr>) st2 (s # xs) (us @ vs) zs" "same_payload st st2"
    "\<And>x. x \<notin> set (us @ s # vs @ xs @ zs) \<Longrightarrow> st2 x = st x"
proof -
  have c: "chain st (us @ s # vs) (slabs_full c)" "chain st xs (slabs_partial c)" "chain st zs (slabs_free c)"
    "distinct (us @ s # vs @ xs @ zs)" using t by (auto simp: triple_def)
  note m = slab_move[OF c u p]
  show "same_payload st st2" "\<And>x. x \<notin> set (us @ s # vs @ xs @ zs) \<Longrightarrow> st2 x = st x" by (rule m)+
  show "triple (c\<lparr>slabs_full := h', slabs_partial := h2'\<rparr>) st2 (s # xs) (us @ vs) zs" using m(1-3) c(4) by (simp add: triple_def inf_commute Un_ac Int_Un_distrib)
qed

lemma triple_reuse:
  assumes t: "triple c st xs ys (us @ s # vs)"
    and u: "slab_unlink (slabs_free c) s st = (h', st1)" and p: "slab_push (slabs_partial c) s st1 = (h2', st2)"
  shows "triple (c\<lparr>slabs_free := h', slabs_partial := h2'\<rparr>) st2 (s # xs) ys (us @ vs)" "same_payload st st2"
    "\<And>x. x \<notin> set (us @ s # vs @ xs @ ys) \<Longrightarrow> st2 x = st x"
proof -
  have c: "chain st (us @ s # vs) (slabs_free c)" "chain st xs (slabs_partial c)" "chain st ys (slabs_full c)"
    "distinct (us @ s # vs @ xs @ ys)" using t by (auto simp: triple_def)
  note m = slab_move[OF c u p]
  show "same_payload st st2" "\<And>x. x \<notin> set (us @ s # vs @ xs @ ys) \<Longrightarrow> st2 x = st x" by (rule m)+
  show "triple (c\<lparr>slabs_free := h', slabs_partial := h2'\<rparr>) st2 (s # xs) ys (us @ vs)" using m(1-3) c(4) by (simp add: triple_def inf_commute Un_ac Int_Un_distrib)
qed

section \<open>Taking and returning an object\<close>

text \<open>
  Taking the object \<open>k\<close> of the slab \<open>s\<close>, which is in the partial list, and returning it.
\<close>

definition slab_claim ::
  "u64 \<Rightarrow> nat \<Rightarrow> 'c slab_heads_scheme \<times> (u64 \<Rightarrow> 'a slab_page_scheme) \<Rightarrow>
   'c slab_heads_scheme \<times> (u64 \<Rightarrow> 'a slab_page_scheme)" where
  "slab_claim s k =
     (\<lambda>(c, st).
        let st = st(s := (st s)\<lparr>sp_bitmap := BITMAP_SET (sp_bitmap (st s)) k,
                                free_count := free_count (st s) - 1\<rparr>)
        in if free_count (st s) = 0 then
             (let (h, st) = slab_unlink (slabs_partial c) s st;
                  c = c\<lparr>slabs_partial := h\<rparr>;
                  (h, st) = slab_push (slabs_full c) s st
              in (c\<lparr>slabs_full := h\<rparr>, st))
           else (c, st))"

definition slab_reopen ::
  "u64 \<Rightarrow> 'c slab_heads_scheme \<times> (u64 \<Rightarrow> 'a slab_page_scheme) \<Rightarrow>
   'c slab_heads_scheme \<times> (u64 \<Rightarrow> 'a slab_page_scheme)" where
  "slab_reopen s =
     (\<lambda>(c, st).
        if free_count (st s) = 1 then
          (let (h, st) = slab_unlink (slabs_full c) s st;
               c = c\<lparr>slabs_full := h\<rparr>;
               (h, st) = slab_push (slabs_partial c) s st
           in (c\<lparr>slabs_partial := h\<rparr>, st))
        else (c, st))"

definition slab_retire ::
  "u64 \<Rightarrow> 'c slab_heads_scheme \<times> (u64 \<Rightarrow> 'a slab_page_scheme) \<Rightarrow>
   'c slab_heads_scheme \<times> (u64 \<Rightarrow> 'a slab_page_scheme)" where
  "slab_retire s =
     (\<lambda>(c, st).
        if free_count (st s) = total_count (st s) then
          (let (h, st) = slab_unlink (slabs_partial c) s st;
               c = c\<lparr>slabs_partial := h\<rparr>;
               (h, st) = slab_push (slabs_free c) s st
           in (c\<lparr>slabs_free := h\<rparr>, st))
        else (c, st))"

definition slab_unclaim ::
  "u64 \<Rightarrow> nat \<Rightarrow> 'c slab_heads_scheme \<times> (u64 \<Rightarrow> 'a slab_page_scheme) \<Rightarrow>
   'c slab_heads_scheme \<times> (u64 \<Rightarrow> 'a slab_page_scheme)" where
  "slab_unclaim s k =
     (\<lambda>(c, st).
        slab_retire s (slab_reopen s
          (c, st(s := (st s)\<lparr>sp_bitmap := BITMAP_CLEAR (sp_bitmap (st s)) k,
                             free_count := free_count (st s) + 1\<rparr>))))"

abbreviation used :: "(u64 \<Rightarrow> 'a slab_page_scheme) \<Rightarrow> u64 \<Rightarrow> nat \<Rightarrow> bool" where
  "used st p j \<equiv> BITMAP_TEST (sp_bitmap (st p)) j"

lemma triple_payload:
  assumes "triple c st xs ys zs" "\<And>x. sl_next (st' x) = sl_next (st x) \<and> sl_prev (st' x) = sl_prev (st x)"
  shows "triple c st' xs ys zs"
  using assms(1) seg_cong[of xs st' st] seg_cong[of ys st' st] seg_cong[of zs st' st] assms(2)
  by (simp add: triple_def)

text \<open>
  A slab whose header changes, but for its links, and that may change its list: the lists are
  right again when the count of the slab fits its list.
\<close>

lemma slabs_relink:
  assumes ok: "slabs_ok {s} M i n c st xs ys zs" and s: "hdr_ok M i n r"
    and t: "triple c' st' xs' ys' zs'" and sp: "same_payload (st(s := r)) st'"
    and sub: "set xs' \<subseteq> insert s (set xs)" "set ys' \<subseteq> insert s (set ys)" "set zs' \<subseteq> insert s (set zs)"
    and cls: "s \<in> set xs' \<Longrightarrow> 0 < card (slots n r) \<and> card (slots n r) < n"
      "s \<in> set ys' \<Longrightarrow> card (slots n r) = 0" "s \<in> set zs' \<Longrightarrow> card (slots n r) = n"
  shows "slabs_ok {} M i n c' st' xs' ys' zs'"
proof -
  have eq: "hdr_ok M i n (st' p) = hdr_ok M i n (if p = s then r else st p)"
    "slots n (st' p) = slots n (if p = s then r else st p)" for p
    using hdr_ok_cong[OF sp[rule_format, of p]] by (auto split: if_splits)
  have o: "p \<in> set (xs @ ys @ zs) \<Longrightarrow> hdr_ok M i n (st p)"
    "p \<in> set xs \<Longrightarrow> p \<noteq> s \<Longrightarrow> 0 < card (slots n (st p)) \<and> card (slots n (st p)) < n"
    "p \<in> set ys \<Longrightarrow> card (slots n (st p)) = 0" "p \<in> set zs \<Longrightarrow> card (slots n (st p)) = n" for p
    using ok by (auto simp: slabs_ok_def)
  have n: "0 < n" "n \<le> 128" using ok by (simp_all add: slabs_ok_def)
  show ?thesis
    unfolding slabs_ok_def eq
    using n t s sub cls o by (intro conjI ballI) (auto simp: subset_iff)
qed

lemma slab_claim_lists:
  assumes t: "triple c st (s # xs) ys zs" and r: "slab_claim s k (c, st) = (c', st')"
  defines "st1 \<equiv> st(s := (st s)\<lparr>sp_bitmap := BITMAP_SET (sp_bitmap (st s)) k, free_count := free_count (st s) - 1\<rparr>)"
  obtains xs' ys' where "triple c' st' xs' ys' zs" "same_payload st1 st'" "slab_heads.more c' = slab_heads.more c"
    "(xs', ys') = (if free_count (st s) - 1 = 0 then (xs, s # ys) else (s # xs, ys))"
    "\<And>p. p \<notin> set (s # xs @ ys @ zs) \<Longrightarrow> st' p = st p"
proof -
  have t1: "triple c st1 (s # xs) ys zs" by (rule triple_payload[OF t]) (simp add: st1_def)
  show thesis
  proof (cases "free_count (st s) - 1 = 0")
    case False
    then have "c' = c" "st' = st1" using r by (simp_all add: slab_claim_def st1_def)
    then show thesis using t1 False that[of "s # xs" ys] by (simp add: st1_def)
  next
    case True
    obtain hp st2 where u: "slab_unlink (slabs_partial c) s st1 = (hp, st2)" by fastforce
    obtain hf st3 where p: "slab_push (slabs_full c) s st2 = (hf, st3)" by fastforce
    have e: "c' = c\<lparr>slabs_partial := hp, slabs_full := hf\<rparr>" "st' = st3"
      using r True u p by (simp_all add: slab_claim_def st1_def)
    note f = triple_fill[of c st1 "[]" s xs ys zs, simplified, OF t1 u p]
    show thesis by (rule that[of xs "s # ys"]) (use e f True in \<open>simp_all add: st1_def\<close>)
  qed
qed

lemma slab_claim_ok:
  assumes ok: "slabs_ok {s} M i n c st (s # xs) ys zs" and k: "k < n" "\<not> used st s k"
    and r: "slab_claim s k (c, st) = (c', st')"
  shows "\<exists>xs' ys'. slabs_ok {} M i n c' st' xs' ys' zs \<and> set (xs' @ ys') = set (s # xs @ ys)"
    "\<And>p j. j < 128 \<Longrightarrow> used st' p j \<longleftrightarrow> used st p j \<or> (p = s \<and> j = k)"
    "\<And>p. p \<notin> set (s # xs @ ys @ zs) \<Longrightarrow> st' p = st p"
    "\<And>p. slab_page.more (st' p) = slab_page.more (st p)" "slab_heads.more c' = slab_heads.more c"
proof -
  let ?s = "(st s)\<lparr>sp_bitmap := BITMAP_SET (sp_bitmap (st s)) k, free_count := free_count (st s) - 1\<rparr>"
  have n: "n \<le> 128" and t: "triple c st (s # xs) ys zs" and h: "hdr_ok M i n (st s)"
    using ok by (auto simp: slabs_ok_def)
  have len: "length (sp_bitmap (st s)) = 4" using h by (simp add: hdr_ok_def)
  have ks: "k \<in> slots n (st s)" using k by (simp add: slots_def)
  have sl: "slots n ?s = slots n (st s) - {k}" using slots_set[OF ks n len] by simp
  then have card: "card (slots n ?s) = card (slots n (st s)) - 1" "0 < card (slots n (st s))"
    using ks by (auto simp: card_gt_0_iff)
  have fc: "free_count (st s) - 1 = of_nat (card (slots n ?s))" using h card by (simp add: hdr_ok_def of_nat_diff)
  have h1: "hdr_ok M i n ?s" using h fc by (simp add: hdr_ok_def)
  have z: "free_count (st s) - 1 = 0 \<longleftrightarrow> card (slots n ?s) = 0" using slots_eq[OF n, of 0 ?s] fc by simp
  obtain xs' ys' where x: "triple c' st' xs' ys' zs" "same_payload (st(s := ?s)) st'" "slab_heads.more c' = slab_heads.more c"
    "(xs', ys') = (if free_count (st s) - 1 = 0 then (xs, s # ys) else (s # xs, ys))"
    "\<And>p. p \<notin> set (s # xs @ ys @ zs) \<Longrightarrow> st' p = st p"
    by (rule slab_claim_lists[OF t r], rule that; assumption)
  have d: "s \<notin> set xs" "s \<notin> set ys" "s \<notin> set zs" using t by (auto simp: triple_def)
  have "slabs_ok {} M i n c' st' xs' ys' zs"
    using x(4) z d card slots_card[of n "st s"]
    by (intro slabs_relink[OF ok h1 x(1,2)]) (auto split: if_splits)
  moreover have "set (xs' @ ys') = set (s # xs @ ys)" using x(4) by (auto split: if_splits)
  ultimately show "\<exists>xs' ys'. slabs_ok {} M i n c' st' xs' ys' zs \<and> set (xs' @ ys') = set (s # xs @ ys)" by blast
  show "used st' p j \<longleftrightarrow> used st p j \<or> (p = s \<and> j = k)" if "j < 128" for p j
    using slab_fields(5)[OF x(2)[rule_format, of p]] BITMAP_laws(1)[OF len, of k j] that k(1) n by auto
  show "st' p = st p" if "p \<notin> set (s # xs @ ys @ zs)" for p using x(5)[OF that] .
  show "slab_page.more (st' p) = slab_page.more (st p)" for p
    using slab_fields(6)[OF x(2)[rule_format, of p]] by auto
  show "slab_heads.more c' = slab_heads.more c" by (rule x)
qed

lemma slab_reopen_lists:
  assumes t: "triple c st xs ys zs" and s: "s \<in> set (if free_count (st s) = 1 then ys else xs)"
    and r: "slab_reopen s (c, st) = (c', st')"
  shows "\<exists>xs' ys'. triple c' st' xs' ys' zs \<and> s \<in> set xs' \<and> set xs' = insert s (set xs) \<and> set ys' = set ys - {s}"
    "same_payload st st'" "slab_heads.more c' = slab_heads.more c" "\<And>p. p \<notin> set (xs @ ys @ zs) \<Longrightarrow> st' p = st p"
proof -
  have "(\<exists>xs' ys'. triple c' st' xs' ys' zs \<and> s \<in> set xs' \<and> set xs' = insert s (set xs) \<and> set ys' = set ys - {s}) \<and>
    same_payload st st' \<and> slab_heads.more c' = slab_heads.more c \<and> (\<forall>p. p \<notin> set (xs @ ys @ zs) \<longrightarrow> st' p = st p)"
  proof (cases "free_count (st s) = 1")
    case True
    then obtain us vs where y: "ys = us @ s # vs" using s by (auto simp: in_set_conv_decomp)
    obtain hf st1 where u: "slab_unlink (slabs_full c) s st = (hf, st1)" by fastforce
    obtain hp st2 where p: "slab_push (slabs_partial c) s st1 = (hp, st2)" by fastforce
    have e: "c' = c\<lparr>slabs_full := hf, slabs_partial := hp\<rparr>" "st' = st2"
      using r True u p by (simp_all add: slab_reopen_def)
    note f = triple_reopen[OF t[unfolded y] u p]
    have d: "set (us @ vs) = set ys - {s}" using t y by (auto simp: triple_def)
    show ?thesis using e f d y
      by (intro conjI exI[of _ "s # xs"] exI[of _ "us @ vs"]) simp_all
  next
    case False
    then have "c' = c" "st' = st" using r by (simp_all add: slab_reopen_def)
    moreover have "s \<in> set xs" "set ys - {s} = set ys" "insert s (set xs) = set xs"
      using s False t by (auto simp: triple_def)
    ultimately show ?thesis using t by blast
  qed
  then show "\<exists>xs' ys'. triple c' st' xs' ys' zs \<and> s \<in> set xs' \<and> set xs' = insert s (set xs) \<and> set ys' = set ys - {s}"
    "same_payload st st'" "slab_heads.more c' = slab_heads.more c" "\<And>p. p \<notin> set (xs @ ys @ zs) \<Longrightarrow> st' p = st p"
    by blast+
qed

lemma slab_retire_lists:
  assumes t: "triple c st xs ys zs" and s: "s \<in> set xs" and r: "slab_retire s (c, st) = (c', st')"
  shows "\<exists>xs' zs'. triple c' st' xs' ys zs' \<and> set xs' \<union> set zs' = set xs \<union> set zs \<and> set zs \<subseteq> set zs' \<and>
      s \<in> set (if free_count (st s) = total_count (st s) then zs' else xs') \<and> set zs' \<subseteq> insert s (set zs)"
    "same_payload st st'" "slab_heads.more c' = slab_heads.more c" "\<And>p. p \<notin> set (xs @ ys @ zs) \<Longrightarrow> st' p = st p"
proof -
  have "(\<exists>xs' zs'. triple c' st' xs' ys zs' \<and> set xs' \<union> set zs' = set xs \<union> set zs \<and> set zs \<subseteq> set zs' \<and>
      s \<in> set (if free_count (st s) = total_count (st s) then zs' else xs') \<and> set zs' \<subseteq> insert s (set zs)) \<and>
    same_payload st st' \<and> slab_heads.more c' = slab_heads.more c \<and> (\<forall>p. p \<notin> set (xs @ ys @ zs) \<longrightarrow> st' p = st p)"
  proof (cases "free_count (st s) = total_count (st s)")
    case True
    obtain us vs where x: "xs = us @ s # vs" using s by (auto simp: in_set_conv_decomp)
    obtain hp st1 where u: "slab_unlink (slabs_partial c) s st = (hp, st1)" by fastforce
    obtain hz st2 where p: "slab_push (slabs_free c) s st1 = (hz, st2)" by fastforce
    have e: "c' = c\<lparr>slabs_partial := hp, slabs_free := hz\<rparr>" "st' = st2"
      using r True u p by (simp_all add: slab_retire_def)
    note f = triple_empty[OF t[unfolded x] u p]
    show ?thesis using e f x True
      by (intro conjI exI[of _ "us @ vs"] exI[of _ "s # zs"]) auto
  next
    case False
    then have "c' = c" "st' = st" using r by (simp_all add: slab_retire_def)
    then show ?thesis using t s False by (intro conjI exI[of _ xs] exI[of _ zs]) auto
  qed
  then show "\<exists>xs' zs'. triple c' st' xs' ys zs' \<and> set xs' \<union> set zs' = set xs \<union> set zs \<and> set zs \<subseteq> set zs' \<and>
      s \<in> set (if free_count (st s) = total_count (st s) then zs' else xs') \<and> set zs' \<subseteq> insert s (set zs)"
    "same_payload st st'" "slab_heads.more c' = slab_heads.more c" "\<And>p. p \<notin> set (xs @ ys @ zs) \<Longrightarrow> st' p = st p"
    by blast+
qed

lemma slabs_ok_weaken: "slabs_ok {} M i n c st xs ys zs \<Longrightarrow> slabs_ok E M i n c st xs ys zs"
  by (auto simp: slabs_ok_def)

lemma slabs_ok_used:
  assumes "slabs_ok E M i n c st xs ys zs" "k < n" "used st s k" shows "s \<notin> set zs"
proof
  assume "s \<in> set zs"
  then have "card (slots n (st s)) = n" using assms(1) by (simp add: slabs_ok_def)
  moreover have "slots n (st s) \<subseteq> {..<n} - {k}" using assms(3) by (auto simp: slots_def)
  ultimately show False using card_mono[of "{..<n} - {k}" "slots n (st s)"] assms(2) by simp
qed

lemma slab_unclaim_ok:
  assumes ok: "slabs_ok {} M i n c st xs ys zs" and s: "s \<in> set (xs @ ys @ zs)" and k: "k < n" "used st s k"
    and r: "slab_unclaim s k (c, st) = (c', st')"
  shows "\<exists>xs' ys' zs'. slabs_ok {} M i n c' st' xs' ys' zs' \<and> set (xs' @ ys' @ zs') = set (xs @ ys @ zs)"
    "\<And>p j. j < 128 \<Longrightarrow> used st' p j \<longleftrightarrow> used st p j \<and> \<not> (p = s \<and> j = k)"
    "\<And>p. p \<notin> set (xs @ ys @ zs) \<Longrightarrow> st' p = st p"
    "\<And>p. slab_page.more (st' p) = slab_page.more (st p)" "slab_heads.more c' = slab_heads.more c"
proof -
  let ?s = "(st s)\<lparr>sp_bitmap := BITMAP_CLEAR (sp_bitmap (st s)) k, free_count := free_count (st s) + 1\<rparr>"
  define st1 where "st1 = st(s := ?s)"
  have n: "n \<le> 128" and t: "triple c st xs ys zs" and h: "hdr_ok M i n (st s)"
    using ok s by (auto simp: slabs_ok_def)
  have len: "length (sp_bitmap (st s)) = 4" using h by (simp add: hdr_ok_def)
  have sl: "slots n ?s = insert k (slots n (st s))" using slots_clear[OF k(1) n len] by simp
  have card: "card (slots n ?s) = card (slots n (st s)) + 1" using k(2) unfolding sl by (simp add: slots_def)
  have fc: "free_count ?s = of_nat (card (slots n ?s))" "total_count ?s = of_nat n"
    using h card by (simp_all add: hdr_ok_def)
  have h1: "hdr_ok M i n ?s" using h fc by (simp add: hdr_ok_def)
  have e1: "free_count ?s = 1 \<longleftrightarrow> card (slots n (st s)) = 0" "free_count ?s = total_count ?s \<longleftrightarrow> card (slots n ?s) = n"
    using slots_eq[OF n, of 1 ?s] slots_eq[OF n n, of ?s] card unfolding fc by simp_all
  have t1: "triple c st1 xs ys zs" by (rule triple_payload[OF t]) (simp add: st1_def)
  have nz: "s \<notin> set zs" by (rule slabs_ok_used[OF ok k])
  have cls: "s \<in> set ys \<longleftrightarrow> card (slots n (st s)) = 0" using ok s nz by (auto simp: slabs_ok_def)
  have s1: "st1 s = ?s" by (simp add: st1_def)
  have in1: "s \<in> set (if free_count (st1 s) = 1 then ys else xs)" using e1(1) cls s nz s1 by auto
  obtain c2 st2 where r2: "slab_reopen s (c, st1) = (c2, st2)" by fastforce
  note a = slab_reopen_lists[OF t1 in1 r2]
  obtain xs2 ys2 where a1: "triple c2 st2 xs2 ys2 zs" "s \<in> set xs2" "set xs2 = insert s (set xs)" "set ys2 = set ys - {s}"
    using a(1) by blast
  have r3: "slab_retire s (c2, st2) = (c', st')" using r r2 by (simp add: slab_unclaim_def st1_def)
  note b = slab_retire_lists[OF a1(1,2) r3]
  obtain xs3 zs3 where b1: "triple c' st' xs3 ys2 zs3" "set xs3 \<union> set zs3 = set xs2 \<union> set zs" "set zs \<subseteq> set zs3"
    "s \<in> set (if free_count (st2 s) = total_count (st2 s) then zs3 else xs3)" "set zs3 \<subseteq> insert s (set zs)"
    using b(1) by blast
  have sp: "same_payload st1 st'" using a(2) b(2) by simp
  have f2: "free_count (st2 s) = total_count (st2 s) \<longleftrightarrow> card (slots n ?s) = n"
    using slab_fields(3,4)[OF a(2)[rule_format, of s]] e1(2) s1 by simp
  have d3: "set xs3 \<inter> set zs3 = {}" "s \<notin> set ys2" using b1(1) a1(4) by (auto simp: triple_def)
  have sub: "set xs3 \<subseteq> insert s (set xs)" "set ys2 \<subseteq> insert s (set ys)"
    using b1(2,3) a1(3,4) d3(1) by blast+
  have "card (slots n ?s) < n" if "card (slots n ?s) \<noteq> n" using slots_card[of n ?s] that by simp
  then have "slabs_ok {} M i n c' st' xs3 ys2 zs3"
    using card f2 b1(4) d3
    by (intro slabs_relink[OF slabs_ok_weaken[OF ok] h1 b1(1) sp[unfolded st1_def] sub b1(5)]) (auto split: if_splits)
  moreover have "set (xs3 @ ys2 @ zs3) = set (xs @ ys @ zs)"
    using b1(2) a1(3,4) s by auto
  ultimately show "\<exists>xs' ys' zs'. slabs_ok {} M i n c' st' xs' ys' zs' \<and> set (xs' @ ys' @ zs') = set (xs @ ys @ zs)" by blast
  show "used st' p j \<longleftrightarrow> used st p j \<and> \<not> (p = s \<and> j = k)" if "j < 128" for p j
    using slab_fields(5)[OF sp[rule_format, of p]] BITMAP_laws(2)[OF len, of k j] that k(1) n by (auto simp: st1_def)
  show "st' p = st p" if "p \<notin> set (xs @ ys @ zs)" for p
    using a(4)[OF that] b(4)[of p] a1(3,4) s that by (auto simp: st1_def)
  show "slab_page.more (st' p) = slab_page.more (st p)" for p
    using slab_fields(6)[OF sp[rule_format, of p]] by (auto simp: st1_def)
  show "slab_heads.more c' = slab_heads.more c" using a(3) b(3) by simp
qed

text \<open>The slab the next object is taken from, when the partial list is empty.\<close>

lemma slab_reuse_ok:
  assumes ok: "slabs_ok {} M i n c st xs ys (s # zs)"
    and u: "slab_unlink (slabs_free c) s st = (h, st1)" and p: "slab_push (slabs_partial c) s st1 = (h', st2)"
  shows "slabs_ok {s} M i n (c\<lparr>slabs_free := h, slabs_partial := h'\<rparr>) st2 (s # xs) ys zs"
    "\<And>p j. used st2 p j = used st p j" "\<And>p. p \<notin> set (xs @ ys @ s # zs) \<Longrightarrow> st2 p = st p"
    "\<And>p. slab_page.more (st2 p) = slab_page.more (st p)"
proof -
  have t: "triple c st xs ys (s # zs)" using ok by (simp add: slabs_ok_def)
  note m = triple_reuse[of c st xs ys "[]" s zs, simplified, OF t u p]
  have eq: "hdr_ok M i n (st2 q) = hdr_ok M i n (st q)" "slots n (st2 q) = slots n (st q)" for q
    using hdr_ok_cong[OF m(2)[rule_format, of q]] by auto
  show "slabs_ok {s} M i n (c\<lparr>slabs_free := h, slabs_partial := h'\<rparr>) st2 (s # xs) ys zs"
    unfolding slabs_ok_def eq using ok m(1) by (auto simp: slabs_ok_def)
  show "used st2 q j = used st q j" for q j using slab_fields(5)[OF m(2)[rule_format, of q]] by simp
  show "\<And>p. p \<notin> set (xs @ ys @ s # zs) \<Longrightarrow> st2 p = st p" using m(3) by simp
  show "slab_page.more (st2 q) = slab_page.more (st q)" for q using slab_fields(6)[OF m(2)[rule_format, of q]] by simp
qed

lemma slab_drop_ok:
  assumes ok: "slabs_ok {} M i n c st xs ys (s # zs)" and u: "slab_unlink (slabs_free c) s st = (h, st1)"
  shows "slabs_ok {} M i n (c\<lparr>slabs_free := h\<rparr>) st1 xs ys zs" "\<And>p j. used st1 p j = used st p j"
    "\<And>p. p \<notin> set (s # zs) \<Longrightarrow> st1 p = st p"
proof -
  have c: "chain st (s # zs) (slabs_free c)" "distinct (xs @ ys @ s # zs)" "chain st xs (slabs_partial c)" "chain st ys (slabs_full c)"
    using ok by (auto simp: slabs_ok_def triple_def)
  have d: "distinct (s # zs)" using c(2) by simp
  note m = slab_unlink_chain[of st "[]" s zs, simplified, OF c(1)[simplified] d[simplified] u]
  have f: "\<forall>x\<in>set xs. st1 x = st x" "\<forall>x\<in>set ys. st1 x = st x"
  proof -
    have "\<forall>x\<in>set xs \<union> set ys. x \<noteq> s \<and> x \<notin> set zs" using c(2) by auto
    then show "\<forall>x\<in>set xs. st1 x = st x" "\<forall>x\<in>set ys. st1 x = st x" using m(2) by blast+
  qed
  have t: "triple (c\<lparr>slabs_free := h\<rparr>) st1 xs ys zs"
    using m(1) c seg_frame[of xs st1 st] seg_frame[of ys st1 st] f by (simp add: triple_def)
  have eq: "hdr_ok M i n (st1 q) = hdr_ok M i n (st q)" "slots n (st1 q) = slots n (st q)" for q
    using hdr_ok_cong[OF m(3)[rule_format, of q]] by auto
  show "slabs_ok {} M i n (c\<lparr>slabs_free := h\<rparr>) st1 xs ys zs"
    unfolding slabs_ok_def eq using ok t by (auto simp: slabs_ok_def)
  show "used st1 q j = used st q j" for q j using slab_fields(5)[OF m(3)[rule_format, of q]] by simp
  show "\<And>p. p \<notin> set (s # zs) \<Longrightarrow> st1 p = st p" using m(2) by simp
qed

lemma slab_new_ok:
  assumes ok: "slabs_ok {} M i n c st xs ys zs" and s: "s \<notin> set (xs @ ys @ zs)" "s \<noteq> 0"
    and r: "hdr_ok M i n r" and p: "slab_push (slabs_partial c) s (st(s := r)) = (h', st2)"
  shows "slabs_ok {s} M i n (c\<lparr>slabs_partial := h'\<rparr>) st2 (s # xs) ys zs"
    "\<And>p j. used st2 p j = used (st(s := r)) p j" "\<And>p. p \<notin> set (s # xs) \<Longrightarrow> st2 p = st p"
    "\<And>p. slab_page.more (st2 p) = slab_page.more ((st(s := r)) p)"
proof -
  have ok1: "slabs_ok {} M i n c (st(s := r)) xs ys zs" by (rule slabs_ok_frame[OF ok]) (use s in auto)
  then have c: "chain (st(s := r)) xs (slabs_partial c)" "chain (st(s := r)) ys (slabs_full c)"
    "chain (st(s := r)) zs (slabs_free c)" "distinct (xs @ ys @ zs)" by (auto simp: slabs_ok_def triple_def)
  have d: "distinct (s # xs)" using c(4) s by auto
  note m = slab_push_chain[OF c(1) d s(2) p]
  have f: "\<forall>x\<in>set ys. st2 x = (st(s := r)) x" "\<forall>x\<in>set zs. st2 x = (st(s := r)) x"
    using m(3) c(4) s(1) by auto
  have t: "triple (c\<lparr>slabs_partial := h'\<rparr>) st2 (s # xs) ys zs"
    using m(1) c seg_frame[of ys st2 "st(s := r)"] seg_frame[of zs st2 "st(s := r)"] f s(1) by (simp add: triple_def)
  have eq: "hdr_ok M i n (st2 q) = hdr_ok M i n ((st(s := r)) q)" "slots n (st2 q) = slots n ((st(s := r)) q)" for q
    using hdr_ok_cong[OF m(4)[rule_format, of q]] by auto
  show "slabs_ok {s} M i n (c\<lparr>slabs_partial := h'\<rparr>) st2 (s # xs) ys zs"
    unfolding slabs_ok_def eq using ok1 t r by (auto simp: slabs_ok_def)
  show "used st2 q j = used (st(s := r)) q j" for q j using slab_fields(5)[OF m(4)[rule_format, of q]] by simp
  show "\<And>p. p \<notin> set (s # xs) \<Longrightarrow> st2 p = st p" using m(3) by simp
  show "slab_page.more (st2 q) = slab_page.more ((st(s := r)) q)" for q
    using slab_fields(6)[OF m(4)[rule_format, of q]] by simp
qed

end
