(* ===== verification/Vma_Tree.thy ===== *)
theory Vma_Tree
  imports Asc_Prelude
begin

text \<open>
  The per-process region tree of \<^verbatim>\<open>kernel/src/mm/vma.c\<close>: an AVL tree ordered by start
  address whose nodes carry the largest end address of their subtree. This theory holds the
  static functions of that file that work on nodes, shows that insertion and deletion keep
  the tree ordered, balanced and its cached fields exact, and packages what the list
  operations need of the tree as the locale \<open>region_store\<close>, interpreted on it.
\<close>

unbundle bit_operations_syntax

section \<open>Data\<close>

record vma_data =
  v_start :: u64
  v_end :: u64
  v_prot :: u64
  v_flags :: u64
  v_offset :: u64
  v_fd :: int

text \<open>
  A node of \<^verbatim>\<open>struct vma\<close>: the region it describes, the cached \<open>max_end\<close> and
  \<open>height\<close>, and the two child pointers (\<open>NULLV\<close> is the null pointer).
\<close>

datatype vma =
    NULLV
  | Vma (vleft: vma) (vdat: vma_data) (vmax_end: u64) (vheight: int) (vright: vma)

abbreviation start_of :: "vma \<Rightarrow> u64" where
  "start_of n \<equiv> v_start (vdat n)"

section \<open>Tree maintenance\<close>

definition get_height :: "vma \<Rightarrow> int" where
  "get_height n = (case n of NULLV \<Rightarrow> 0 | Vma _ _ _ h _ \<Rightarrow> h)"

definition get_max_end :: "vma \<Rightarrow> u64" where
  "get_max_end n = (case n of NULLV \<Rightarrow> 0 | Vma _ _ m _ _ \<Rightarrow> m)"

fun update_node :: "vma \<Rightarrow> vma" where
  "update_node NULLV = NULLV"
| "update_node (Vma l d m h r) =
     (let h' = 1 + c_MAX (get_height l) (get_height r);
          m0 = v_end d;
          max_left = get_max_end l;
          max_right = get_max_end r;
          m1 = (if max_left > m0 then max_left else m0);
          m2 = (if max_right > m1 then max_right else m1)
      in Vma l d m2 h' r)"

text \<open>
  The rotations dereference a child that exists whenever they are called: the first
  equation is the C code, the others (where C would dereference a null pointer) leave the
  node alone and are shown unreachable from balanced trees by the invariant below.
\<close>

fun right_rotate :: "vma \<Rightarrow> vma" where
  "right_rotate (Vma (Vma xl xd xm xh T2) yd ym yh yr) =
     (let y = update_node (Vma T2 yd ym yh yr)
      in update_node (Vma xl xd xm xh y))"
| "right_rotate y = y"

fun left_rotate :: "vma \<Rightarrow> vma" where
  "left_rotate (Vma xl xd xm xh (Vma T2 yd ym yh yr)) =
     (let x = update_node (Vma xl xd xm xh T2)
      in update_node (Vma x yd ym yh yr))"
| "left_rotate x = x"

definition get_balance :: "vma \<Rightarrow> int" where
  "get_balance n =
     (case n of NULLV \<Rightarrow> 0 | Vma l _ _ _ r \<Rightarrow> get_height l - get_height r)"

fun set_left :: "vma \<Rightarrow> vma \<Rightarrow> vma" where
  "set_left (Vma l d m h r) l' = Vma l' d m h r"
| "set_left NULLV l' = NULLV"

fun set_right :: "vma \<Rightarrow> vma \<Rightarrow> vma" where
  "set_right (Vma l d m h r) r' = Vma l d m h r'"
| "set_right NULLV r' = NULLV"

text \<open>The four rotation cases after an insertion (\<^verbatim>\<open>insert_node\<close>, after the descent).\<close>

definition rebalance_insert :: "vma \<Rightarrow> vma \<Rightarrow> vma" where
  "rebalance_insert node new_node =
     (let balance = get_balance node in
      if balance > 1 \<and> start_of new_node < start_of (vleft node) then right_rotate node
      else if balance < -1 \<and> start_of new_node > start_of (vright node) then left_rotate node
      else if balance > 1 \<and> start_of new_node > start_of (vleft node) then
        right_rotate (set_left node (left_rotate (vleft node)))
      else if balance < -1 \<and> start_of new_node < start_of (vright node) then
        left_rotate (set_right node (right_rotate (vright node)))
      else node)"

fun insert_node :: "vma \<Rightarrow> vma \<Rightarrow> vma" where
  "insert_node NULLV new_node = new_node"
| "insert_node (Vma l d m h r) new_node =
     (if start_of new_node < v_start d then
        rebalance_insert (update_node (Vma (insert_node l new_node) d m h r)) new_node
      else if start_of new_node > v_start d then
        rebalance_insert (update_node (Vma l d m h (insert_node r new_node))) new_node
      else Vma l d m h r)"

fun min_value_node :: "vma \<Rightarrow> vma" where
  "min_value_node (Vma l d m h r) =
     (if l = NULLV then Vma l d m h r else min_value_node l)"
| "min_value_node NULLV = NULLV"

text \<open>The four rotation cases after a deletion (\<^verbatim>\<open>delete_node\<close>, last part).\<close>

definition rebalance_delete :: "vma \<Rightarrow> vma" where
  "rebalance_delete node =
     (let balance = get_balance node in
      if balance > 1 \<and> get_balance (vleft node) \<ge> 0 then right_rotate node
      else if balance > 1 \<and> get_balance (vleft node) < 0 then
        right_rotate (set_left node (left_rotate (vleft node)))
      else if balance < -1 \<and> get_balance (vright node) \<le> 0 then left_rotate node
      else if balance < -1 \<and> get_balance (vright node) > 0 then
        left_rotate (set_right node (right_rotate (vright node)))
      else node)"

definition finish_delete :: "vma \<Rightarrow> vma" where
  "finish_delete node =
     (if node = NULLV then NULLV else rebalance_delete (update_node node))"

text \<open>The result pairs the new subtree with the \<open>deleted\<close> out-parameter.\<close>

fun delete_node :: "vma \<Rightarrow> u64 \<Rightarrow> bool \<Rightarrow> vma \<times> bool" where
  "delete_node NULLV start deleted = (NULLV, deleted)"
| "delete_node (Vma l d m h r) start deleted =
     (if start < v_start d then
        (let (l', deleted') = delete_node l start deleted
         in (finish_delete (Vma l' d m h r), deleted'))
      else if start > v_start d then
        (let (r', deleted') = delete_node r start deleted
         in (finish_delete (Vma l d m h r'), deleted'))
      else if l = NULLV \<or> r = NULLV then
        (finish_delete (if l \<noteq> NULLV then l else r), True)
      else
        (let temp = vdat (min_value_node r);
             (r', deleted') = delete_node r (v_start temp) True
         in (finish_delete (Vma l temp m h r'), deleted')))"


section \<open>Queries\<close>

text \<open>A query returns the node found, here the region it describes; \<open>None\<close> is NULL.\<close>

fun vma_find_recursive :: "vma \<Rightarrow> u64 \<Rightarrow> vma_data option" where
  "vma_find_recursive NULLV addr = None"
| "vma_find_recursive (Vma l d m h r) addr =
     (if addr \<ge> v_start d \<and> addr < v_end d then Some d
      else
        (case (if l \<noteq> NULLV \<and> vmax_end l > addr then vma_find_recursive l addr else None) of
           Some res \<Rightarrow> Some res
         | None \<Rightarrow> vma_find_recursive r addr))"

fun vma_find_overlap_recursive :: "vma \<Rightarrow> u64 \<Rightarrow> u64 \<Rightarrow> vma_data option" where
  "vma_find_overlap_recursive NULLV start fin = None"
| "vma_find_overlap_recursive (Vma l d m h r) start fin =
     (if v_start d < fin \<and> v_end d > start then Some d
      else
        (case (if l \<noteq> NULLV \<and> vmax_end l > start
               then vma_find_overlap_recursive l start fin else None) of
           Some res \<Rightarrow> Some res
         | None \<Rightarrow> vma_find_overlap_recursive r start fin))"

definition MAP_GROWSDOWN :: u64 where
  "MAP_GROWSDOWN = 0x0100"

fun vma_find_growdown_recursive :: "vma \<Rightarrow> u64 \<Rightarrow> u64 \<Rightarrow> vma_data option" where
  "vma_find_growdown_recursive NULLV cr2 max_limit = None"
| "vma_find_growdown_recursive (Vma l d m h r) cr2 max_limit =
     (if v_flags d AND MAP_GROWSDOWN \<noteq> 0 \<and> cr2 < v_start d \<and> cr2 \<ge> v_end d - max_limit
      then Some d
      else
        (case vma_find_growdown_recursive l cr2 max_limit of
           Some res \<Rightarrow> Some res
         | None \<Rightarrow> vma_find_growdown_recursive r cr2 max_limit))"

fun inorder_gather :: "vma \<Rightarrow> vma_data list" where
  "inorder_gather NULLV = []"
| "inorder_gather (Vma l d m h r) = inorder_gather l @ d # inorder_gather r"

section \<open>Well-formed trees\<close>

text \<open>The regions a tree holds.\<close>

fun regions :: "vma \<Rightarrow> vma_data set" where
  "regions NULLV = {}"
| "regions (Vma l d m h r) = insert d (regions l \<union> regions r)"

fun bst :: "vma \<Rightarrow> bool" where
  "bst NULLV \<longleftrightarrow> True"
| "bst (Vma l d m h r) \<longleftrightarrow>
     bst l \<and> bst r \<and>
     (\<forall>x\<in>regions l. v_start x < v_start d) \<and> (\<forall>x\<in>regions r. v_start d < v_start x)"

text \<open>A node whose cached fields are those \<^const>\<open>update_node\<close> computes.\<close>

definition mk_node :: "vma \<Rightarrow> vma_data \<Rightarrow> vma \<Rightarrow> vma" where
  "mk_node l d r =
     Vma l d (max (v_end d) (max (get_max_end l) (get_max_end r)))
       (1 + max (get_height l) (get_height r)) r"

fun avl :: "vma \<Rightarrow> bool" where
  "avl NULLV \<longleftrightarrow> True"
| "avl (Vma l d m h r) \<longleftrightarrow>
     avl l \<and> avl r \<and>
     m = max (v_end d) (max (get_max_end l) (get_max_end r)) \<and>
     h = 1 + max (get_height l) (get_height r) \<and>
     \<bar>get_height l - get_height r\<bar> \<le> 1"

lemma avl_Vma_mk: "avl (Vma l d m h r) \<Longrightarrow> Vma l d m h r = mk_node l d r"
  by (simp add: mk_node_def)

lemma set_inorder_gather [simp]: "set (inorder_gather t) = regions t"
  by (induction t) auto

lemma update_node_mk [simp]: "update_node (Vma l d m h r) = mk_node l d r"
  by (auto simp: mk_node_def Let_def max_def)

declare update_node.simps(2) [simp del]

lemma get_simps [simp]:
  "get_height NULLV = 0" "get_max_end NULLV = 0" "get_balance NULLV = 0"
  "get_height (Vma l d m h r) = h" "get_max_end (Vma l d m h r) = m"
  "get_balance (Vma l d m h r) = get_height l - get_height r"
  by (simp_all add: get_height_def get_max_end_def get_balance_def)

lemma mk_node_simps [simp]:
  "regions (mk_node l d r) = insert d (regions l \<union> regions r)"
  "bst (mk_node l d r) \<longleftrightarrow> bst (Vma l d 0 0 r)"
  "get_height (mk_node l d r) = 1 + max (get_height l) (get_height r)"
  "get_balance (mk_node l d r) = get_height l - get_height r"
  "vleft (mk_node l d r) = l" "vright (mk_node l d r) = r" "vdat (mk_node l d r) = d"
  "mk_node l d r \<noteq> NULLV"
  "set_left (mk_node l d r) l' = Vma l' d (vmax_end (mk_node l d r)) (vheight (mk_node l d r)) r"
  "set_right (mk_node l d r) r' = Vma l d (vmax_end (mk_node l d r)) (vheight (mk_node l d r)) r'"
  "inorder_gather (mk_node l d r) = inorder_gather l @ d # inorder_gather r"
  by (auto simp: mk_node_def)

lemma avl_mk_node [simp]:
  "avl (mk_node l d r) \<longleftrightarrow> avl l \<and> avl r \<and> \<bar>get_height l - get_height r\<bar> \<le> 1"
  by (auto simp: mk_node_def)

lemma right_rotate_mk [simp]:
  "right_rotate (mk_node (Vma xl xd xm xh T2) d r) = mk_node xl xd (mk_node T2 d r)"
  by (simp add: mk_node_def[of "Vma xl xd xm xh T2"])

lemma left_rotate_mk [simp]:
  "left_rotate (mk_node l d (Vma T2 yd ym yh yr)) = mk_node (mk_node l d T2) yd yr"
  by (simp add: mk_node_def[of l d "Vma T2 yd ym yh yr"])

lemma height_nonneg: "avl t \<Longrightarrow> 0 \<le> get_height t"
  by (induction t) (auto simp: mk_node_def)

lemma height_pos: "avl t \<Longrightarrow> 0 < get_height t \<longleftrightarrow> t \<noteq> NULLV"
  by (cases t) (auto simp: mk_node_def dest!: height_nonneg)

lemma rotate_regions [simp]:
  "regions (right_rotate t) = regions t" "regions (left_rotate t) = regions t"
  by (induction t rule: right_rotate.induct; auto) (induction t rule: left_rotate.induct; auto)

lemma rotate_bst: "bst t \<Longrightarrow> bst (right_rotate t)" "bst t \<Longrightarrow> bst (left_rotate t)"
  by (induction t rule: right_rotate.induct; force) (induction t rule: left_rotate.induct; force)

lemma set_child_regions:
  "regions (set_left t l) = (if t = NULLV then {} else insert (vdat t) (regions l \<union> regions (vright t)))"
  "regions (set_right t r) = (if t = NULLV then {} else insert (vdat t) (regions (vleft t) \<union> regions r))"
  by (cases t; simp)+

lemma set_child_bst:
  "bst t \<Longrightarrow> bst l \<Longrightarrow> regions l = regions (vleft t) \<Longrightarrow> bst (set_left t l)"
  "bst t \<Longrightarrow> bst r \<Longrightarrow> regions r = regions (vright t) \<Longrightarrow> bst (set_right t r)"
  by (cases t; auto)+

lemma regions_unfold: "t \<noteq> NULLV \<Longrightarrow> regions t = insert (vdat t) (regions (vleft t) \<union> regions (vright t))"
  by (cases t) auto

lemma bst_children: "bst t \<Longrightarrow> t \<noteq> NULLV \<Longrightarrow> bst (vleft t) \<and> bst (vright t)"
  by (cases t) auto

lemma rebalance_insert_regions [simp]:
  "regions (rebalance_insert t x) = regions t"
  by (cases t) (auto simp: rebalance_insert_def Let_def)

lemma rebalance_delete_regions [simp]:
  "regions (rebalance_delete t) = regions t"
  by (cases t) (auto simp: rebalance_delete_def Let_def)

lemma rebalance_insert_bst: "bst t \<Longrightarrow> bst (rebalance_insert t x)"
  by (cases t) (auto simp: rebalance_insert_def Let_def intro!: rotate_bst)

lemma rebalance_delete_bst: "bst t \<Longrightarrow> bst (rebalance_delete t)"
  by (cases t) (auto simp: rebalance_delete_def Let_def intro!: rotate_bst)

lemma finish_delete_regions [simp]: "regions (finish_delete t) = regions t"
  by (cases t) (auto simp: finish_delete_def)

lemma finish_delete_bst: "bst t \<Longrightarrow> bst (finish_delete t)"
  by (cases t) (auto simp: finish_delete_def intro!: rebalance_delete_bst)


lemma insert_node_regions:
  "bst t \<Longrightarrow> \<forall>x\<in>regions t. v_start x \<noteq> v_start d \<Longrightarrow>
   regions (insert_node t (Vma NULLV d e h NULLV)) = insert d (regions t)"
  by (induction t) auto

lemma insert_node_bst:
  "bst t \<Longrightarrow> \<forall>x\<in>regions t. v_start x \<noteq> v_start d \<Longrightarrow>
   bst (insert_node t (Vma NULLV d e h NULLV))"
  by (induction t) (auto intro!: rebalance_insert_bst simp: insert_node_regions)

text \<open>
  Which subtree grew is what the key comparisons of \<^const>\<open>rebalance_insert\<close> detect: when
  an insertion makes a nonempty subtree taller, the taller side of its root is the side the
  new key lies on.
\<close>

definition grew_towards :: "vma \<Rightarrow> vma \<Rightarrow> bool" where
  "grew_towards x t \<longleftrightarrow>
     (start_of x < start_of t \<and> get_balance t = 1) \<or> (start_of x > start_of t \<and> get_balance t = -1)"


lemma avl_nodeE:
  assumes "avl t" and "t \<noteq> NULLV"
  obtains l d r where "t = mk_node l d r" "avl l" "avl r" "\<bar>get_height l - get_height r\<bar> \<le> 1"
  using assms that by (cases t) (auto simp: mk_node_def)

lemma mk_node_Vma: "\<exists>m h. mk_node l d r = Vma l d m h r"
  by (simp add: mk_node_def)

lemma right_rotate_mk_mk [simp]:
  "right_rotate (mk_node (mk_node a x b) d r) = mk_node a x (mk_node b d r)"
  using mk_node_Vma[of a x b] by auto

lemma left_rotate_mk_mk [simp]:
  "left_rotate (mk_node l d (mk_node a x b)) = mk_node (mk_node l d a) x b"
  using mk_node_Vma[of a x b] by auto

lemma right_rotate_Vma_mk [simp]:
  "right_rotate (Vma (mk_node a x b) d m h r) = mk_node a x (mk_node b d r)"
  using mk_node_Vma[of a x b] by auto

lemma left_rotate_Vma_mk [simp]:
  "left_rotate (Vma l d m h (mk_node a x b)) = mk_node (mk_node l d a) x b"
  using mk_node_Vma[of a x b] by auto

lemma regions_empty_iff: "regions t = {} \<longleftrightarrow> t = NULLV"
  by (cases t) auto

lemma rebalance_insert_not_null [simp]: "rebalance_insert (mk_node l d r) x \<noteq> NULLV"
  using rebalance_insert_regions[of "mk_node l d r" x] regions_empty_iff by fastforce

lemma rebalance_insert_balanced:
  "\<bar>get_height l - get_height r\<bar> \<le> 1 \<Longrightarrow> rebalance_insert (mk_node l d r) x = mk_node l d r"
  by (auto simp: rebalance_insert_def Let_def)

lemma rebalance_insert_left:
  assumes l: "avl l" "l \<noteq> NULLV" and r: "avl r"
    and h: "get_height l = get_height r + 2" and g: "grew_towards x l"
  shows "avl (rebalance_insert (mk_node l d r) x) \<and>
         get_height (rebalance_insert (mk_node l d r) x) = get_height l"
proof -
  from l obtain a e b where l': "l = mk_node a e b" "avl a" "avl b"
    by (rule avl_nodeE)
  show ?thesis
  proof (cases "start_of x < start_of l")
    case True
    with g l' have "get_height a = get_height b + 1" by (auto simp: grew_towards_def)
    with h l' have ha: "get_height a = get_height r + 1" "get_height b = get_height r" by simp_all
    have "rebalance_insert (mk_node l d r) x = mk_node a e (mk_node b d r)"
      using True h by (simp add: rebalance_insert_def l')
    then show ?thesis using ha l' r by simp
  next
    case False
    with g l' have st: "start_of x > start_of l" and bal: "get_height b = get_height a + 1"
      by (auto simp: grew_towards_def)
    with h l' have hb: "get_height b = get_height r + 1" "get_height a = get_height r" by simp_all
    with height_nonneg[OF r] l'(3) have "b \<noteq> NULLV" using height_pos[of b] by simp
    from l'(3) this obtain c f e' where b: "b = mk_node c f e'" "avl c" "avl e'"
      "\<bar>get_height c - get_height e'\<bar> \<le> 1"
      by (rule avl_nodeE)
    from b(1) hb(1) have hm: "max (get_height c) (get_height e') = get_height r" by simp
    then have dif: "get_height r - get_height c \<le> 1" "get_height r - get_height e' \<le> 1"
      using b(4) by (auto simp: max_def split: if_splits)
    have "rebalance_insert (mk_node l d r) x = mk_node (mk_node a e c) f (mk_node e' d r)"
      using st h False by (simp add: rebalance_insert_def l' b)
    then show ?thesis using hm dif b hb l'(1,2) r by simp
  qed
qed

lemma rebalance_insert_right:
  assumes l: "avl l" and r: "avl r" "r \<noteq> NULLV"
    and h: "get_height r = get_height l + 2" and g: "grew_towards x r"
  shows "avl (rebalance_insert (mk_node l d r) x) \<and>
         get_height (rebalance_insert (mk_node l d r) x) = get_height r"
proof -
  from r obtain a e b where r': "r = mk_node a e b" "avl a" "avl b"
    by (rule avl_nodeE)
  show ?thesis
  proof (cases "start_of x > start_of r")
    case True
    with g r' have "get_height b = get_height a + 1" by (auto simp: grew_towards_def)
    with h r' have ha: "get_height b = get_height l + 1" "get_height a = get_height l" by simp_all
    have "rebalance_insert (mk_node l d r) x = mk_node (mk_node l d a) e b"
      using True h by (simp add: rebalance_insert_def r')
    then show ?thesis using ha r' l by simp
  next
    case False
    with g r' have st: "start_of x < start_of r" and bal: "get_height a = get_height b + 1"
      by (auto simp: grew_towards_def)
    with h r' have hb: "get_height a = get_height l + 1" "get_height b = get_height l" by simp_all
    with height_nonneg[OF l] r'(2) have "a \<noteq> NULLV" using height_pos[of a] by simp
    from r'(2) this obtain c f e' where a: "a = mk_node c f e'" "avl c" "avl e'"
      "\<bar>get_height c - get_height e'\<bar> \<le> 1"
      by (rule avl_nodeE)
    from a(1) hb(1) have hm: "max (get_height c) (get_height e') = get_height l" by simp
    then have dif: "get_height l - get_height c \<le> 1" "get_height l - get_height e' \<le> 1"
      using a(4) by (auto simp: max_def split: if_splits)
    have "rebalance_insert (mk_node l d r) x = mk_node (mk_node l d c) f (mk_node e' e b)"
      using st h False by (simp add: rebalance_insert_def r' a)
    then show ?thesis using hm dif a hb r'(1,3) l by simp
  qed
qed

definition insert_result :: "vma \<Rightarrow> vma \<Rightarrow> vma \<Rightarrow> bool" where
  "insert_result x t t' \<longleftrightarrow> avl t' \<and> t' \<noteq> NULLV \<and>
    (get_height t' = get_height t \<or>
     get_height t' = get_height t + 1 \<and> (t = NULLV \<or> grew_towards x t'))"

lemma insert_result_left:
  assumes t: "avl (mk_node l d r)" and l': "insert_result x l l'" and x: "start_of x < v_start d"
  shows "insert_result x (mk_node l d r) (rebalance_insert (mk_node l' d r) x)"
proof (cases "get_height l' = get_height r + 2")
  case True
  from t have "0 \<le> get_height r" "avl r" by (auto dest: height_nonneg)
  with True t l' have g: "grew_towards x l'" "get_height l = get_height r + 1"
    by (auto simp: insert_result_def)
  with True l' \<open>avl r\<close> rebalance_insert_left[of l' r x d] show ?thesis
    by (simp add: insert_result_def)
next
  case False
  with t l' have b: "\<bar>get_height l' - get_height r\<bar> \<le> 1"
    by (auto simp: insert_result_def)
  from l' consider "get_height l' = get_height l" | "get_height l' = get_height l + 1"
    by (auto simp: insert_result_def)
  then show ?thesis
  proof cases
    case 1
    with t l' b show ?thesis by (simp add: insert_result_def rebalance_insert_balanced)
  next
    case 2
    show ?thesis
    proof (cases "get_height l = get_height r - 1")
      case True
      with t l' b 2 show ?thesis by (simp add: insert_result_def rebalance_insert_balanced)
    next
      case False
      with t b 2 have "get_height l = get_height r" by simp
      with t l' b 2 x show ?thesis
        by (simp add: insert_result_def rebalance_insert_balanced grew_towards_def)
    qed
  qed
qed

lemma insert_result_right:
  assumes t: "avl (mk_node l d r)" and r': "insert_result x r r'" and x: "start_of x > v_start d"
  shows "insert_result x (mk_node l d r) (rebalance_insert (mk_node l d r') x)"
proof (cases "get_height r' = get_height l + 2")
  case True
  from t have "0 \<le> get_height l" "avl l" by (auto dest: height_nonneg)
  with True t r' have g: "grew_towards x r'" "get_height r = get_height l + 1"
    by (auto simp: insert_result_def)
  with True r' \<open>avl l\<close> rebalance_insert_right[of l r' x d] show ?thesis
    by (simp add: insert_result_def)
next
  case False
  with t r' have b: "\<bar>get_height l - get_height r'\<bar> \<le> 1"
    by (auto simp: insert_result_def)
  from r' consider "get_height r' = get_height r" | "get_height r' = get_height r + 1"
    by (auto simp: insert_result_def)
  then show ?thesis
  proof cases
    case 1
    with t r' b show ?thesis by (simp add: insert_result_def rebalance_insert_balanced)
  next
    case 2
    show ?thesis
    proof (cases "get_height r = get_height l - 1")
      case True
      with t r' b 2 show ?thesis by (simp add: insert_result_def rebalance_insert_balanced)
    next
      case False
      with t b 2 have "get_height r = get_height l" by simp
      with t r' b 2 x show ?thesis
        by (simp add: insert_result_def rebalance_insert_balanced grew_towards_def)
    qed
  qed
qed

lemma insert_node_mk:
  "insert_node (mk_node l d r) x =
     (if start_of x < v_start d then rebalance_insert (mk_node (insert_node l x) d r) x
      else if start_of x > v_start d then rebalance_insert (mk_node l d (insert_node r x)) x
      else mk_node l d r)"
  by (simp add: mk_node_def[of l d r])

lemma insert_node_result:
  assumes "avl t" and "avl x" and "get_height x = 1"
  shows "insert_result x t (insert_node t x)"
  using assms
proof (induction t)
  case NULLV
  then show ?case by (auto simp: insert_result_def)
next
  case (Vma l d m h r)
  have IH: "insert_result x l (insert_node l x)" "insert_result x r (insert_node r x)"
    using Vma by (simp_all del: insert_node.simps)
  have t: "Vma l d m h r = mk_node l d r" and avl: "avl (mk_node l d r)"
    using Vma.prems(1) avl_Vma_mk by auto
  show ?case
    unfolding t insert_node_mk
    using insert_result_left[OF avl IH(1)] insert_result_right[OF avl IH(2)] avl
    by (simp add: insert_result_def[of x "mk_node l d r" "mk_node l d r"])
qed

lemma insert_node_avl:
  "avl t \<Longrightarrow> avl (insert_node t (Vma NULLV d (v_end d) 1 NULLV))"
  using insert_node_result[of t "Vma NULLV d (v_end d) 1 NULLV"]
  by (simp add: insert_result_def mk_node_def)


section \<open>Deletion\<close>

lemma rebalance_delete_balanced:
  "\<bar>get_height l - get_height r\<bar> \<le> 1 \<Longrightarrow> rebalance_delete (mk_node l d r) = mk_node l d r"
  by (auto simp: rebalance_delete_def Let_def)

lemma rebalance_delete_left:
  assumes l: "avl l" and r: "avl r" and h: "get_height l = get_height r + 2"
  shows "avl (rebalance_delete (mk_node l d r)) \<and>
         get_height (rebalance_delete (mk_node l d r)) \<in> {get_height l, get_height l + 1}"
proof -
  from h height_nonneg[OF r] l have "l \<noteq> NULLV" using height_pos[of l] by simp
  from l this obtain a e b where l': "l = mk_node a e b" "avl a" "avl b"
    "\<bar>get_height a - get_height b\<bar> \<le> 1"
    by (rule avl_nodeE)
  from h l' have hm: "max (get_height a) (get_height b) = get_height r + 1" by simp
  show ?thesis
  proof (cases "get_height a \<ge> get_height b")
    case True
    with hm l'(4) have ha: "get_height a = get_height r + 1"
      "get_height b = get_height r \<or> get_height b = get_height r + 1" by auto
    have "rebalance_delete (mk_node l d r) = mk_node a e (mk_node b d r)"
      using True h by (simp add: rebalance_delete_def l')
    then show ?thesis using ha l' r by auto
  next
    case False
    with hm l'(4) have hb: "get_height b = get_height r + 1" "get_height a = get_height r" by auto
    with height_nonneg[OF r] l'(3) have "b \<noteq> NULLV" using height_pos[of b] by simp
    from l'(3) this obtain c f e' where b: "b = mk_node c f e'" "avl c" "avl e'"
      "\<bar>get_height c - get_height e'\<bar> \<le> 1"
      by (rule avl_nodeE)
    from b(1) hb(1) have hm: "max (get_height c) (get_height e') = get_height r" by simp
    then have dif: "get_height r - get_height c \<le> 1" "get_height r - get_height e' \<le> 1"
      using b(4) by (auto simp: max_def split: if_splits)
    have "rebalance_delete (mk_node l d r) = mk_node (mk_node a e c) f (mk_node e' d r)"
      using h False by (simp add: rebalance_delete_def l' b)
    then show ?thesis using hm dif b hb l'(1,2) r by simp
  qed
qed

lemma rebalance_delete_right:
  assumes l: "avl l" and r: "avl r" and h: "get_height r = get_height l + 2"
  shows "avl (rebalance_delete (mk_node l d r)) \<and>
         get_height (rebalance_delete (mk_node l d r)) \<in> {get_height r, get_height r + 1}"
proof -
  from h height_nonneg[OF l] r have "r \<noteq> NULLV" using height_pos[of r] by simp
  from r this obtain a e b where r': "r = mk_node a e b" "avl a" "avl b"
    "\<bar>get_height a - get_height b\<bar> \<le> 1"
    by (rule avl_nodeE)
  from h r' have hm: "max (get_height a) (get_height b) = get_height l + 1" by simp
  show ?thesis
  proof (cases "get_height a \<le> get_height b")
    case True
    with hm r'(4) have ha: "get_height b = get_height l + 1"
      "get_height a = get_height l \<or> get_height a = get_height l + 1" by auto
    have "rebalance_delete (mk_node l d r) = mk_node (mk_node l d a) e b"
      using True h by (simp add: rebalance_delete_def r')
    then show ?thesis using ha r' l by auto
  next
    case False
    with hm r'(4) have hb: "get_height a = get_height l + 1" "get_height b = get_height l" by auto
    with height_nonneg[OF l] r'(2) have "a \<noteq> NULLV" using height_pos[of a] by simp
    from r'(2) this obtain c f e' where a: "a = mk_node c f e'" "avl c" "avl e'"
      "\<bar>get_height c - get_height e'\<bar> \<le> 1"
      by (rule avl_nodeE)
    from a(1) hb(1) have hm: "max (get_height c) (get_height e') = get_height l" by simp
    then have dif: "get_height l - get_height c \<le> 1" "get_height l - get_height e' \<le> 1"
      using a(4) by (auto simp: max_def split: if_splits)
    have "rebalance_delete (mk_node l d r) = mk_node (mk_node l d c) f (mk_node e' e b)"
      using h False by (simp add: rebalance_delete_def r' a)
    then show ?thesis using hm dif a hb r'(1,3) l by simp
  qed
qed

text \<open>A deletion leaves a balanced tree that is at most one level lower.\<close>

definition delete_result :: "vma \<Rightarrow> vma \<Rightarrow> bool" where
  "delete_result t t' \<longleftrightarrow> avl t' \<and> get_height t' \<in> {get_height t - 1, get_height t}"

lemma finish_delete_mk [simp]:
  "finish_delete (Vma l d m h r) = rebalance_delete (mk_node l d r)"
  by (simp add: finish_delete_def)

lemma rebalance_delete_mk_balanced_result:
  assumes "avl l'" "avl r'" "\<bar>get_height l' - get_height r'\<bar> \<le> 1"
    "1 + max (get_height l') (get_height r') \<in> {get_height t - 1, get_height t}"
  shows "delete_result t (rebalance_delete (mk_node l' d r'))"
  using assms by (simp add: rebalance_delete_balanced delete_result_def)

lemma delete_result_left:
  assumes t: "avl (mk_node l d r)" and l': "delete_result l l'"
  shows "delete_result (mk_node l d r) (rebalance_delete (mk_node l' e r))"
proof (cases "get_height r = get_height l' + 2")
  case True
  with t l' have "get_height l = get_height r - 1"
    by (auto simp: delete_result_def)
  with True t l' rebalance_delete_right[of l' r e] show ?thesis
    by (auto simp: delete_result_def)
next
  case False
  with t l' show ?thesis
    by (intro rebalance_delete_mk_balanced_result) (auto simp: delete_result_def)
qed

lemma delete_result_right:
  assumes t: "avl (mk_node l d r)" and r': "delete_result r r'"
  shows "delete_result (mk_node l d r) (rebalance_delete (mk_node l e r'))"
proof (cases "get_height l = get_height r' + 2")
  case True
  with t r' have "get_height r = get_height l - 1"
    by (auto simp: delete_result_def)
  with True t r' rebalance_delete_left[of l r' e] show ?thesis
    by (auto simp: delete_result_def)
next
  case False
  with t r' show ?thesis
    by (intro rebalance_delete_mk_balanced_result) (auto simp: delete_result_def)
qed

lemma update_node_mk_node [simp]: "update_node (mk_node l d r) = mk_node l d r"
  using mk_node_Vma[of l d r] by auto

lemma finish_delete_avl: "avl t \<Longrightarrow> finish_delete t = t"
  by (cases t) (simp_all add: rebalance_delete_balanced finish_delete_def, simp add: mk_node_def)


lemma min_value_node_in: "t \<noteq> NULLV \<Longrightarrow> vdat (min_value_node t) \<in> regions t"
  by (induction t) auto

lemma min_value_node_least:
  "bst t \<Longrightarrow> x \<in> regions t \<Longrightarrow> v_start (vdat (min_value_node t)) \<le> v_start x"
proof (induction t)
  case (Vma l d m h r)
  show ?case
  proof (cases "l = NULLV")
    case True
    with Vma.prems show ?thesis by (auto intro: less_imp_le)
  next
    case False
    then have "v_start (vdat (min_value_node l)) < v_start d"
      using Vma.prems(1) min_value_node_in[OF False] by auto
    with Vma False show ?thesis by (auto intro: less_imp_le less_le_trans less_trans)
  qed
qed simp

lemma bst_start_inj: "bst t \<Longrightarrow> x \<in> regions t \<Longrightarrow> y \<in> regions t \<Longrightarrow> v_start x = v_start y \<Longrightarrow> x = y"
proof (induction t)
  case (Vma l d m h r)
  have lr: "z \<in> regions l \<Longrightarrow> v_start z < v_start d" "z \<in> regions r \<Longrightarrow> v_start d < v_start z" for z
    using Vma.prems by auto
  from Vma.prems have "x = d \<or> x \<in> regions l \<or> x \<in> regions r" "y = d \<or> y \<in> regions l \<or> y \<in> regions r"
    by auto
  then show ?case using Vma.IH Vma.prems(1,4)
    by (elim disjE; force dest: lr)
qed simp

lemma delete_node_regions:
  "bst t \<Longrightarrow> regions (fst (delete_node t k b)) = {x \<in> regions t. v_start x \<noteq> k}"
proof (induction t arbitrary: k b)
  case (Vma l d m h r)
  have l: "x \<in> regions l \<Longrightarrow> v_start x < v_start d" and r: "x \<in> regions r \<Longrightarrow> v_start d < v_start x" for x
    using Vma.prems by auto
  consider "k < v_start d" | "k > v_start d" | "k = v_start d" "l = NULLV \<or> r = NULLV"
    | "k = v_start d" "l \<noteq> NULLV" "r \<noteq> NULLV" by fastforce
  then show ?case
  proof cases
    case 1
    with Vma.IH(1)[of k b] Vma.prems show ?thesis
      by (auto simp: split_beta dest: r)
  next
    case 2
    with Vma.IH(2)[of k b] Vma.prems show ?thesis
      by (auto simp: split_beta dest: l)
  next
    case 3
    then show ?thesis by (auto dest: l r)
  next
    case 4
    let ?m = "vdat (min_value_node r)"
    from 4 have m: "?m \<in> regions r" by (simp add: min_value_node_in)
    have "regions (fst (delete_node r (v_start ?m) True)) = {x \<in> regions r. v_start x \<noteq> v_start ?m}"
      using Vma by simp
    also have "\<dots> = regions r - {?m}"
    proof -
      have "v_start x = v_start ?m \<longleftrightarrow> x = ?m" if "x \<in> regions r" for x
        using bst_start_inj[of r x ?m] Vma.prems m that by auto
      then show ?thesis by auto
    qed
    finally have "regions (fst (delete_node (Vma l d m h r) k b)) = regions l \<union> regions r"
      using 4 m by (auto simp: split_beta Let_def)
    moreover have "{x \<in> regions (Vma l d m h r). v_start x \<noteq> k} = regions l \<union> regions r"
      using 4(1) by (auto dest: l r)
    ultimately show ?thesis by simp
  qed
qed simp

lemma delete_node_bst: "bst t \<Longrightarrow> bst (fst (delete_node t k b))"
proof (induction t arbitrary: k b)
  case (Vma l d m h r)
  have d: "bst l" "bst r" "\<forall>x\<in>regions l. v_start x < v_start d" "\<forall>x\<in>regions r. v_start d < v_start x"
    using Vma.prems by auto
  have IH: "bst (fst (delete_node l k b))" "bst (fst (delete_node r k b))" for k b
    using Vma.IH d by auto
  consider "k < v_start d" | "k > v_start d" | "k = v_start d" "l = NULLV \<or> r = NULLV"
    | "k = v_start d" "l \<noteq> NULLV" "r \<noteq> NULLV" by fastforce
  then show ?case
  proof cases
    case 4
    let ?m = "vdat (min_value_node r)"
    from 4 have m: "?m \<in> regions r" by (simp add: min_value_node_in)
    have "\<forall>x\<in>regions l. v_start x < v_start ?m" using d m by (auto intro: less_trans)
    moreover have "\<forall>x\<in>regions (fst (delete_node r (v_start ?m) True)). v_start ?m < v_start x"
      using min_value_node_least[OF d(2)] by (auto simp: delete_node_regions d(2) order_less_le)
    ultimately show ?thesis using 4 IH d
      by (simp add: split_beta Let_def rebalance_delete_bst)
  qed (use IH d in \<open>auto simp: split_beta delete_node_regions intro!: rebalance_delete_bst finish_delete_bst\<close>)
qed simp

lemma delete_node_mk:
  "fst (delete_node (mk_node l d r) k b) =
     (if k < v_start d then rebalance_delete (mk_node (fst (delete_node l k b)) d r)
      else if k > v_start d then rebalance_delete (mk_node l d (fst (delete_node r k b)))
      else if l = NULLV \<or> r = NULLV then finish_delete (if l \<noteq> NULLV then l else r)
      else rebalance_delete (mk_node l (vdat (min_value_node r))
             (fst (delete_node r (v_start (vdat (min_value_node r))) True))))"
  by (simp add: mk_node_def[of l d r] split_beta Let_def)

lemma delete_node_result: "avl t \<Longrightarrow> delete_result t (fst (delete_node t k b))"
proof (induction t arbitrary: k b)
  case (Vma l d m h r)
  have t: "Vma l d m h r = mk_node l d r" and avl: "avl (mk_node l d r)"
    using Vma.prems avl_Vma_mk by auto
  have IH: "delete_result l (fst (delete_node l k b))" "delete_result r (fst (delete_node r k b))" for k b
    using Vma by auto
  have ch: "delete_result (mk_node l d r) (finish_delete (if l \<noteq> NULLV then l else r))"
    if "l = NULLV \<or> r = NULLV"
    using avl that height_nonneg[of l] height_nonneg[of r]
    by (auto simp: delete_result_def finish_delete_avl)
  show ?case
    unfolding t delete_node_mk
    using delete_result_left[OF avl IH(1)] delete_result_right[OF avl IH(2)] ch by auto
qed (simp add: delete_result_def)

lemma delete_node_avl: "avl t \<Longrightarrow> avl (fst (delete_node t k b))"
  using delete_node_result[of t k b] by (simp add: delete_result_def)


section \<open>Region sets and the interface of the tree\<close>

definition covers :: "vma_data \<Rightarrow> u64 \<Rightarrow> bool" where
  "covers d a \<longleftrightarrow> v_start d \<le> a \<and> a < v_end d"

definition overlaps :: "vma_data \<Rightarrow> u64 \<Rightarrow> u64 \<Rightarrow> bool" where
  "overlaps d start fin \<longleftrightarrow> v_start d < fin \<and> v_end d > start"

definition apart :: "vma_data \<Rightarrow> vma_data \<Rightarrow> bool" where
  "apart x y \<longleftrightarrow> v_end x \<le> v_start y \<or> v_end y \<le> v_start x"

text \<open>Nonempty, pairwise disjoint regions.\<close>

definition disjoint_regions :: "vma_data set \<Rightarrow> bool" where
  "disjoint_regions R \<longleftrightarrow>
     (\<forall>x\<in>R. v_start x < v_end x) \<and> (\<forall>x\<in>R. \<forall>y\<in>R. x \<noteq> y \<longrightarrow> apart x y)"

lemma disjoint_regions_insert:
  "disjoint_regions R \<Longrightarrow> v_start d < v_end d \<Longrightarrow> \<forall>x\<in>R. apart x d \<Longrightarrow> disjoint_regions (insert d R)"
  by (auto simp: disjoint_regions_def apart_def)

lemma disjoint_regions_subset: "disjoint_regions R \<Longrightarrow> S \<subseteq> R \<Longrightarrow> disjoint_regions S"
  by (auto simp: disjoint_regions_def)

lemma disjoint_regions_unique:
  "disjoint_regions R \<Longrightarrow> x \<in> R \<Longrightarrow> y \<in> R \<Longrightarrow> covers x a \<Longrightarrow> covers y a \<Longrightarrow> x = y"
  unfolding disjoint_regions_def covers_def apart_def by (meson leD le_less_trans)

lemma apart_not_covers: "apart x y \<Longrightarrow> covers x a \<Longrightarrow> \<not> covers y a"
  by (auto simp: apart_def covers_def)

lemma not_overlaps_apart:
  "\<not> overlaps x (v_start d) (v_end d) \<longleftrightarrow> apart x d"
  by (auto simp: overlaps_def apart_def not_less)

text \<open>
  What the list operations rely on: a store of regions with insertion, deletion by start
  address, point lookup and overlap query, whose laws speak only of the set of regions held.
\<close>

locale region_store =
  fixes ins :: "'t \<Rightarrow> vma_data \<Rightarrow> 't"
    and del :: "'t \<Rightarrow> u64 \<Rightarrow> 't"
    and lookup :: "'t \<Rightarrow> u64 \<Rightarrow> vma_data option"
    and overlap :: "'t \<Rightarrow> u64 \<Rightarrow> u64 \<Rightarrow> vma_data option"
    and regs :: "'t \<Rightarrow> vma_data set"
    and inv :: "'t \<Rightarrow> bool"
  assumes inv_disjoint: "inv t \<Longrightarrow> disjoint_regions (regs t)"
    and regs_ins: "inv t \<Longrightarrow> v_start d < v_end d \<Longrightarrow> \<forall>x\<in>regs t. apart x d \<Longrightarrow>
                   regs (ins t d) = insert d (regs t)"
    and inv_ins: "inv t \<Longrightarrow> v_start d < v_end d \<Longrightarrow> \<forall>x\<in>regs t. apart x d \<Longrightarrow> inv (ins t d)"
    and regs_del: "inv t \<Longrightarrow> d \<in> regs t \<Longrightarrow> regs (del t (v_start d)) = regs t - {d}"
    and inv_del: "inv t \<Longrightarrow> inv (del t k)"
    and lookup_sound: "lookup t a = Some d \<Longrightarrow> d \<in> regs t \<and> covers d a"
    and lookup_complete: "inv t \<Longrightarrow> d \<in> regs t \<Longrightarrow> covers d a \<Longrightarrow> lookup t a \<noteq> None"
    and overlap_sound: "overlap t s f = Some d \<Longrightarrow> d \<in> regs t \<and> overlaps d s f"
    and overlap_complete: "inv t \<Longrightarrow> d \<in> regs t \<Longrightarrow> overlaps d s f \<Longrightarrow> overlap t s f \<noteq> None"
begin

lemma lookup_iff: "inv t \<Longrightarrow> lookup t a = Some d \<longleftrightarrow> d \<in> regs t \<and> covers d a"
  using lookup_sound lookup_complete disjoint_regions_unique[OF inv_disjoint]
  by (metis option.exhaust)

lemma lookup_None_iff: "inv t \<Longrightarrow> lookup t a = None \<longleftrightarrow> (\<forall>d\<in>regs t. \<not> covers d a)"
  using lookup_iff by (metis not_None_eq)

lemma overlap_None_iff: "inv t \<Longrightarrow> overlap t s f = None \<longleftrightarrow> (\<forall>d\<in>regs t. \<not> overlaps d s f)"
  using overlap_sound overlap_complete by (metis not_None_eq)

lemma overlap_None_apart:
  "inv t \<Longrightarrow> overlap t (v_start d) (v_end d) = None \<longleftrightarrow> (\<forall>x\<in>regs t. apart x d)"
  by (simp add: overlap_None_iff not_overlaps_apart)

lemma lookup_ins:
  assumes "inv t" "v_start d < v_end d" "\<forall>x\<in>regs t. apart x d"
  shows "lookup (ins t d) a = (if covers d a then Some d else lookup t a)"
proof -
  have i: "inv (ins t d)" and r: "regs (ins t d) = insert d (regs t)"
    using assms by (rule inv_ins, rule regs_ins)
  show ?thesis
  proof (cases "lookup t a")
    case None
    with assms(1) have "\<forall>x\<in>regs t. \<not> covers x a" by (simp add: lookup_None_iff)
    then show ?thesis using None lookup_iff[OF i, of a d] lookup_None_iff[OF i, of a] r by auto
  next
    case (Some x)
    with assms(1) have x: "x \<in> regs t" "covers x a" by (auto simp: lookup_iff)
    with assms(3) have "\<not> covers d a" by (auto dest: apart_not_covers)
    then show ?thesis using Some x r lookup_iff[OF i, of a x] by auto
  qed
qed

lemma lookup_del:
  assumes "inv t" "d \<in> regs t"
  shows "lookup (del t (v_start d)) a = (if covers d a then None else lookup t a)"
proof -
  have i: "inv (del t (v_start d))" and r: "regs (del t (v_start d)) = regs t - {d}"
    using assms by (auto intro: inv_del simp: regs_del)
  show ?thesis
  proof (cases "lookup t a")
    case None
    with assms(1) have "\<forall>x\<in>regs t. \<not> covers x a" by (simp add: lookup_None_iff)
    with None show ?thesis using lookup_None_iff[OF i, of a] r by simp
  next
    case (Some x)
    with assms(1) have x: "x \<in> regs t" "covers x a" by (auto simp: lookup_iff)
    show ?thesis
    proof (cases "covers d a")
      case True
      with x assms have "x = d" using disjoint_regions_unique[OF inv_disjoint] by blast
      then have "\<forall>y\<in>regs t - {d}. \<not> covers y a"
        using x disjoint_regions_unique[OF inv_disjoint[OF assms(1)] x(1)] by blast
      then show ?thesis using True lookup_None_iff[OF i, of a] r by simp
    next
      case False
      then show ?thesis using x Some r lookup_iff[OF i, of a x] by auto
    qed
  qed
qed

end

section \<open>The AVL tree provides the interface\<close>

definition tree_ins :: "vma \<Rightarrow> vma_data \<Rightarrow> vma" where
  "tree_ins t d = insert_node t (Vma NULLV d (v_end d) 1 NULLV)"

definition tree_del :: "vma \<Rightarrow> u64 \<Rightarrow> vma" where
  "tree_del t k = fst (delete_node t k False)"

definition tree_ok :: "vma \<Rightarrow> bool" where
  "tree_ok t \<longleftrightarrow> avl t \<and> bst t \<and> disjoint_regions (regions t)"

lemma get_max_end_mk [simp]:
  "get_max_end (mk_node l d r) = max (v_end d) (max (get_max_end l) (get_max_end r))"
  by (simp add: mk_node_def)

lemma avl_max_end: "avl t \<Longrightarrow> x \<in> regions t \<Longrightarrow> v_end x \<le> get_max_end t"
proof (induction t)
  case (Vma l d m h r)
  then show ?case by (auto simp: le_max_iff_disj)
qed simp

lemma get_max_end_sel: "t \<noteq> NULLV \<Longrightarrow> vmax_end t = get_max_end t"
  by (cases t) auto

lemma avl_goes_left:
  assumes "avl l" "d \<in> regions l" "a < v_end d"
  shows "l \<noteq> NULLV \<and> a < vmax_end l"
proof -
  from assms(2) have "l \<noteq> NULLV" by auto
  moreover have "a < get_max_end l" using assms avl_max_end[of l d] by (rule_tac less_le_trans) auto
  ultimately show ?thesis by (simp add: get_max_end_sel)
qed

lemma find_sound: "vma_find_recursive t a = Some d \<Longrightarrow> d \<in> regions t \<and> covers d a"
  by (induction t) (auto simp: covers_def split: if_splits option.splits)

lemma find_overlap_sound:
  "vma_find_overlap_recursive t s f = Some d \<Longrightarrow> d \<in> regions t \<and> overlaps d s f"
  by (induction t) (auto simp: overlaps_def split: if_splits option.splits)

lemma find_complete:
  "avl t \<Longrightarrow> d \<in> regions t \<Longrightarrow> covers d a \<Longrightarrow> vma_find_recursive t a \<noteq> None"
proof (induction t)
  case (Vma l e m h r)
  have "l \<noteq> NULLV \<and> a < vmax_end l" if "d \<in> regions l"
    using that Vma.prems by (intro avl_goes_left[of l d]) (auto simp: covers_def)
  with Vma show ?case
    by (auto simp: covers_def split: option.splits)
qed simp

lemma find_overlap_complete:
  "avl t \<Longrightarrow> d \<in> regions t \<Longrightarrow> overlaps d s f \<Longrightarrow> vma_find_overlap_recursive t s f \<noteq> None"
proof (induction t)
  case (Vma l e m h r)
  have "l \<noteq> NULLV \<and> s < vmax_end l" if "d \<in> regions l"
    using that Vma.prems by (intro avl_goes_left[of l d]) (auto simp: overlaps_def)
  with Vma show ?case
    by (auto simp: overlaps_def split: option.splits)
qed simp

lemma apart_start_neq:
  "v_start d < v_end d \<Longrightarrow> v_start x < v_end x \<Longrightarrow> apart x d \<Longrightarrow> v_start x \<noteq> v_start d"
  by (auto simp: apart_def)

interpretation rt: region_store tree_ins tree_del vma_find_recursive vma_find_overlap_recursive
  regions tree_ok
proof unfold_locales
  fix t d
  assume t: "tree_ok t" and d: "v_start d < v_end d" "\<forall>x\<in>regions t. apart x d"
  then have neq: "\<forall>x\<in>regions t. v_start x \<noteq> v_start d"
    by (auto simp: tree_ok_def disjoint_regions_def dest: apart_start_neq)
  with t show r: "regions (tree_ins t d) = insert d (regions t)"
    by (simp add: tree_ins_def tree_ok_def insert_node_regions)
  with t d neq show "tree_ok (tree_ins t d)"
    by (simp add: tree_ok_def tree_ins_def insert_node_avl insert_node_bst disjoint_regions_insert)
next
  fix t d
  assume t: "tree_ok t" and d: "d \<in> regions t"
  then have "v_start x = v_start d \<longleftrightarrow> x = d" if "x \<in> regions t" for x
    using that bst_start_inj[of t x d] by (auto simp: tree_ok_def)
  with t show "regions (tree_del t (v_start d)) = regions t - {d}"
    by (auto simp: tree_del_def tree_ok_def delete_node_regions)
next
  fix t k
  assume "tree_ok t"
  then show "tree_ok (tree_del t k)"
    by (auto simp: tree_ok_def tree_del_def delete_node_avl delete_node_bst delete_node_regions
        intro: disjoint_regions_subset)
qed (auto simp: tree_ok_def find_sound find_overlap_sound
    dest: find_complete find_overlap_complete)

end
