(* ===== verification/Vma.thy ===== *)
theory Vma
  imports Vma_Tree
begin

text \<open>
  The public operations of \<^verbatim>\<open>kernel/src/mm/vma.c\<close> on \<^verbatim>\<open>struct vma_list\<close>, on top
  of the region tree of \<^verbatim>\<open>Vma_Tree\<close>, and what they do to the address space a process
  sees.
\<close>

section \<open>The list and its queries\<close>

text \<open>
  \<^verbatim>\<open>struct vma_list\<close>. The field \<open>vl_allocs\<close> counts the calls of the node and array
  allocators made so far; the outcome of the n-th call is \<open>mem n\<close> for the oracle
  \<open>mem\<close> that the operations take.
\<close>

record vma_list =
  vl_root :: vma
  vl_count :: int
  vl_allocs :: nat

definition vma_find :: "vma_list \<Rightarrow> u64 \<Rightarrow> vma_data option" where
  "vma_find list addr = vma_find_recursive (vl_root list) addr"

definition vma_find_overlap :: "vma_list \<Rightarrow> u64 \<Rightarrow> u64 \<Rightarrow> vma_data option" where
  "vma_find_overlap list start fin = vma_find_overlap_recursive (vl_root list) start fin"

definition vma_find_growdown :: "vma_list \<Rightarrow> u64 \<Rightarrow> u64 \<Rightarrow> vma_data option" where
  "vma_find_growdown list cr2 max_limit =
     vma_find_growdown_recursive (vl_root list) cr2 max_limit"

section \<open>List operations\<close>

definition vma_list_init :: "vma_list \<Rightarrow> vma_list" where
  "vma_list_init list = list\<lparr>vl_root := NULLV, vl_count := 0\<rparr>"

text \<open>The nodes released by \<^verbatim>\<open>vma_destroy_recursive\<close>, in the order of the calls.\<close>

fun vma_destroy_recursive :: "vma \<Rightarrow> vma_data list" where
  "vma_destroy_recursive NULLV = []"
| "vma_destroy_recursive (Vma l d m h r) =
     vma_destroy_recursive l @ vma_destroy_recursive r @ [d]"

definition vma_list_destroy :: "vma_list \<Rightarrow> vma_list \<times> vma_data list" where
  "vma_list_destroy list =
     (let freed = vma_destroy_recursive (vl_root list)
      in (list\<lparr>vl_root := NULLV, vl_count := 0\<rparr>, freed))"

text \<open>One call of an allocator: its outcome and the list with the call counted.\<close>

definition vl_alloc :: "(nat \<Rightarrow> bool) \<Rightarrow> vma_list \<Rightarrow> bool \<times> vma_list" where
  "vl_alloc mem list = (mem (vl_allocs list), list\<lparr>vl_allocs := Suc (vl_allocs list)\<rparr>)"

definition vma_add ::
  "(nat \<Rightarrow> bool) \<Rightarrow> vma_list \<Rightarrow> u64 \<Rightarrow> u64 \<Rightarrow> u64 \<Rightarrow> u64 \<Rightarrow> int \<Rightarrow> u64 \<Rightarrow> int \<times> vma_list" where
  "vma_add mem list start fin prot flags fd offset =
     (if vma_find_overlap list start fin \<noteq> None then (-1, list)
      else
        (let (ok, list1) = vl_alloc mem list in
         if \<not> ok then (-1, list1)
         else
           (let d = \<lparr>v_start = start, v_end = fin, v_prot = prot, v_flags = flags,
                     v_offset = offset, v_fd = fd\<rparr>;
                new_node = Vma NULLV d fin 1 NULLV
            in (0, list1\<lparr>vl_root := insert_node (vl_root list1) new_node,
                         vl_count := vl_count list1 + 1\<rparr>))))"

text \<open>One iteration of the loop of \<^verbatim>\<open>vma_remove\<close>, on the overlapping region found.\<close>

definition vma_remove_step ::
  "(nat \<Rightarrow> bool) \<Rightarrow> vma_list \<Rightarrow> u64 \<Rightarrow> u64 \<Rightarrow> vma_data \<Rightarrow> vma_list" where
  "vma_remove_step mem list start fin v =
     (let list1 = list\<lparr>vl_root := fst (delete_node (vl_root list) (v_start v) False),
                       vl_count := vl_count list - 1\<rparr>;
          tail_offset = v_offset v + (fin - v_start v)
      in if start > v_start v \<and> fin < v_end v then
           (let list2 = snd (vma_add mem list1 (v_start v) start (v_prot v) (v_flags v)
                               (v_fd v) (v_offset v))
            in snd (vma_add mem list2 fin (v_end v) (v_prot v) (v_flags v) (v_fd v)
                      tail_offset))
         else if start \<le> v_start v \<and> fin > v_start v \<and> fin < v_end v then
           snd (vma_add mem list1 fin (v_end v) (v_prot v) (v_flags v) (v_fd v) tail_offset)
         else if fin \<ge> v_end v \<and> start > v_start v \<and> start < v_end v then
           snd (vma_add mem list1 (v_start v) start (v_prot v) (v_flags v) (v_fd v)
                  (v_offset v))
         else list1)"

text \<open>
  The loop of \<^verbatim>\<open>vma_remove\<close>; \<open>None\<close> stands for a loop that never ends, which
  the termination theorem below excludes on well-formed lists.
\<close>

partial_function (option) vma_remove_loop ::
  "(nat \<Rightarrow> bool) \<Rightarrow> vma_list \<Rightarrow> u64 \<Rightarrow> u64 \<Rightarrow> bool \<Rightarrow> (bool \<times> vma_list) option" where
  "vma_remove_loop mem list start fin overall_removed =
     (case vma_find_overlap list start fin of
        None \<Rightarrow> Some (overall_removed, list)
      | Some v \<Rightarrow> vma_remove_loop mem (vma_remove_step mem list start fin v) start fin True)"

definition vma_remove ::
  "(nat \<Rightarrow> bool) \<Rightarrow> vma_list \<Rightarrow> u64 \<Rightarrow> u64 \<Rightarrow> (bool \<times> vma_list) option" where
  "vma_remove mem list start fin = vma_remove_loop mem list start fin False"

partial_function (option) vma_mprotect_loop ::
  "(nat \<Rightarrow> bool) \<Rightarrow> vma_list \<Rightarrow> u64 \<Rightarrow> u64 \<Rightarrow> u64 \<Rightarrow> u64 \<Rightarrow> vma_list option" where
  "vma_mprotect_loop mem list start fin new_prot cur =
     (if \<not> cur < fin then Some list
      else
        (case vma_find list cur of
           None \<Rightarrow>
             (case vma_find_overlap list cur fin of
                None \<Rightarrow> Some list
              | Some v \<Rightarrow> vma_mprotect_loop mem list start fin new_prot (v_start v))
         | Some v \<Rightarrow>
             (let m_start = c_MAX (v_start v) start;
                  m_end = c_MIN (v_end v) fin
              in Option.bind (vma_remove mem list m_start m_end)
                   (\<lambda>(_, list1).
                      let list2 = snd (vma_add mem list1 m_start m_end new_prot (v_flags v)
                                         (v_fd v) (v_offset v + (m_start - v_start v)))
                      in vma_mprotect_loop mem list2 start fin new_prot m_end))))"

definition vma_mprotect ::
  "(nat \<Rightarrow> bool) \<Rightarrow> vma_list \<Rightarrow> u64 \<Rightarrow> u64 \<Rightarrow> u64 \<Rightarrow> (int \<times> vma_list) option" where
  "vma_mprotect mem list start fin new_prot =
     map_option (\<lambda>l. (0, l)) (vma_mprotect_loop mem list start fin new_prot start)"

fun clone_recursive :: "(nat \<Rightarrow> bool) \<Rightarrow> vma_list \<Rightarrow> vma \<Rightarrow> vma_list" where
  "clone_recursive mem dst NULLV = dst"
| "clone_recursive mem dst (Vma l d m h r) =
     (let dst1 = snd (vma_add mem dst (v_start d) (v_end d) (v_prot d) (v_flags d) (v_fd d)
                        (v_offset d));
          dst2 = clone_recursive mem dst1 l
      in clone_recursive mem dst2 r)"

definition vma_list_clone :: "(nat \<Rightarrow> bool) \<Rightarrow> vma_list \<Rightarrow> vma_list \<Rightarrow> vma_list" where
  "vma_list_clone mem dst src = clone_recursive mem (vma_list_init dst) (vl_root src)"

text \<open>
  The scan of \<^verbatim>\<open>vma_find_gap\<close>: the final values of \<open>current\<close> and \<open>gap_start\<close>
  (initially 0; a gap stops the loop).
\<close>

fun find_gap_scan :: "vma_data list \<Rightarrow> u64 \<Rightarrow> u64 \<Rightarrow> u64 \<times> u64" where
  "find_gap_scan [] len current = (current, 0)"
| "find_gap_scan (a # arr) len current =
     (if v_end a \<le> current then find_gap_scan arr len current
      else if v_start a > current \<and> v_start a - current \<ge> len then (current, current)
      else find_gap_scan arr len (c_MAX current (v_end a)))"

definition vma_find_gap ::
  "(nat \<Rightarrow> bool) \<Rightarrow> vma_list \<Rightarrow> u64 \<Rightarrow> u64 \<Rightarrow> u64 \<Rightarrow> u64 \<times> vma_list" where
  "vma_find_gap mem list len base_addr limit_addr =
     (if vl_count list = 0 then
        (if base_addr + len \<le> limit_addr then (base_addr, list) else (0, list))
      else
        (let (ok, list1) = vl_alloc mem list in
         if \<not> ok then (0, list1)
         else
           (let arr = inorder_gather (vl_root list1);
                (current, gap_start) = find_gap_scan arr len base_addr
            in if gap_start \<noteq> 0 then (gap_start, list1)
               else if current + len \<le> limit_addr then (current, list1)
               else (0, list1))))"

definition mergeable :: "vma_data \<Rightarrow> vma_data \<Rightarrow> bool" where
  "mergeable cur nxt \<longleftrightarrow>
     v_end cur = v_start nxt \<and> v_prot cur = v_prot nxt \<and> v_flags cur = v_flags nxt \<and>
     (v_fd cur = -1 \<and> v_fd nxt = -1)"

text \<open>The first pair of neighbours of the gathered array that can be merged.\<close>

fun find_mergeable :: "vma_data list \<Rightarrow> (vma_data \<times> vma_data) option" where
  "find_mergeable (cur # nxt # arr) =
     (if mergeable cur nxt then Some (cur, nxt) else find_mergeable (nxt # arr))"
| "find_mergeable arr = None"

partial_function (option) vma_merge_loop ::
  "(nat \<Rightarrow> bool) \<Rightarrow> vma_list \<Rightarrow> vma_list option" where
  "vma_merge_loop mem list =
     (let (ok, list1) = vl_alloc mem list in
      if \<not> ok then Some list1
      else
        (case find_mergeable (inorder_gather (vl_root list1)) of
           None \<Rightarrow> Some list1
         | Some (cur, nxt) \<Rightarrow>
             Option.bind (vma_remove mem list1 (v_start cur) (v_end cur))
               (\<lambda>(_, list2).
                  Option.bind (vma_remove mem list2 (v_start nxt) (v_end nxt))
                    (\<lambda>(_, list3).
                       vma_merge_loop mem
                         (snd (vma_add mem list3 (v_start cur) (v_end nxt) (v_prot cur)
                                 (v_flags cur) (-1) 0))))))"

definition vma_merge_adjacent :: "(nat \<Rightarrow> bool) \<Rightarrow> vma_list \<Rightarrow> vma_list option" where
  "vma_merge_adjacent mem list =
     (if vl_count list < 2 then Some list else vma_merge_loop mem list)"

declare vma_remove_loop.simps [code] vma_mprotect_loop.simps [code] vma_merge_loop.simps [code]

section \<open>Well-formed lists and the address space they describe\<close>

definition vl_regions :: "vma_list \<Rightarrow> vma_data set" where
  "vl_regions list = regions (vl_root list)"

definition vma_ok :: "vma_list \<Rightarrow> bool" where
  "vma_ok list \<longleftrightarrow> tree_ok (vl_root list) \<and> vl_count list = int (card (vl_regions list))"

text \<open>
  What a mapped address carries: protection, flags, file descriptor and the file offset of
  the address itself.
\<close>

type_synonym page_attr = "u64 \<times> u64 \<times> int \<times> u64"

definition attr_at :: "vma_data \<Rightarrow> u64 \<Rightarrow> page_attr" where
  "attr_at d a = (v_prot d, v_flags d, v_fd d, v_offset d + (a - v_start d))"

definition vma_view :: "vma_list \<Rightarrow> u64 \<Rightarrow> page_attr option" where
  "vma_view list a = map_option (\<lambda>d. attr_at d a) (vma_find list a)"

definition in_range :: "u64 \<Rightarrow> u64 \<Rightarrow> u64 \<Rightarrow> bool" where
  "in_range start fin a \<longleftrightarrow> start \<le> a \<and> a < fin"

lemma finite_regions [simp]: "finite (regions t)"
  by (induction t) auto

lemma finite_vl_regions [simp]: "finite (vl_regions list)"
  by (simp add: vl_regions_def)

lemma vma_okD: "vma_ok list \<Longrightarrow> tree_ok (vl_root list)"
  by (simp add: vma_ok_def)

lemma vma_find_lookup: "vma_find list a = vma_find_recursive (vl_root list) a"
  by (simp add: vma_find_def)

lemma vma_find_iff: "vma_ok list \<Longrightarrow> vma_find list a = Some d \<longleftrightarrow> d \<in> vl_regions list \<and> covers d a"
  by (simp add: vma_find_def vl_regions_def rt.lookup_iff vma_okD)

lemma vma_find_None: "vma_ok list \<Longrightarrow> vma_find list a = None \<longleftrightarrow> (\<forall>d\<in>vl_regions list. \<not> covers d a)"
  by (simp add: vma_find_def vl_regions_def rt.lookup_None_iff vma_okD)

lemma vma_find_overlap_None:
  "vma_ok list \<Longrightarrow> vma_find_overlap list s f = None \<longleftrightarrow> (\<forall>d\<in>vl_regions list. \<not> overlaps d s f)"
  by (simp add: vma_find_overlap_def vl_regions_def rt.overlap_None_iff vma_okD)

lemma vma_find_overlap_Some:
  "vma_find_overlap list s f = Some d \<Longrightarrow> d \<in> vl_regions list \<and> overlaps d s f"
  by (simp add: vma_find_overlap_def vl_regions_def rt.overlap_sound)

lemma vl_regions_disjoint: "vma_ok list \<Longrightarrow> disjoint_regions (vl_regions list)"
  by (simp add: vl_regions_def vma_okD rt.inv_disjoint)

section \<open>Adding a region\<close>

abbreviation mk_region :: "u64 \<Rightarrow> u64 \<Rightarrow> u64 \<Rightarrow> u64 \<Rightarrow> int \<Rightarrow> u64 \<Rightarrow> vma_data" where
  "mk_region s f prot flags fd off \<equiv>
     \<lparr>v_start = s, v_end = f, v_prot = prot, v_flags = flags, v_offset = off, v_fd = fd\<rparr>"

lemma vma_add_tree:
  "vma_add mem list s f prot flags fd off =
     (if vma_find_overlap list s f \<noteq> None then (-1, list)
      else if \<not> mem (vl_allocs list) then (-1, list\<lparr>vl_allocs := Suc (vl_allocs list)\<rparr>)
      else (0, list\<lparr>vl_allocs := Suc (vl_allocs list),
                    vl_root := tree_ins (vl_root list) (mk_region s f prot flags fd off),
                    vl_count := vl_count list + 1\<rparr>))"
  by (simp add: vma_add_def vl_alloc_def tree_ins_def Let_def)

lemma vma_ok_allocs [simp]: "vma_ok (list\<lparr>vl_allocs := n\<rparr>) = vma_ok list"
  by (simp add: vma_ok_def vl_regions_def)

lemma vl_regions_allocs [simp]: "vl_regions (list\<lparr>vl_allocs := n\<rparr>) = vl_regions list"
  by (simp add: vl_regions_def)

lemma vma_find_allocs [simp]: "vma_find (list\<lparr>vl_allocs := n\<rparr>) a = vma_find list a"
  by (simp add: vma_find_def)

lemma vma_view_allocs [simp]: "vma_view (list\<lparr>vl_allocs := n\<rparr>) = vma_view list"
  by (auto simp: vma_view_def)

lemma vma_add_fail:
  "fst (vma_add mem list s f prot flags fd off) \<noteq> 0 \<Longrightarrow>
   fst (vma_add mem list s f prot flags fd off) = -1 \<and>
   (\<exists>n. snd (vma_add mem list s f prot flags fd off) = list\<lparr>vl_allocs := n\<rparr>)"
  by (auto simp: vma_add_tree split: if_splits intro: exI[of _ "vl_allocs list"])

lemma vma_add_success:
  fixes prot flags off :: u64 and fd :: int
  assumes ok: "vma_ok list" and sf: "s < f" and free: "\<forall>x\<in>vl_regions list. \<not> overlaps x s f"
    and mem: "mem (vl_allocs list)"
  defines "d \<equiv> mk_region s f prot flags fd off"
  defines "r \<equiv> vma_add mem list s f prot flags fd off"
  shows "fst r = 0" "vma_ok (snd r)" "vl_regions (snd r) = insert d (vl_regions list)"
    "vma_find (snd r) a = (if covers d a then Some d else vma_find list a)"
proof -
  have ov: "vma_find_overlap list s f = None"
    using ok free by (simp add: vma_find_overlap_None)
  have ap: "\<forall>x\<in>regions (vl_root list). apart x d"
    using free by (auto simp: d_def vl_regions_def not_overlaps_apart[symmetric])
  have lt: "v_start d < v_end d" using sf by (simp add: d_def)
  have r: "r = (0, list\<lparr>vl_allocs := Suc (vl_allocs list), vl_root := tree_ins (vl_root list) d,
                        vl_count := vl_count list + 1\<rparr>)"
    using ov mem by (simp add: r_def vma_add_tree d_def)
  show "fst r = 0" by (simp add: r)
  show rg: "vl_regions (snd r) = insert d (vl_regions list)"
    using rt.regs_ins[OF vma_okD[OF ok] lt ap] by (simp add: r vl_regions_def)
  have "d \<notin> vl_regions list"
    using ap lt by (auto simp: vl_regions_def apart_def)
  then show "vma_ok (snd r)"
    using rt.inv_ins[OF vma_okD[OF ok] lt ap] ok rg by (simp add: vma_ok_def r)
  show "vma_find (snd r) a = (if covers d a then Some d else vma_find list a)"
    using rt.lookup_ins[OF vma_okD[OF ok] lt ap, of a] by (simp add: r vma_find_def)
qed

section \<open>Removing a range\<close>

text \<open>The parts of a region that lie outside the removed range.\<close>

definition left_piece :: "vma_data \<Rightarrow> u64 \<Rightarrow> vma_data" where
  "left_piece v start = v\<lparr>v_end := start\<rparr>"

definition right_piece :: "vma_data \<Rightarrow> u64 \<Rightarrow> vma_data" where
  "right_piece v fin = v\<lparr>v_start := fin, v_offset := v_offset v + (fin - v_start v)\<rparr>"

lemma left_piece_eq:
  "left_piece v s = mk_region (v_start v) s (v_prot v) (v_flags v) (v_fd v) (v_offset v)"
  by (simp add: left_piece_def)

lemma right_piece_eq:
  "right_piece v f = mk_region f (v_end v) (v_prot v) (v_flags v) (v_fd v) (v_offset v + (f - v_start v))"
  by (simp add: right_piece_def)

lemma attr_at_left [simp]: "attr_at (left_piece v s) a = attr_at v a"
  by (simp add: attr_at_def left_piece_def)

lemma attr_at_right [simp]: "attr_at (right_piece v f) a = attr_at v a"
  by (simp add: attr_at_def right_piece_def algebra_simps)

text \<open>The list after the overlapping region has been unlinked.\<close>

definition unlink :: "vma_list \<Rightarrow> vma_data \<Rightarrow> vma_list" where
  "unlink list v = list\<lparr>vl_root := tree_del (vl_root list) (v_start v), vl_count := vl_count list - 1\<rparr>"

lemma unlink_facts:
  assumes "vma_ok list" "v \<in> vl_regions list"
  shows "vma_ok (unlink list v)" "vl_regions (unlink list v) = vl_regions list - {v}"
    "vma_find (unlink list v) a = (if covers v a then None else vma_find list a)"
    "vl_allocs (unlink list v) = vl_allocs list"
proof -
  have t: "tree_ok (vl_root list)" and v: "v \<in> regions (vl_root list)"
    using assms by (simp_all add: vma_ok_def vl_regions_def)
  show r: "vl_regions (unlink list v) = vl_regions list - {v}"
    using rt.regs_del[OF t v] by (simp add: unlink_def vl_regions_def)
  have "card (vl_regions list) > 0" using assms(2) by (auto simp: card_gt_0_iff)
  then show "vma_ok (unlink list v)"
    using rt.inv_del[OF t] assms r by (simp add: vma_ok_def unlink_def of_nat_diff)
  show "vma_find (unlink list v) a = (if covers v a then None else vma_find list a)"
    using rt.lookup_del[OF t v] by (simp add: unlink_def vma_find_def)
  show "vl_allocs (unlink list v) = vl_allocs list" by (simp add: unlink_def)
qed

lemma vma_remove_step_unlink:
  "vma_remove_step mem list start fin v =
     (let l1 = unlink list v;
          addl = (\<lambda>l. snd (vma_add mem l (v_start v) start (v_prot v) (v_flags v) (v_fd v) (v_offset v)));
          addr = (\<lambda>l. snd (vma_add mem l fin (v_end v) (v_prot v) (v_flags v) (v_fd v)
                            (v_offset v + (fin - v_start v))))
      in if start > v_start v \<and> fin < v_end v then addr (addl l1)
         else if start \<le> v_start v \<and> fin > v_start v \<and> fin < v_end v then addr l1
         else if fin \<ge> v_end v \<and> start > v_start v \<and> start < v_end v then addl l1
         else l1)"
  by (simp add: vma_remove_step_def unlink_def tree_del_def Let_def)

text \<open>
  Adding back a piece of an unlinked region, where the allocation may fail: the list stays
  well formed, the view only gains the piece, and gains all of it when memory is available.
\<close>

definition adds_back :: "(nat \<Rightarrow> bool) \<Rightarrow> vma_list \<Rightarrow> vma_list \<Rightarrow> vma_data set \<Rightarrow> bool" where
  "adds_back mem l l' P \<longleftrightarrow> vma_ok l' \<and>
     (\<exists>Q\<subseteq>P. vl_regions l' = vl_regions l \<union> Q \<and> ((\<forall>n. mem n) \<longrightarrow> Q = P))"

lemma adds_back_refl: "vma_ok l \<Longrightarrow> adds_back mem l l {}"
  by (auto simp: adds_back_def)

lemma adds_back_add:
  assumes ok: "vma_ok l" and sf: "s < f" and free: "\<forall>x\<in>vl_regions l. \<not> overlaps x s f"
  shows "adds_back mem l (snd (vma_add mem l s f prot flags fd off)) {mk_region s f prot flags fd off}"
proof (cases "mem (vl_allocs l)")
  case True
  with vma_add_success[OF ok sf free, of mem prot flags fd off] show ?thesis
    by (auto simp: adds_back_def)
next
  case False
  moreover have "vma_find_overlap l s f = None" using ok free by (simp add: vma_find_overlap_None)
  ultimately show ?thesis using ok by (auto simp: adds_back_def vma_add_tree)
qed

lemma adds_back_trans:
  assumes "adds_back mem l l1 P" "adds_back mem l1 l2 Q"
  shows "adds_back mem l l2 (P \<union> Q)"
proof -
  obtain P' where P': "P' \<subseteq> P" "vl_regions l1 = vl_regions l \<union> P'" "(\<forall>n. mem n) \<longrightarrow> P' = P"
    using assms(1) by (auto simp: adds_back_def)
  obtain Q' where Q': "Q' \<subseteq> Q" "vl_regions l2 = vl_regions l1 \<union> Q'" "(\<forall>n. mem n) \<longrightarrow> Q' = Q" "vma_ok l2"
    using assms(2) by (auto simp: adds_back_def)
  show ?thesis
    unfolding adds_back_def using P' Q' by (intro conjI exI[of _ "P' \<union> Q'"]) auto
qed

definition pieces :: "vma_data \<Rightarrow> u64 \<Rightarrow> u64 \<Rightarrow> vma_data set" where
  "pieces v start fin =
     (if start > v_start v then {left_piece v start} else {}) \<union>
     (if fin < v_end v then {right_piece v fin} else {})"

lemma apart_pieces:
  assumes "apart x v" "overlaps v s f" "s < f"
  shows "\<not> overlaps x (v_start v) s" "\<not> overlaps x f (v_end v)"
  using assms by (auto simp: apart_def overlaps_def)

lemma left_apart_right: "s < f \<Longrightarrow> \<not> overlaps (left_piece v s) f e"
  by (auto simp: overlaps_def left_piece_def)

lemma vma_remove_step_pieces:
  assumes ok: "vma_ok list" and v: "v \<in> vl_regions list" "overlaps v start fin" and sf: "start < fin"
  shows "adds_back mem (unlink list v) (vma_remove_step mem list start fin v) (pieces v start fin)"
proof -
  let ?l1 = "unlink list v"
  let ?addl = "\<lambda>l. snd (vma_add mem l (v_start v) start (v_prot v) (v_flags v) (v_fd v) (v_offset v))"
  let ?addr = "\<lambda>l. snd (vma_add mem l fin (v_end v) (v_prot v) (v_flags v) (v_fd v) (v_offset v + (fin - v_start v)))"
  note u = unlink_facts[OF ok v(1)]
  have ap: "apart x v" if "x \<in> vl_regions list - {v}" for x
    using vl_regions_disjoint[OF ok] v(1) that by (auto simp: disjoint_regions_def)
  have L: "adds_back mem ?l1 (?addl ?l1) {left_piece v start}" if "v_start v < start"
    unfolding left_piece_eq using that u(1,2) ap v(2) sf
    by (intro adds_back_add) (auto dest: apart_pieces)
  have R: "adds_back mem l (?addr l) {right_piece v fin}"
    if "fin < v_end v" "vma_ok l" "vl_regions l \<subseteq> insert (left_piece v start) (vl_regions list - {v})" for l
    unfolding right_piece_eq
  proof (intro adds_back_add ballI)
    show "\<not> overlaps x fin (v_end v)" if "x \<in> vl_regions l" for x
      using that \<open>vl_regions l \<subseteq> _\<close> ap apart_pieces(2)[OF _ v(2) sf] left_apart_right[OF sf] by blast
  qed (use that in auto)
  have R1: "adds_back mem ?l1 (?addr ?l1) {right_piece v fin}" if "fin < v_end v"
    by (rule R) (use that u in auto)
  have LR: "adds_back mem ?l1 (?addr (?addl ?l1)) ({left_piece v start} \<union> {right_piece v fin})"
    if *: "v_start v < start" "fin < v_end v"
  proof (rule adds_back_trans[OF L[OF *(1)] R[OF *(2)]])
    show "vma_ok (?addl ?l1)" using L[OF *(1)] by (simp add: adds_back_def)
    show "vl_regions (?addl ?l1) \<subseteq> insert (left_piece v start) (vl_regions list - {v})"
      using L[OF *(1)] u(2) by (auto simp: adds_back_def)
  qed
  have ov: "v_start v < fin" "start < v_end v" using v(2) by (simp_all add: overlaps_def)
  show ?thesis
    using L R1 LR u(1) ov
    by (auto simp: vma_remove_step_unlink Let_def pieces_def adds_back_refl insert_commute)
qed

text \<open>The view of one address after a step.\<close>

lemma pieces_cover:
  assumes "overlaps v start fin" "start < fin"
  shows "(\<exists>p\<in>pieces v start fin. covers p a) \<longleftrightarrow> covers v a \<and> \<not> in_range start fin a"
    "p \<in> pieces v start fin \<Longrightarrow> attr_at p a = attr_at v a"
    "p \<in> pieces v start fin \<Longrightarrow> \<not> overlaps p start fin"
  using assms
  by (auto simp: pieces_def covers_def in_range_def overlaps_def left_piece_def right_piece_def attr_at_def
      algebra_simps split: if_splits)

lemma vma_view_regions:
  assumes "vma_ok list"
  shows "vma_view list a = Some t \<longleftrightarrow> (\<exists>d\<in>vl_regions list. covers d a \<and> attr_at d a = t)"
  using assms by (auto simp: vma_view_def vma_find_iff)

lemma vma_view_None:
  assumes "vma_ok list"
  shows "vma_view list a = None \<longleftrightarrow> (\<forall>d\<in>vl_regions list. \<not> covers d a)"
  using assms by (auto simp: vma_view_def vma_find_None)

definition busy :: "vma_list \<Rightarrow> u64 \<Rightarrow> u64 \<Rightarrow> vma_data set" where
  "busy list start fin = {x \<in> vl_regions list. overlaps x start fin}"

lemma finite_busy [simp]: "finite (busy list s f)"
  by (simp add: busy_def)

text \<open>What one iteration, and the loop, may do to the view.\<close>

definition removes :: "(nat \<Rightarrow> bool) \<Rightarrow> u64 \<Rightarrow> u64 \<Rightarrow> vma_list \<Rightarrow> vma_list \<Rightarrow> bool" where
  "removes mem start fin l l' \<longleftrightarrow> vma_ok l' \<and>
     (\<forall>a. vma_view l' a = None \<or> vma_view l' a = vma_view l a) \<and>
     ((\<forall>n. mem n) \<longrightarrow> (\<forall>a. \<not> in_range start fin a \<longrightarrow> vma_view l' a = vma_view l a)) \<and>
     (\<forall>x. \<not> overlaps x start fin \<longrightarrow> x \<in> vl_regions l \<longrightarrow> x \<in> vl_regions l')"

lemma vma_remove_step_removes:
  fixes mem :: "nat \<Rightarrow> bool"
  assumes ok: "vma_ok list" and v: "v \<in> vl_regions list" "overlaps v start fin" and sf: "start < fin"
  defines "l' \<equiv> vma_remove_step mem list start fin v"
  shows "removes mem start fin list l'" "busy l' start fin = busy list start fin - {v}"
proof -
  obtain Q where Q: "Q \<subseteq> pieces v start fin" "vl_regions l' = (vl_regions list - {v}) \<union> Q"
    "(\<forall>n. mem n) \<longrightarrow> Q = pieces v start fin" "vma_ok l'"
    using vma_remove_step_pieces[OF assms(1-4), of mem] unlink_facts(2)[OF ok v(1)]
    by (auto simp: adds_back_def l'_def)
  note pc = pieces_cover[OF v(2) sf]
  show "busy l' start fin = busy list start fin - {v}"
    using Q(1,2) pc(3) by (auto simp: busy_def)
  have view: "vma_view l' a = None \<or> vma_view l' a = vma_view list a" for a
  proof (cases "vma_view l' a")
    case (Some t)
    then obtain d where d: "d \<in> vl_regions l'" "covers d a" "attr_at d a = t"
      using vma_view_regions[OF Q(4)] by auto
    show ?thesis
    proof (cases "d \<in> Q")
      case True
      then have "d \<in> pieces v start fin" using Q(1) by auto
      then have "covers v a" "attr_at v a = t" using pc(1,2) d by auto
      then have "vma_view list a = Some t" unfolding vma_view_regions[OF ok] using v(1) by blast
      then show ?thesis using Some by simp
    next
      case False
      then have "vma_view list a = Some t" unfolding vma_view_regions[OF ok] using d Q(2) by blast
      then show ?thesis using Some by simp
    qed
  qed simp
  have "vma_view l' a = vma_view list a" if "\<forall>n. mem n" "\<not> in_range start fin a" for a
  proof (cases "vma_view l' a")
    case None
    then have n: "\<forall>d\<in>vl_regions l'. \<not> covers d a" using vma_view_None[OF Q(4)] by auto
    then have "\<not> covers v a" using pc(1)[of a] that Q(2,3) by blast
    then have "vma_view list a = None" using n Q(2) vma_view_None[OF ok] by auto
    then show ?thesis using None by simp
  next
    case (Some t)
    with view[of a] show ?thesis by simp
  qed
  then show "removes mem start fin list l'"
    using view Q v(2) by (auto simp: removes_def)
qed

lemma removes_refl: "vma_ok l \<Longrightarrow> removes mem s f l l"
  by (simp add: removes_def)

lemma removes_trans: "removes mem s f l l1 \<Longrightarrow> removes mem s f l1 l2 \<Longrightarrow> removes mem s f l l2"
  unfolding removes_def by (metis (no_types, lifting))

lemma vma_remove_loop_spec:
  assumes "vma_ok list" "start < fin"
  shows "\<exists>l'. vma_remove_loop mem list start fin b =
                Some (b \<or> busy list start fin \<noteq> {}, l') \<and>
              removes mem start fin list l' \<and> busy l' start fin = {}"
  using assms
proof (induction "card (busy list start fin)" arbitrary: list b rule: less_induct)
  case less
  show ?case
  proof (cases "vma_find_overlap list start fin")
    case None
    then have "busy list start fin = {}"
      using less.prems by (auto simp: busy_def vma_find_overlap_None)
    then show ?thesis using None less.prems
      by (subst vma_remove_loop.simps) (simp add: removes_refl)
  next
    case (Some v)
    then have v: "v \<in> vl_regions list" "overlaps v start fin" by (auto dest: vma_find_overlap_Some)
    let ?l1 = "vma_remove_step mem list start fin v"
    note s = vma_remove_step_removes[OF less.prems(1) v less.prems(2), of mem]
    have vb: "v \<in> busy list start fin" using v by (simp add: busy_def)
    then have "card (busy ?l1 start fin) < card (busy list start fin)"
      unfolding s(2) by (intro card_Diff1_less) auto
    moreover have "vma_ok ?l1" using s(1) by (simp add: removes_def)
    ultimately obtain l' where l': "vma_remove_loop mem ?l1 start fin True = Some (True, l')"
      "removes mem start fin ?l1 l'" "busy l' start fin = {}"
      using less.hyps[of ?l1 True] less.prems(2) by auto
    show ?thesis using Some l' removes_trans[OF s(1) l'(2)] vb
      by (subst vma_remove_loop.simps) auto
  qed
qed

lemma busy_empty_view:
  assumes "vma_ok l" "busy l start fin = {}" "in_range start fin a"
  shows "vma_view l a = None"
proof -
  have "\<not> covers d a" if "d \<in> vl_regions l" for d
  proof -
    have "\<not> overlaps d start fin" using assms(2) that by (auto simp: busy_def)
    then show ?thesis using assms(3) by (auto simp: overlaps_def covers_def in_range_def)
  qed
  then show ?thesis using vma_view_None[OF assms(1)] by simp
qed

lemma vma_remove_ok:
  assumes "vma_ok list" "start < fin"
  obtains l' where "vma_remove mem list start fin = Some (busy list start fin \<noteq> {}, l')"
    "removes mem start fin list l'" "busy l' start fin = {}" "vma_ok l'"
  using vma_remove_loop_spec[OF assms, of mem False] unfolding vma_remove_def removes_def by auto

lemma removes_all_view:
  assumes "removes mem start fin l l'" "busy l' start fin = {}" "\<forall>n. mem n"
  shows "vma_view l' a = (if in_range start fin a then None else vma_view l a)"
  using assms busy_empty_view[of l' start fin a] by (auto simp: removes_def)

section \<open>Changing the protection of a range\<close>

definition set_prot :: "u64 \<Rightarrow> page_attr \<Rightarrow> page_attr" where
  "set_prot p t = (p, snd t)"

lemma set_prot_idem [simp]: "set_prot p (set_prot p t) = set_prot p t"
  by (simp add: set_prot_def)

definition reprotect :: "(nat \<Rightarrow> bool) \<Rightarrow> vma_list \<Rightarrow> vma_data \<Rightarrow> u64 \<Rightarrow> u64 \<Rightarrow> u64 \<Rightarrow> vma_list option" where
  "reprotect mem list v m_start m_end new_prot =
     Option.bind (vma_remove mem list m_start m_end)
       (\<lambda>(_, list1). Some (snd (vma_add mem list1 m_start m_end new_prot (v_flags v)
                             (v_fd v) (v_offset v + (m_start - v_start v)))))"

lemma mprotect_loop_unfold:
  "vma_mprotect_loop mem list start fin p cur =
     (if \<not> cur < fin then Some list
      else (case vma_find list cur of
          None \<Rightarrow> (case vma_find_overlap list cur fin of None \<Rightarrow> Some list
                 | Some v \<Rightarrow> vma_mprotect_loop mem list start fin p (v_start v))
        | Some v \<Rightarrow> Option.bind (reprotect mem list v (max (v_start v) start) (min (v_end v) fin) p)
            (\<lambda>l. vma_mprotect_loop mem l start fin p (min (v_end v) fin))))"
  by (subst vma_mprotect_loop.simps)
    (simp add: reprotect_def Let_def Option.bind_assoc split_def cong: option.case_cong)

lemma reprotect_spec:
  assumes ok: "vma_ok l" and v: "v \<in> vl_regions l" and r: "v_start v \<le> ms" "ms < me" "me \<le> v_end v"
  obtains l' where "reprotect mem l v ms me p = Some l'" "vma_ok l'"
    "(\<forall>n. mem n) \<longrightarrow> (\<forall>a. vma_view l' a = (if in_range ms me a
       then map_option (set_prot p) (vma_view l a) else vma_view l a))"
proof -
  let ?d = "mk_region ms me p (v_flags v) (v_fd v) (v_offset v + (ms - v_start v))"
  obtain l1 where l1: "vma_remove mem l ms me = Some (busy l ms me \<noteq> {}, l1)"
    "removes mem ms me l l1" "busy l1 ms me = {}" "vma_ok l1"
    using vma_remove_ok[OF ok r(2)] by metis
  let ?l2 = "snd (vma_add mem l1 ms me p (v_flags v) (v_fd v) (v_offset v + (ms - v_start v)))"
  have free: "\<forall>x\<in>vl_regions l1. \<not> overlaps x ms me" using l1(3) by (auto simp: busy_def)
  have eq: "reprotect mem l v ms me p = Some ?l2" by (simp add: reprotect_def l1(1))
  have ok2: "vma_ok ?l2" using adds_back_add[OF l1(4) r(2) free] by (simp add: adds_back_def)
  have "vma_view ?l2 a = (if in_range ms me a then map_option (set_prot p) (vma_view l a) else vma_view l a)"
    if m: "\<forall>n. mem n" for a
  proof -
    have f: "vma_find ?l2 a = (if covers ?d a then Some ?d else vma_find l1 a)"
      using vma_add_success(4)[OF l1(4) r(2) free] m by blast
    have c: "covers ?d a = in_range ms me a" by (simp add: covers_def in_range_def)
    have "vma_view l a = Some (attr_at v a)" if "in_range ms me a"
      using that v r unfolding vma_view_regions[OF ok]
      by (intro bexI[of _ v]) (auto simp: in_range_def covers_def)
    moreover have "attr_at ?d a = set_prot p (attr_at v a)" by (simp add: attr_at_def set_prot_def)
    ultimately show ?thesis using removes_all_view[OF l1(2,3) m, of a] f
      by (auto simp: vma_view_def c split: if_splits)
  qed
  then show ?thesis using that eq ok2 by blast
qed

text \<open>
  What the protection loop may do from \<open>cur\<close> on: where memory is available every address
  of the range keeps its attributes or takes the new protection, and takes it for certain when
  everything from \<open>cur\<close> on is mapped.
\<close>

definition protects :: "u64 \<Rightarrow> u64 \<Rightarrow> u64 \<Rightarrow> u64 \<Rightarrow> vma_list \<Rightarrow> vma_list \<Rightarrow> bool" where
  "protects start fin p cur l l' \<longleftrightarrow>
     (\<forall>a. \<not> in_range start fin a \<longrightarrow> vma_view l' a = vma_view l a) \<and>
     (\<forall>a. vma_view l' a = vma_view l a \<or> vma_view l' a = map_option (set_prot p) (vma_view l a)) \<and>
     ((\<forall>a. in_range cur fin a \<longrightarrow> vma_view l a \<noteq> None) \<longrightarrow>
        (\<forall>a. in_range cur fin a \<longrightarrow> vma_view l' a = map_option (set_prot p) (vma_view l a)))"

lemma protects_refl:
  "\<not> cur < fin \<or> vma_view l cur = None \<Longrightarrow> protects start fin p cur l l"
  by (auto simp: protects_def in_range_def)

lemma protects_skip:
  "protects start fin p c l l' \<Longrightarrow> vma_view l cur = None \<Longrightarrow> cur < fin \<Longrightarrow> protects start fin p cur l l'"
  by (auto simp: protects_def in_range_def)

lemma protects_step:
  assumes m: "\<And>a. vma_view l1 a = (if in_range ms me a then map_option (set_prot p) (vma_view l a) else vma_view l a)"
    and b: "start \<le> ms" "ms \<le> cur" "cur < me" "me \<le> fin" and P: "protects start fin p me l1 l'"
  shows "protects start fin p cur l l'"
proof -
  have idem: "map_option (set_prot p) (map_option (set_prot p) x) = map_option (set_prot p) x" for x
    by (cases x) auto
  have two: "vma_view l' a = vma_view l a \<or> vma_view l' a = map_option (set_prot p) (vma_view l a)" for a
    using P m[of a] idem unfolding protects_def by metis
  have out: "vma_view l' a = vma_view l a" if "\<not> in_range start fin a" for a
    using P m[of a] b that by (auto simp: protects_def in_range_def)
  have "vma_view l' a = map_option (set_prot p) (vma_view l a)"
    if full: "\<forall>a. in_range cur fin a \<longrightarrow> vma_view l a \<noteq> None" and a: "in_range cur fin a" for a
  proof (cases "a < me")
    case True
    then have "vma_view l1 a = map_option (set_prot p) (vma_view l a)"
      using m[of a] a b by (auto simp: in_range_def)
    then show ?thesis using P idem unfolding protects_def by metis
  next
    case False
    have "\<forall>x. in_range me fin x \<longrightarrow> vma_view l1 x \<noteq> None"
      using full b m by (auto simp: in_range_def)
    moreover have "in_range me fin a" using a False by (simp add: in_range_def)
    ultimately show ?thesis using P m[of a] False by (auto simp: protects_def in_range_def)
  qed
  then show ?thesis using two out by (simp add: protects_def)
qed

lemma vma_mprotect_loop_spec:
  assumes "vma_ok list" "start \<le> cur"
  shows "\<exists>l'. vma_mprotect_loop mem list start fin p cur = Some l' \<and> vma_ok l' \<and>
     ((\<forall>n. mem n) \<longrightarrow> protects start fin p cur list l')"
  using assms
proof (induction "unat fin - unat cur" arbitrary: list cur rule: less_induct)
  case less
  note ok = less.prems(1)
  consider (stop) "\<not> cur < fin"
    | (last) "cur < fin" "vma_find list cur = None" "vma_find_overlap list cur fin = None"
    | (skip) v where "cur < fin" "vma_find list cur = None" "vma_find_overlap list cur fin = Some v"
    | (hit) v where "cur < fin" "vma_find list cur = Some v"
    by (metis option.exhaust)
  then show ?case
  proof cases
    case stop
    then show ?thesis using ok by (subst mprotect_loop_unfold) (simp add: protects_refl)
  next
    case last
    then show ?thesis using ok
      by (subst mprotect_loop_unfold) (simp add: protects_refl vma_view_def)
  next
    case (skip v)
    have v: "v \<in> vl_regions list" "overlaps v cur fin" using skip by (auto dest: vma_find_overlap_Some)
    then have "cur < v_start v" "v_start v < fin" using skip(2) vma_find_None[OF ok]
      by (auto simp: overlaps_def covers_def not_le)
    then have "unat fin - unat (v_start v) < unat fin - unat cur" "start \<le> v_start v"
      using less.prems(2) by (simp_all add: word_less_nat_alt word_le_nat_alt)
    from less.hyps[OF this(1) ok this(2)] obtain l' where
      "vma_mprotect_loop mem list start fin p (v_start v) = Some l'" "vma_ok l'"
      "(\<forall>n. mem n) \<longrightarrow> protects start fin p (v_start v) list l'" by blast
    then show ?thesis using skip
      by (subst mprotect_loop_unfold) (auto simp: vma_view_def intro: protects_skip)
  next
    case (hit v)
    let ?ms = "max (v_start v) start" and ?me = "min (v_end v) fin"
    have v: "v \<in> vl_regions list" "covers v cur" using hit vma_find_iff[OF ok] by auto
    then have b: "v_start v \<le> ?ms" "?ms \<le> cur" "cur < ?me" "?ms < ?me" "?me \<le> v_end v" "?me \<le> fin" "start \<le> ?ms"
      using less.prems(2) hit(1) by (auto simp: covers_def)
    obtain l1 where l1: "reprotect mem list v ?ms ?me p = Some l1" "vma_ok l1"
      "(\<forall>n. mem n) \<longrightarrow> (\<forall>a. vma_view l1 a = (if in_range ?ms ?me a
          then map_option (set_prot p) (vma_view list a) else vma_view list a))"
      using reprotect_spec[OF ok v(1) b(1,4,5)] by metis
    have "unat fin - unat ?me < unat fin - unat cur" "start \<le> ?me"
      using b by (auto simp: word_less_nat_alt word_le_nat_alt)
    from less.hyps[OF this(1) l1(2) this(2)] obtain l' where
      l': "vma_mprotect_loop mem l1 start fin p ?me = Some l'" "vma_ok l'"
      "(\<forall>n. mem n) \<longrightarrow> protects start fin p ?me l1 l'" by blast
    have "protects start fin p cur list l'" if "\<forall>n. mem n"
      using protects_step[of l1 ?ms ?me p list start cur fin l'] l1(3) b(7,2,3,6) l'(3) that by blast
    then show ?thesis using l' l1 hit by (subst mprotect_loop_unfold) simp
  qed
qed

section \<open>The gathered array\<close>

lemma inorder_sorted: "bst t \<Longrightarrow> sorted_wrt (\<lambda>x y. v_start x < v_start y) (inorder_gather t)"
  by (induction t) (auto simp: sorted_wrt_append intro: less_trans)

abbreviation region_before :: "vma_data \<Rightarrow> vma_data \<Rightarrow> bool" where
  "region_before x y \<equiv> v_end x \<le> v_start y"

lemma inorder_before:
  assumes "tree_ok t"
  shows "sorted_wrt region_before (inorder_gather t)"
proof -
  have b: "bst t" "disjoint_regions (set (inorder_gather t))" using assms by (simp_all add: tree_ok_def)
  have "region_before x y" if "x \<in> set (inorder_gather t)" "y \<in> set (inorder_gather t)" "v_start x < v_start y" for x y
    using b(2) that by (force simp: disjoint_regions_def apart_def)
  then show ?thesis using inorder_sorted[OF b(1)] by (rule sorted_wrt_mono_rel)
qed

section \<open>Finding a gap\<close>

lemma find_gap_scan_spec:
  assumes "sorted_wrt region_before arr" "\<forall>x\<in>set arr. v_start x < v_end x"
    and "find_gap_scan arr len c = (c', g)"
  shows "c \<le> c' \<and> (c' = c \<or> (\<exists>x\<in>set arr. c' = v_end x)) \<and>
     (if g = 0 then c' = 0 \<or> (\<forall>x\<in>set arr. v_end x \<le> c')
      else g = c' \<and> (\<forall>x\<in>set arr. v_end x \<le> g \<or> (g < v_start x \<and> len \<le> v_start x - g)))"
  using assms
proof (induction arr arbitrary: c)
  case (Cons x arr)
  consider (skip) "v_end x \<le> c" | (gap) "\<not> v_end x \<le> c" "c < v_start x" "len \<le> v_start x - c"
    | (on) "\<not> v_end x \<le> c" "\<not> (c < v_start x \<and> len \<le> v_start x - c)"
    by blast
  then show ?case
  proof cases
    case skip
    then have "find_gap_scan arr len c = (c', g)" using Cons.prems(3) by simp
    with Cons.IH[OF _ _ this] Cons.prems(1,2) skip show ?thesis by (auto split: if_splits)
  next
    case gap
    then have [simp]: "c' = c" "g = c" using Cons.prems(3) by auto
    have "c < v_start y \<and> len \<le> v_start y - c" if "y \<in> set arr" for y
    proof -
      have "v_start x \<le> v_start y" using Cons.prems(1,2) that by force
      then show ?thesis using gap by (auto simp: word_le_nat_alt word_less_nat_alt unat_sub)
    qed
    then show ?thesis using gap by auto
  next
    case on
    then have "max c (v_end x) = v_end x" by (auto simp: max_def)
    then have "find_gap_scan arr len (v_end x) = (c', g)" using Cons.prems(3) on by auto
    with Cons.IH[OF _ _ this] Cons.prems(1,2) on show ?thesis by (auto split: if_splits)
  qed
qed auto

text \<open>The addresses of the window of \<open>len\<close> bytes at \<open>g\<close>, up to the top of memory.\<close>

definition in_window :: "u64 \<Rightarrow> u64 \<Rightarrow> u64 \<Rightarrow> bool" where
  "in_window g len a \<longleftrightarrow> g \<le> a \<and> a - g < len"

lemma gap_not_covers:
  assumes "v_end x \<le> g \<or> (g < v_start x \<and> len \<le> v_start x - g)" "in_window g len a"
  shows "\<not> covers x a"
  using assms
  by (auto simp: covers_def in_window_def word_less_nat_alt word_le_nat_alt unat_sub)

lemma gap_not_overlaps:
  assumes "v_end x \<le> g \<or> (g < v_start x \<and> len \<le> v_start x - g)"
  shows "\<not> overlaps x g (g + len)"
  using assms by (auto simp: overlaps_def word_less_nat_alt word_le_nat_alt unat_sub unat_word_ariths)

lemma tree_nonempty_regions: "tree_ok t \<Longrightarrow> \<forall>x\<in>set (inorder_gather t). v_start x < v_end x"
  by (simp add: tree_ok_def disjoint_regions_def)

lemma vma_find_gap_sound:
  assumes ok: "vma_ok list" and nz: "fst (vma_find_gap mem list len base limit) = g" "g \<noteq> 0"
  shows "base \<le> g \<and> (\<forall>x\<in>vl_regions list. v_end x \<le> g \<or> (g < v_start x \<and> len \<le> v_start x - g))"
proof (cases "vl_count list = 0")
  case True
  then have "vl_regions list = {}" using ok by (simp add: vma_ok_def)
  then show ?thesis using nz True by (auto simp: vma_find_gap_def split: if_splits)
next
  case False
  obtain c g' where s: "find_gap_scan (inorder_gather (vl_root list)) len base = (c, g')" by fastforce
  have t: "tree_ok (vl_root list)" using ok by (rule vma_okD)
  from find_gap_scan_spec[OF inorder_before[OF t] tree_nonempty_regions[OF t] s]
  show ?thesis using nz False s
    by (auto simp: vma_find_gap_def vl_alloc_def vl_regions_def split: if_splits)
qed

text \<open>A window that meets none of the regions of the array starts at or after the final cursor.\<close>

definition window_free :: "u64 \<Rightarrow> u64 \<Rightarrow> vma_data \<Rightarrow> bool" where
  "window_free w len x \<longleftrightarrow> v_end x \<le> w \<or> unat w + unat len \<le> unat (v_start x)"

lemma find_gap_scan_complete:
  assumes "find_gap_scan arr len c = (c', 0)" "c \<noteq> 0" "c \<le> w" "0 < len" "\<forall>x\<in>set arr. window_free w len x"
  shows "c' \<le> w"
  using assms
proof (induction arr arbitrary: c)
  case (Cons x arr)
  show ?case
  proof (cases "v_end x \<le> c")
    case True
    then show ?thesis using Cons by auto
  next
    case False
    then have m: "max c (v_end x) = v_end x" "v_end x \<noteq> 0" by (auto simp: max_def)
    have g: "\<not> (c < v_start x \<and> len \<le> v_start x - c)" "find_gap_scan arr len (v_end x) = (c', 0)"
      using Cons.prems(1,2) False m(1) by (auto split: if_splits)
    have "v_end x \<le> w"
      using Cons.prems(3-5) g(1) False
      by (auto simp: window_free_def word_less_nat_alt word_le_nat_alt unat_sub)
    then show ?thesis using Cons.IH[OF g(2) m(2)] Cons.prems(4,5) by auto
  qed
qed auto

lemma vma_find_gap_complete:
  assumes ok: "vma_ok list" and z: "fst (vma_find_gap mem list len base limit) = 0" and b: "base \<noteq> 0" "0 < len"
    and m: "mem (vl_allocs list)" and w: "base \<le> w" "unat w + unat len \<le> unat limit"
  shows "\<exists>x\<in>vl_regions list. \<not> window_free w len x"
proof (rule ccontr)
  assume "\<not> ?thesis"
  then have free: "\<forall>x\<in>set (inorder_gather (vl_root list)). window_free w len x"
    by (auto simp: vl_regions_def)
  obtain c g where s: "find_gap_scan (inorder_gather (vl_root list)) len base = (c, g)" by fastforce
  have fit: "x + len \<le> limit" if "x \<le> w" for x
    using that w(2) by (auto simp: word_le_nat_alt unat_word_ariths intro: le_trans[OF mod_less_eq_dividend])
  show False
  proof (cases "vl_count list = 0")
    case True
    then show ?thesis using z b fit[OF w(1)] by (auto simp: vma_find_gap_def)
  next
    case False
    have t: "tree_ok (vl_root list)" using ok by (rule vma_okD)
    have "base \<le> c" using find_gap_scan_spec[OF inorder_before[OF t] tree_nonempty_regions[OF t] s] by simp
    then have "c \<noteq> 0" using b by auto
    have "g = 0" using z False s m by (auto simp: vma_find_gap_def vl_alloc_def split: if_splits)
    then have "c \<le> w" using find_gap_scan_complete[of _ len base c w] s b w(1) free by auto
    then show ?thesis using z False s m \<open>g = 0\<close> \<open>c \<noteq> 0\<close> fit
      by (auto simp: vma_find_gap_def vl_alloc_def split: if_splits)
  qed
qed

section \<open>Cloning\<close>

lemma vma_list_init_ok [simp]: "vma_ok (vma_list_init l)" "vl_regions (vma_list_init l) = {}"
  by (simp_all add: vma_list_init_def vma_ok_def vl_regions_def tree_ok_def disjoint_regions_def)

lemma mk_region_eta [simp]:
  "mk_region (v_start d) (v_end d) (v_prot d) (v_flags d) (v_fd d) (v_offset d) = d"
  by simp

lemma clone_recursive_spec:
  assumes "vma_ok dst" "disjoint_regions (vl_regions dst \<union> regions t)" "vl_regions dst \<inter> regions t = {}" "bst t"
  shows "adds_back mem dst (clone_recursive mem dst t) (regions t)"
  using assms
proof (induction t arbitrary: dst)
  case NULLV
  then show ?case by (simp add: adds_back_refl)
next
  case (Vma l d m h r)
  let ?d1 = "snd (vma_add mem dst (v_start d) (v_end d) (v_prot d) (v_flags d) (v_fd d) (v_offset d))"
  let ?d2 = "clone_recursive mem ?d1 l"
  have b: "bst l" "bst r" "d \<notin> regions l" "d \<notin> regions r" "regions l \<inter> regions r = {}"
    using Vma.prems(4) by force+
  have ne: "v_start d < v_end d" using Vma.prems(2) by (simp add: disjoint_regions_def)
  have ap: "\<not> overlaps x (v_start d) (v_end d)" if x: "x \<in> vl_regions dst" for x
  proof -
    have "x \<noteq> d" using Vma.prems(3) x by auto
    then have "apart x d" using Vma.prems(2) x by (auto simp: disjoint_regions_def)
    then show ?thesis by (auto simp: apart_def overlaps_def)
  qed
  have 1: "adds_back mem dst ?d1 {d}"
    using adds_back_add[OF Vma.prems(1) ne, of mem "v_prot d" "v_flags d" "v_fd d" "v_offset d"] ap
    unfolding mk_region_eta by blast
  then obtain Q1 where Q1: "Q1 \<subseteq> {d}" "vl_regions ?d1 = vl_regions dst \<union> Q1" "vma_ok ?d1"
    by (auto simp: adds_back_def)
  have 2: "adds_back mem ?d1 ?d2 (regions l)"
  proof (rule Vma.IH(1)[OF Q1(3) _ _ b(1)])
    show "disjoint_regions (vl_regions ?d1 \<union> regions l)"
      using Vma.prems(2) by (rule disjoint_regions_subset) (use Q1 in auto)
    show "vl_regions ?d1 \<inter> regions l = {}" using Vma.prems(3) Q1 b by auto
  qed
  then obtain Q2 where Q2: "Q2 \<subseteq> regions l" "vl_regions ?d2 = vl_regions ?d1 \<union> Q2" "vma_ok ?d2"
    by (auto simp: adds_back_def)
  have 3: "adds_back mem ?d2 (clone_recursive mem ?d2 r) (regions r)"
  proof (rule Vma.IH(2)[OF Q2(3) _ _ b(2)])
    show "disjoint_regions (vl_regions ?d2 \<union> regions r)"
      using Vma.prems(2) by (rule disjoint_regions_subset) (use Q1(1) Q2(1) in \<open>auto simp: Q1(2) Q2(2)\<close>)
    show "vl_regions ?d2 \<inter> regions r = {}"
      using Vma.prems(3) Q1(1) Q2(1) b(4,5) unfolding Q1(2) Q2(2) by auto
  qed
  show ?case using adds_back_trans[OF adds_back_trans[OF 1 2] 3] by (simp add: Let_def Un_assoc)
qed

lemma same_regions_view:
  assumes "vma_ok l" "vma_ok l'" "vl_regions l' = vl_regions l"
  shows "vma_view l' a = vma_view l a" "vma_find l' a = vma_find l a"
proof -
  show "vma_find l' a = vma_find l a"
    using assms vma_find_iff[of l a] vma_find_iff[of l' a] by (metis option.exhaust)
  then show "vma_view l' a = vma_view l a" by (simp add: vma_view_def)
qed

lemma vma_list_clone_spec:
  assumes "vma_ok src"
  shows "adds_back mem (vma_list_init dst) (vma_list_clone mem dst src) (vl_regions src)"
  unfolding vma_list_clone_def vl_regions_def
proof (rule clone_recursive_spec)
  show "vma_ok (vma_list_init dst)" by simp
qed (use assms in \<open>auto simp: vma_ok_def tree_ok_def\<close>)

section \<open>Merging neighbours\<close>

lemma find_mergeable_Some:
  "find_mergeable arr = Some (c, n) \<Longrightarrow> c \<in> set arr \<and> n \<in> set arr \<and> mergeable c n"
  by (induction arr rule: find_mergeable.induct) (auto split: if_splits)

lemma find_mergeable_None:
  assumes "find_mergeable arr = None" "sorted_wrt region_before arr" "\<forall>x\<in>set arr. v_start x < v_end x"
    "x \<in> set arr" "y \<in> set arr"
  shows "\<not> mergeable x y"
  using assms
proof (induction arr rule: find_mergeable.induct)
  case (1 cur nxt arr)
  have n: "\<not> mergeable cur nxt" "find_mergeable (nxt # arr) = None" using "1.prems"(1) by (auto split: if_splits)
  have far: "\<not> mergeable cur z" if "z \<in> set arr" for z
    using "1.prems"(2,3) that by (force simp: mergeable_def)
  have rev: "\<not> mergeable z cur" if "z \<in> set (cur # nxt # arr)" for z
    using "1.prems"(2,3) that by (force simp: mergeable_def)
  have "\<not> mergeable x y" if "x \<in> set (nxt # arr)" "y \<in> set (nxt # arr)"
    using "1.IH" n "1.prems"(2,3) that by auto
  then show ?case using "1.prems"(4,5) n far rev by auto
qed (auto simp: mergeable_def)

text \<open>Removing exactly one region of the list.\<close>

lemma busy_exact:
  assumes "vma_ok l" "v \<in> vl_regions l"
  shows "busy l (v_start v) (v_end v) = {v}"
proof -
  have d: "disjoint_regions (vl_regions l)" using assms(1) by (rule vl_regions_disjoint)
  then have "x = v" if "x \<in> busy l (v_start v) (v_end v)" for x
    using that assms(2) by (force simp: busy_def disjoint_regions_def apart_def overlaps_def)
  moreover have "v \<in> busy l (v_start v) (v_end v)"
    using d assms(2) by (auto simp: busy_def disjoint_regions_def overlaps_def)
  ultimately show ?thesis by blast
qed

lemma vma_remove_exact:
  assumes ok: "vma_ok l" and v: "v \<in> vl_regions l"
  obtains l' where "vma_remove mem l (v_start v) (v_end v) = Some (True, l')" "vma_ok l'"
    "vl_regions l' = vl_regions l - {v}"
proof -
  have lt: "v_start v < v_end v" using vl_regions_disjoint[OF ok] v by (simp add: disjoint_regions_def)
  have b: "busy l (v_start v) (v_end v) = {v}" using busy_exact[OF ok v] .
  then obtain w where w: "vma_find_overlap l (v_start v) (v_end v) = Some w"
    using vma_find_overlap_None[OF ok] by (fastforce simp: busy_def)
  then have [simp]: "w = v" using b vma_find_overlap_Some[OF w] by (auto simp: busy_def)
  have ov: "overlaps v (v_start v) (v_end v)" using lt by (simp add: overlaps_def)
  let ?l' = "vma_remove_step mem l (v_start v) (v_end v) v"
  have r: "vma_ok ?l'" "vl_regions ?l' = vl_regions l - {v}"
    using vma_remove_step_pieces[OF ok v ov lt, of mem] unlink_facts(2)[OF ok v]
    by (auto simp: adds_back_def pieces_def)
  have "busy ?l' (v_start v) (v_end v) = {}" using r(2) b by (auto simp: busy_def)
  then have "vma_find_overlap ?l' (v_start v) (v_end v) = None"
    using vma_find_overlap_None[OF r(1)] by (auto simp: busy_def)
  then have "vma_remove mem l (v_start v) (v_end v) = Some (True, ?l')"
    unfolding vma_remove_def using w
    by (subst vma_remove_loop.simps, simp, subst vma_remove_loop.simps, simp)
  then show ?thesis using that r by blast
qed

text \<open>
  The attributes that matter for a merge: the file offset of an anonymous mapping carries no
  meaning.
\<close>

definition anon_attr :: "page_attr \<Rightarrow> page_attr" where
  "anon_attr t = (case t of (p, f, fd, off) \<Rightarrow> (p, f, fd, if fd = -1 then 0 else off))"

definition merges :: "(nat \<Rightarrow> bool) \<Rightarrow> vma_list \<Rightarrow> vma_list \<Rightarrow> bool" where
  "merges mem l l' \<longleftrightarrow> vma_ok l' \<and> vl_count l' \<le> vl_count l \<and>
     (\<forall>a. vma_view l' a = None \<or> map_option anon_attr (vma_view l' a) = map_option anon_attr (vma_view l a)) \<and>
     ((\<forall>n. mem n) \<longrightarrow> (\<forall>a. map_option anon_attr (vma_view l' a) = map_option anon_attr (vma_view l a)))"

lemma merges_refl: "vma_ok l \<Longrightarrow> merges mem l l"
  by (simp add: merges_def)

lemma merges_trans: "merges mem l l1 \<Longrightarrow> merges mem l1 l2 \<Longrightarrow> merges mem l l2"
  unfolding merges_def by (metis (no_types, lifting) option.map_disc_iff order_trans)

lemma anon_view_Some:
  "vma_ok l \<Longrightarrow> map_option anon_attr (vma_view l a) = Some t \<longleftrightarrow>
     (\<exists>d\<in>vl_regions l. covers d a \<and> anon_attr (attr_at d a) = t)"
  unfolding vma_view_def option.map_comp by (auto simp: vma_find_iff map_option_eq_Some)

lemma merged_region:
  assumes "mergeable c n" "v_start c < v_end c" "v_start n < v_end n"
  defines "m \<equiv> mk_region (v_start c) (v_end n) (v_prot c) (v_flags c) (-1) 0"
  shows "covers m a \<longleftrightarrow> covers c a \<or> covers n a"
    "anon_attr (attr_at m a) = anon_attr (attr_at c a)"
    "anon_attr (attr_at m a) = anon_attr (attr_at n a)"
  using assms by (auto simp: mergeable_def covers_def anon_attr_def attr_at_def m_def)

lemma merged_view:
  assumes ok: "vma_ok l" "vma_ok l'" and c: "c \<in> vl_regions l" "n \<in> vl_regions l" "mergeable c n"
    and Q: "Q \<subseteq> {mk_region (v_start c) (v_end n) (v_prot c) (v_flags c) (-1) 0}"
    and l': "vl_regions l' = (vl_regions l - {c, n}) \<union> Q"
  shows "vma_view l' a = None \<or> map_option anon_attr (vma_view l' a) = map_option anon_attr (vma_view l a)"
    "Q \<noteq> {} \<Longrightarrow> map_option anon_attr (vma_view l' a) = map_option anon_attr (vma_view l a)"
proof -
  let ?m = "mk_region (v_start c) (v_end n) (v_prot c) (v_flags c) (-1) 0"
  have lt: "v_start c < v_end c" "v_start n < v_end n"
    using vl_regions_disjoint[OF ok(1)] c by (auto simp: disjoint_regions_def)
  note m = merged_region[OF c(3) lt]
  have some: "map_option anon_attr (vma_view l a) = Some t"
    if h: "map_option anon_attr (vma_view l' a) = Some t" for t
  proof -
    obtain d where d: "d \<in> vl_regions l'" "covers d a" "anon_attr (attr_at d a) = t"
      using h unfolding anon_view_Some[OF ok(2)] by blast
    have "d \<in> vl_regions l \<or> d = ?m" using d(1) Q l' by auto
    then show ?thesis unfolding anon_view_Some[OF ok(1)] using d c m[of a] by metis
  qed
  then show "vma_view l' a = None \<or> map_option anon_attr (vma_view l' a) = map_option anon_attr (vma_view l a)"
    by (cases "vma_view l' a") auto
  show "map_option anon_attr (vma_view l' a) = map_option anon_attr (vma_view l a)" if "Q \<noteq> {}"
  proof (cases "vma_view l a")
    case None
    then show ?thesis using some by (cases "vma_view l' a") auto
  next
    case (Some t)
    then have "map_option anon_attr (vma_view l a) = Some (anon_attr t)" by simp
    moreover then have "map_option anon_attr (vma_view l' a) = Some (anon_attr t)"
    proof -
      obtain d where d: "d \<in> vl_regions l" "covers d a" "anon_attr (attr_at d a) = anon_attr t"
        using \<open>map_option anon_attr (vma_view l a) = Some (anon_attr t)\<close>
        unfolding anon_view_Some[OF ok(1)] by blast
      have "?m \<in> vl_regions l'" using that Q l' by auto
      moreover have "d \<in> vl_regions l' \<or> d = c \<or> d = n" using d(1) l' by auto
      ultimately show ?thesis unfolding anon_view_Some[OF ok(2)] using d m[of a] by metis
    qed
    ultimately show ?thesis by (rule trans[OF _ sym, rotated])
  qed
qed

lemma merge_one:
  assumes ok: "vma_ok l" and c: "c \<in> vl_regions l" "n \<in> vl_regions l" "mergeable c n"
  obtains l2 l3 where
    "vma_remove mem l (v_start c) (v_end c) = Some (True, l2)"
    "vma_remove mem l2 (v_start n) (v_end n) = Some (True, l3)"
    "merges mem l (snd (vma_add mem l3 (v_start c) (v_end n) (v_prot c) (v_flags c) (-1) 0))"
    "card (vl_regions (snd (vma_add mem l3 (v_start c) (v_end n) (v_prot c) (v_flags c) (-1) 0)))
       < card (vl_regions l)"
proof -
  let ?m = "mk_region (v_start c) (v_end n) (v_prot c) (v_flags c) (-1) 0"
  have d: "disjoint_regions (vl_regions l)" using vl_regions_disjoint[OF ok] .
  then have lt: "v_start c < v_end c" "v_start n < v_end n" using c by (auto simp: disjoint_regions_def)
  have ne: "c \<noteq> n" and lt': "v_start c < v_end n" using c(3) lt by (auto simp: mergeable_def)
  obtain l2 where l2: "vma_remove mem l (v_start c) (v_end c) = Some (True, l2)" "vma_ok l2"
    "vl_regions l2 = vl_regions l - {c}" using vma_remove_exact[OF ok c(1)] by metis
  obtain l3 where l3: "vma_remove mem l2 (v_start n) (v_end n) = Some (True, l3)" "vma_ok l3"
    "vl_regions l3 = vl_regions l - {c, n}"
  proof (rule vma_remove_exact[OF l2(2), of n])
    show "n \<in> vl_regions l2" using l2(3) c(2) ne by auto
  qed (use l2(3) in auto)
  let ?l4 = "snd (vma_add mem l3 (v_start c) (v_end n) (v_prot c) (v_flags c) (-1) 0)"
  have "\<not> overlaps x (v_start c) (v_end n)" if "x \<in> vl_regions l3" for x
  proof -
    have "apart x c" "apart x n" "v_start x < v_end x"
      using d that l3(3) c by (auto simp: disjoint_regions_def)
    then show ?thesis using c(3) by (auto simp: apart_def overlaps_def mergeable_def)
  qed
  then have a: "adds_back mem l3 ?l4 {?m}" using adds_back_add[OF l3(2) lt'] by blast
  then obtain Q where Q: "Q \<subseteq> {?m}" "vl_regions ?l4 = (vl_regions l - {c, n}) \<union> Q" "vma_ok ?l4"
    "(\<forall>n. mem n) \<longrightarrow> Q = {?m}" by (auto simp: adds_back_def l3(3))
  have two: "card (vl_regions l - {c, n}) + 2 = card (vl_regions l)"
    using c ne card_Diff_subset[of "{c,n}" "vl_regions l"] card_mono[of "vl_regions l" "{c,n}"] by auto
  have "finite Q" "card Q \<le> 1" using Q(1) card_mono[of "{?m}" Q] by (auto intro: finite_subset)
  then have card: "card (vl_regions ?l4) < card (vl_regions l)"
    using two card_Un_le[of "vl_regions l - {c, n}" Q] by (simp add: Q(2))
  have "merges mem l ?l4"
    using merged_view[OF ok Q(3) c Q(1,2)] Q(3,4) card ok by (auto simp: merges_def vma_ok_def)
  then show ?thesis using that l2(1) l3(1) card by blast
qed

text \<open>The loop returns and leaves no two regions that could be merged, unless memory runs out.\<close>

definition fully_merged :: "vma_list \<Rightarrow> bool" where
  "fully_merged l \<longleftrightarrow> (\<forall>x\<in>vl_regions l. \<forall>y\<in>vl_regions l. \<not> mergeable x y)"

lemma vma_merge_loop_spec:
  assumes "vma_ok l"
  shows "\<exists>l'. vma_merge_loop mem l = Some l' \<and> merges mem l l' \<and> ((\<forall>n. mem n) \<longrightarrow> fully_merged l')"
  using assms
proof (induction "card (vl_regions l)" arbitrary: l rule: less_induct)
  case less
  let ?l1 = "l\<lparr>vl_allocs := Suc (vl_allocs l)\<rparr>"
  have ok1: "vma_ok ?l1" "merges mem l ?l1" using less.prems by (simp_all add: merges_def)
  have t: "tree_ok (vl_root l)" using less.prems by (rule vma_okD)
  consider (oom) "\<not> mem (vl_allocs l)" | (stop) "mem (vl_allocs l)" "find_mergeable (inorder_gather (vl_root l)) = None"
    | (go) c n where "mem (vl_allocs l)" "find_mergeable (inorder_gather (vl_root l)) = Some (c, n)" by fastforce
  then show ?case
  proof cases
    case oom
    then show ?thesis using ok1 by (subst vma_merge_loop.simps) (auto simp: vl_alloc_def)
  next
    case stop
    have "fully_merged ?l1"
      using find_mergeable_None[OF stop(2) inorder_before[OF t] tree_nonempty_regions[OF t]]
      by (simp add: fully_merged_def vl_regions_def)
    then show ?thesis using stop ok1 by (subst vma_merge_loop.simps) (simp add: vl_alloc_def)
  next
    case go
    then have c: "c \<in> vl_regions ?l1" "n \<in> vl_regions ?l1" "mergeable c n"
      using find_mergeable_Some[OF go(2)] by (simp_all add: vl_regions_def)
    obtain l2 l3 where m: "vma_remove mem ?l1 (v_start c) (v_end c) = Some (True, l2)"
      "vma_remove mem l2 (v_start n) (v_end n) = Some (True, l3)"
      "merges mem ?l1 (snd (vma_add mem l3 (v_start c) (v_end n) (v_prot c) (v_flags c) (-1) 0))"
      "card (vl_regions (snd (vma_add mem l3 (v_start c) (v_end n) (v_prot c) (v_flags c) (-1) 0)))
         < card (vl_regions ?l1)"
      using merge_one[OF ok1(1) c] by metis
    let ?l4 = "snd (vma_add mem l3 (v_start c) (v_end n) (v_prot c) (v_flags c) (-1) 0)"
    have "card (vl_regions ?l4) < card (vl_regions l)" "vma_ok ?l4" using m(3,4) by (simp_all add: merges_def)
    from less.hyps[OF this] obtain l' where l': "vma_merge_loop mem ?l4 = Some l'" "merges mem ?l4 l'"
      "(\<forall>n. mem n) \<longrightarrow> fully_merged l'" by blast
    have "merges mem l l'" using merges_trans[OF merges_trans[OF ok1(2) m(3)] l'(2)] .
    then show ?thesis using go m(1,2) l' by (subst vma_merge_loop.simps) (simp add: vl_alloc_def)
  qed
qed

lemma fully_merged_small:
  assumes "vma_ok l" "vl_count l < 2"
  shows "fully_merged l"
proof -
  have "card (vl_regions l) \<le> 1" using assms by (simp add: vma_ok_def)
  then have "x = y" if "x \<in> vl_regions l" "y \<in> vl_regions l" for x y
    using that card_le_Suc0_iff_eq[of "vl_regions l"] by simp
  moreover have "\<not> mergeable x x" if "x \<in> vl_regions l" for x
    using that vl_regions_disjoint[OF assms(1)] by (auto simp: mergeable_def disjoint_regions_def)
  ultimately show ?thesis by (auto simp: fully_merged_def)
qed

section \<open>Height of the tree\<close>

lemma card_regions_Vma:
  "bst (Vma l d m h r) \<Longrightarrow> card (regions (Vma l d m h r)) = card (regions l) + card (regions r) + 1"
proof -
  assume b: "bst (Vma l d m h r)"
  have "regions l \<inter> regions r = {}" "d \<notin> regions l \<union> regions r" using b by force+
  then show ?thesis by (simp add: card_Un_disjoint)
qed

lemma avl_height_card:
  "avl t \<Longrightarrow> bst t \<Longrightarrow> 2 ^ (nat (get_height t) div 2) \<le> card (regions t) + 1"
proof (induction "nat (get_height t)" arbitrary: t rule: less_induct)
  case less
  show ?case
  proof (cases t)
    case (Vma l d m h r)
    have b: "bst l" "bst r" "avl l" "avl r" "h = 1 + max (get_height l) (get_height r)"
      "abs (get_height l - get_height r) \<le> 1"
      using less.prems unfolding Vma by auto
    have nn: "0 \<le> get_height l" "0 \<le> get_height r" using b height_nonneg by auto
    let ?k = "nat h div 2"
    have hl: "?k - 1 \<le> nat (get_height l) div 2" and hr: "?k - 1 \<le> nat (get_height r) div 2"
      using b(5,6) nn by linarith+
    have IHl: "2 ^ (nat (get_height l) div 2) \<le> card (regions l) + 1"
      and IHr: "2 ^ (nat (get_height r) div 2) \<le> card (regions r) + 1"
      by (rule less.hyps; use b nn Vma in \<open>simp add: max_def\<close>)+
    have "(2::nat) ^ ?k \<le> 2 ^ (?k - 1) + 2 ^ (?k - 1)" if "?k > 0"
      using that by (cases ?k) auto
    then have "(2::nat) ^ ?k \<le> 2 ^ (?k - 1) + 2 ^ (?k - 1)" by (cases "?k = 0") auto
    also have "\<dots> \<le> 2 ^ (nat (get_height l) div 2) + 2 ^ (nat (get_height r) div 2)"
      by (intro add_mono power_increasing hl hr) auto
    finally have "2 ^ ?k \<le> card (regions l) + card (regions r) + 2" using IHl IHr by linarith
    then show ?thesis using card_regions_Vma[of l d m h r] less.prems(2) by (simp add: Vma)
  qed simp
qed

end
