(* ===== verification/Kernel_List.thy ===== *)
theory Kernel_List
  imports Asc_Prelude
begin

text \<open>
  The intrusive circular lists of \<^verbatim>\<open>kernel/src/lib/list.h\<close>. A \<^verbatim>\<open>struct list_head\<close> is an
  address (a natural number, 0 for \<^verbatim>\<open>NULL\<close>); the store keeps the two pointers of the
  object at each address. The lemmas relate the pointer operations to operations on
  lists, for a family of lists that share one store.
\<close>

section \<open>The operations of list.h\<close>

record list_store =
  lnext :: "nat \<Rightarrow> nat"
  lprev :: "nat \<Rightarrow> nat"

abbreviation set_next :: "nat \<Rightarrow> nat \<Rightarrow> list_store \<Rightarrow> list_store" where
  "set_next a v h \<equiv> h\<lparr>lnext := (lnext h)(a := v)\<rparr>"

abbreviation set_prev :: "nat \<Rightarrow> nat \<Rightarrow> list_store \<Rightarrow> list_store" where
  "set_prev a v h \<equiv> h\<lparr>lprev := (lprev h)(a := v)\<rparr>"

definition INIT_LIST_HEAD :: "list_store \<Rightarrow> nat \<Rightarrow> list_store" where
  "INIT_LIST_HEAD h list = set_prev list list (set_next list list h)"

definition list_add_between :: "list_store \<Rightarrow> nat \<Rightarrow> nat \<Rightarrow> nat \<Rightarrow> list_store" where
  "list_add_between h newNode prev nxt =
     (let h1 = set_prev nxt newNode h;
          h2 = set_next newNode nxt h1;
          h3 = set_prev newNode prev h2
      in set_next prev newNode h3)"

definition list_add :: "list_store \<Rightarrow> nat \<Rightarrow> nat \<Rightarrow> list_store" where
  "list_add h newNode head = list_add_between h newNode head (lnext h head)"

definition list_add_tail :: "list_store \<Rightarrow> nat \<Rightarrow> nat \<Rightarrow> list_store" where
  "list_add_tail h newNode head = list_add_between h newNode (lprev h head) head"

definition list_del_between :: "list_store \<Rightarrow> nat \<Rightarrow> nat \<Rightarrow> list_store" where
  "list_del_between h prev nxt = set_next prev nxt (set_prev nxt prev h)"

definition HIGHER_HALF :: nat where
  "HIGHER_HALF = 0xFFFF800000000000"

definition list_del :: "list_store \<Rightarrow> nat \<Rightarrow> list_store" where
  "list_del h entry =
     (if entry = 0 \<or> lnext h entry = 0 \<or> lprev h entry = 0 then h
      else if lnext h entry < HIGHER_HALF \<or> lprev h entry < HIGHER_HALF then h
      else
        (let h1 = list_del_between h (lprev h entry) (lnext h entry);
             h2 = set_next entry 0 h1
         in set_prev entry 0 h2))"

definition list_empty :: "list_store \<Rightarrow> nat \<Rightarrow> bool" where
  "list_empty h head \<longleftrightarrow> lnext h head = head"

text \<open>\<^verbatim>\<open>list_first_entry\<close>, for structures whose node is their first member.\<close>

definition list_first_entry :: "list_store \<Rightarrow> nat \<Rightarrow> nat" where
  "list_first_entry h head = lnext h head"

text \<open>The nodes \<^verbatim>\<open>list_for_each\<close> visits from \<open>pos\<close>; \<open>None\<close> if it never gets back to the head.\<close>

partial_function (option) list_for_each :: "list_store \<Rightarrow> nat \<Rightarrow> nat \<Rightarrow> nat list option" where
  "list_for_each h head pos =
     (if pos = head then Some []
      else Option.bind (list_for_each h head (lnext h pos)) (\<lambda>ps. Some (pos # ps)))"

declare list_for_each.simps [code]

definition list_nodes :: "list_store \<Rightarrow> nat \<Rightarrow> nat list option" where
  "list_nodes h head = list_for_each h head (lnext h head)"

section \<open>Well-linked lists\<close>

fun dseg :: "list_store \<Rightarrow> nat \<Rightarrow> nat list \<Rightarrow> nat \<Rightarrow> bool" where
  "dseg h p [] q \<longleftrightarrow> lnext h p = q \<and> lprev h q = p"
| "dseg h p (x # xs) q \<longleftrightarrow> lnext h p = x \<and> lprev h x = p \<and> dseg h x xs q"

definition dlist :: "list_store \<Rightarrow> nat \<Rightarrow> nat list \<Rightarrow> bool" where
  "dlist h head xs \<longleftrightarrow> dseg h head xs head \<and> distinct (head # xs)"

lemma dseg_append: "dseg h p (xs @ y # ys) q \<longleftrightarrow> dseg h p xs y \<and> dseg h y ys q"
  by (induction xs arbitrary: p) auto

lemma dseg_frame:
  assumes "dseg h p xs q" "\<forall>x\<in>set (p # xs). lnext h' x = lnext h x" "\<forall>x\<in>set (q # xs). lprev h' x = lprev h x"
  shows "dseg h' p xs q"
  using assms by (induction xs arbitrary: p) auto

lemma dseg_first: "dseg h p xs q \<Longrightarrow> lnext h p = hd (xs @ [q])"
  by (cases xs) auto

lemma dseg_last: "dseg h p xs q \<Longrightarrow> lprev h q = last (p # xs)"
  by (induction xs arbitrary: p) auto

text \<open>Redirecting the end of a segment to another node.\<close>

lemma dseg_retarget:
  assumes "dseg h p xs q" "distinct (p # xs)"
    and "\<forall>x\<in>set (p # xs). x \<noteq> last (p # xs) \<longrightarrow> lnext h' x = lnext h x"
    and "\<forall>x\<in>set xs. lprev h' x = lprev h x"
    and "lnext h' (last (p # xs)) = r" "lprev h' r = last (p # xs)"
  shows "dseg h' p xs r"
  using assms
proof (induction xs arbitrary: p)
  case (Cons x xs)
  have ne: "p \<noteq> last (x # xs)" using Cons.prems(2) last_in_set[of "x # xs"] by auto
  have "dseg h' x xs r" by (rule Cons.IH) (use Cons.prems in auto)
  then show ?case using Cons.prems ne by auto
qed simp

lemma list_nodes_dlist:
  assumes "dlist h head xs"
  shows "list_nodes h head = Some xs"
proof -
  have "list_for_each h head (lnext h p) = Some ys" if "dseg h p ys head" "head \<notin> set ys" for p ys
    using that by (induction ys arbitrary: p) (simp_all add: list_for_each.simps)
  then show ?thesis using assms by (simp add: dlist_def list_nodes_def)
qed

lemma list_empty_dlist: "dlist h head xs \<Longrightarrow> list_empty h head \<longleftrightarrow> xs = []"
  by (cases xs) (auto simp: dlist_def list_empty_def)

lemma list_first_entry_dlist: "dlist h head (x # xs) \<Longrightarrow> list_first_entry h head = x"
  by (auto simp: dlist_def list_first_entry_def)

lemma INIT_LIST_HEAD_dlist: "dlist (INIT_LIST_HEAD h head) head []"
  by (simp add: dlist_def INIT_LIST_HEAD_def)

lemma list_add_tail_dlist:
  assumes "dlist h head xs" "n \<notin> set (head # xs)"
  shows "dlist (list_add_tail h n head) head (xs @ [n])"
proof -
  let ?p = "last (head # xs)"
  have s: "dseg h head xs head" "distinct (head # xs)" using assms by (auto simp: dlist_def)
  have p: "lprev h head = ?p" using dseg_last[OF s(1)] .
  have pn: "?p \<in> set (head # xs)" by (rule last_in_set) simp
  have "dseg (list_add_tail h n head) head xs n"
    by (rule dseg_retarget[OF s]) (use assms(2) pn s(2) p in \<open>auto simp: list_add_tail_def list_add_between_def Let_def simp del: last.simps\<close>)
  then show ?thesis using assms s pn p
    by (auto simp: dlist_def dseg_append list_add_tail_def list_add_between_def Let_def simp del: last.simps)
qed

lemma list_add_dlist:
  assumes "dlist h head xs" "n \<notin> set (head # xs)"
  shows "dlist (list_add h n head) head (n # xs)"
proof (cases xs)
  case Nil
  then show ?thesis using assms by (auto simp: dlist_def list_add_def list_add_between_def Let_def)
next
  case (Cons x ys)
  have s: "dseg h x ys head" "lnext h head = x" using assms(1) by (auto simp: dlist_def Cons)
  have "dseg (list_add h n head) x ys head"
    by (rule dseg_frame[OF s(1)])
      (use assms in \<open>auto simp: dlist_def Cons list_add_def list_add_between_def Let_def\<close>)
  then show ?thesis using assms s
    by (auto simp: dlist_def Cons list_add_def list_add_between_def Let_def)
qed

lemma list_del_frame:
  assumes "a \<noteq> n"
  shows "a \<noteq> lprev h n \<Longrightarrow> lnext (list_del h n) a = lnext h a"
    "a \<noteq> lnext h n \<Longrightarrow> lprev (list_del h n) a = lprev h a"
  using assms by (auto simp: list_del_def list_del_between_def Let_def)

lemma list_del_dlist:
  assumes d: "dlist h head (ys @ n # zs)" and hh: "\<forall>x\<in>set (head # ys @ n # zs). HIGHER_HALF \<le> x"
  shows "dlist (list_del h n) head (ys @ zs)"
    "lnext (list_del h n) n = 0" "lprev (list_del h n) n = 0"
proof -
  let ?p = "last (head # ys)" and ?q = "hd (zs @ [head])" and ?h = "list_del h n"
  have s: "dseg h head ys n" "dseg h n zs head" "distinct (head # ys @ n # zs)"
    using d by (auto simp: dlist_def dseg_append)
  have p: "lprev h n = ?p" and q: "lnext h n = ?q" using dseg_last[OF s(1)] dseg_first[OF s(2)] by auto
  have pin: "?p \<in> set (head # ys)" by (rule last_in_set) simp
  have qin: "?q \<in> set (zs @ [head])" by (rule hd_in_set) simp
  have pq: "HIGHER_HALF \<le> ?p" "HIGHER_HALF \<le> ?q" "HIGHER_HALF \<le> n" "0 < HIGHER_HALF"
    using hh pin qin by (auto simp: HIGHER_HALF_def)
  have del: "?h = set_prev n 0 (set_next n 0 (set_next ?p ?q (set_prev ?q ?p h)))"
    using pq p q by (auto simp: list_del_def list_del_between_def Let_def)
  show "lnext ?h n = 0" "lprev ?h n = 0" unfolding del by simp_all
  have pn: "?p \<noteq> n" "?q \<noteq> n" using s(3) pin qin by auto
  have left: "dseg ?h head ys ?q"
    by (rule dseg_retarget[OF s(1)]) (use s(3) pn qin in \<open>auto simp: del simp del: last.simps\<close>)
  have "dseg ?h head (ys @ zs) head"
  proof (cases zs)
    case Nil
    then show ?thesis using left by simp
  next
    case (Cons z zs')
    have "dseg h z zs' head" using s(2) by (simp add: Cons)
    then have "dseg ?h z zs' head"
      by (rule dseg_frame) (use s(3) pn pin Cons in \<open>auto simp: del simp del: last.simps\<close>)
    then show ?thesis using left by (simp add: Cons dseg_append)
  qed
  then show "dlist ?h head (ys @ zs)" using s(3) by (simp add: dlist_def)
qed

section \<open>A family of lists in one store\<close>

text \<open>
  The lists with heads \<open>hdr 0, ..., hdr (N - 1)\<close> and contents \<open>L\<close>: each well linked, all
  nodes and heads in the upper half of the address space, no node or head shared.
\<close>

definition list_family :: "list_store \<Rightarrow> nat \<Rightarrow> (nat \<Rightarrow> nat) \<Rightarrow> (nat \<Rightarrow> nat list) \<Rightarrow> bool" where
  "list_family h N hdr L \<longleftrightarrow>
     (\<forall>i<N. dlist h (hdr i) (L i)) \<and>
     (\<forall>i<N. \<forall>x\<in>set (hdr i # L i). HIGHER_HALF \<le> x) \<and>
     (\<forall>i<N. \<forall>j<N. i \<noteq> j \<longrightarrow> set (hdr i # L i) \<inter> set (hdr j # L j) = {})"

lemma dlist_frame:
  assumes "dlist h head xs" "\<forall>x\<in>set (head # xs). lnext h' x = lnext h x \<and> lprev h' x = lprev h x"
  shows "dlist h' head xs"
  using assms dseg_frame[of h head xs head h'] by (simp add: dlist_def)

lemma dlist_links:
  assumes "dlist h head xs" "x \<in> set (head # xs)"
  shows "lnext h x \<in> set (head # xs)" "lprev h x \<in> set (head # xs)"
proof -
  have n: "lnext h y \<in> set (q # ys)" if "dseg h p ys q" "y \<in> set (p # ys)" for y p ys q
    using that by (induction ys arbitrary: p) auto
  have v: "lprev h y \<in> set (p # ys)" if "dseg h p ys q" "y \<in> set (q # ys)" for y p ys q
    using that by (induction ys arbitrary: p) fastforce+
  show "lnext h x \<in> set (head # xs)" "lprev h x \<in> set (head # xs)"
    using n v assms unfolding dlist_def by blast+
qed

lemma list_family_add_tail:
  assumes f: "list_family h N hdr L" and i: "i < N"
    and n: "\<forall>j<N. n \<notin> set (hdr j # L j)" "HIGHER_HALF \<le> n"
  shows "list_family (list_add_tail h n (hdr i)) N hdr (L(i := L i @ [n]))"
proof -
  have d: "dlist h (hdr j) (L j)" if "j < N" for j using f that by (simp add: list_family_def)
  have p: "lprev h (hdr i) \<in> set (hdr i # L i)" using dlist_links(2)[OF d[OF i]] by simp
  have other: "dlist (list_add_tail h n (hdr i)) (hdr j) (L j)" if "j < N" "j \<noteq> i" for j
  proof (rule dlist_frame[OF d[OF that(1)]], rule ballI)
    fix x assume x: "x \<in> set (hdr j # L j)"
    have dis: "set (hdr i # L i) \<inter> set (hdr j # L j) = {}" using f i that by (auto simp: list_family_def)
    have "x \<noteq> n" using n(1) that(1) x by blast
    moreover have "x \<noteq> lprev h (hdr i)" "x \<noteq> hdr i" using dis p x by auto
    ultimately show "lnext (list_add_tail h n (hdr i)) x = lnext h x \<and> lprev (list_add_tail h n (hdr i)) x = lprev h x"
      by (simp add: list_add_tail_def list_add_between_def Let_def)
  qed
  have own: "dlist (list_add_tail h n (hdr i)) (hdr i) (L i @ [n])"
    using list_add_tail_dlist[OF d[OF i]] n(1) i by blast
  show ?thesis
    unfolding list_family_def
  proof (intro conjI allI impI)
    fix j assume "j < N"
    then show "dlist (list_add_tail h n (hdr i)) (hdr j) ((L(i := L i @ [n])) j)" using own other by auto
    show "\<forall>x\<in>set (hdr j # (L(i := L i @ [n])) j). HIGHER_HALF \<le> x"
      using f n(2) \<open>j < N\<close> by (auto simp: list_family_def)
  next
    fix j k assume jk: "j < N" "k < N" "j \<noteq> k"
    then have "set (hdr j # L j) \<inter> set (hdr k # L k) = {}" using f by (simp add: list_family_def)
    then show "set (hdr j # (L(i := L i @ [n])) j) \<inter> set (hdr k # (L(i := L i @ [n])) k) = {}"
      using n(1) jk by auto
  qed
qed

lemma list_family_links:
  assumes "list_family h N hdr L" "i < N" "n \<in> set (L i)"
  shows "lnext h n \<noteq> 0" "lprev h n \<noteq> 0"
proof -
  have "lnext h n \<in> set (hdr i # L i)" "lprev h n \<in> set (hdr i # L i)"
    using dlist_links[of h "hdr i" "L i" n] assms by (auto simp: list_family_def)
  then have "HIGHER_HALF \<le> lnext h n" "HIGHER_HALF \<le> lprev h n"
    using assms(1,2) unfolding list_family_def by blast+
  then show "lnext h n \<noteq> 0" "lprev h n \<noteq> 0" by (auto simp: HIGHER_HALF_def)
qed

lemma list_family_del:
  assumes f: "list_family h N hdr L" and i: "i < N" and n: "n \<in> set (L i)"
  shows "list_family (list_del h n) N hdr (L(i := remove1 n (L i)))"
proof -
  have d: "dlist h (hdr j) (L j)" if "j < N" for j using f that by (simp add: list_family_def)
  obtain ys zs where L: "L i = ys @ n # zs" "n \<notin> set ys" using split_list_first[OF n] by blast
  then have rem: "remove1 n (L i) = ys @ zs" by (simp add: remove1_append)
  have own: "dlist (list_del h n) (hdr i) (ys @ zs)"
  proof (rule list_del_dlist(1))
    show "dlist h (hdr i) (ys @ n # zs)" using d[OF i] L by simp
    show "\<forall>x\<in>set (hdr i # ys @ n # zs). HIGHER_HALF \<le> x" using f i L by (simp add: list_family_def)
  qed
  have pn: "lprev h n \<in> set (hdr i # L i)" "lnext h n \<in> set (hdr i # L i)"
    using dlist_links[OF d[OF i], of n] n by auto
  have other: "dlist (list_del h n) (hdr j) (L j)" if "j < N" "j \<noteq> i" for j
  proof (rule dlist_frame[OF d[OF that(1)]], rule ballI)
    fix x assume x: "x \<in> set (hdr j # L j)"
    have "set (hdr i # L i) \<inter> set (hdr j # L j) = {}" using f i that by (auto simp: list_family_def)
    then have "x \<noteq> n" "x \<noteq> lprev h n" "x \<noteq> lnext h n" using pn n x by auto
    then show "lnext (list_del h n) x = lnext h x \<and> lprev (list_del h n) x = lprev h x"
      by (simp add: list_del_frame)
  qed
  have sub: "set (hdr j # (L(i := remove1 n (L i))) j) \<subseteq> set (hdr j # L j)" for j
    using set_remove1_subset[of n "L i"] by auto
  show ?thesis
    unfolding list_family_def
  proof (intro conjI allI impI)
    fix j assume "j < N"
    then show "dlist (list_del h n) (hdr j) ((L(i := remove1 n (L i))) j)" using own other rem by auto
    show "\<forall>x\<in>set (hdr j # (L(i := remove1 n (L i))) j). HIGHER_HALF \<le> x"
      using f sub[of j] \<open>j < N\<close> unfolding list_family_def by blast
  next
    fix j k assume "j < N" "k < N" "j \<noteq> k"
    then have "set (hdr j # L j) \<inter> set (hdr k # L k) = {}" using f by (simp add: list_family_def)
    then show "set (hdr j # (L(i := remove1 n (L i))) j) \<inter> set (hdr k # (L(i := remove1 n (L i))) k) = {}"
      using sub[of j] sub[of k] by blast
  qed
qed

end
