(* ===== verification/Pmm_Bitmap.thy ===== *)
theory Pmm_Bitmap
  imports Asc_Prelude
begin

unbundle bit_operations_syntax

text \<open>
  The page bitmaps of \<^verbatim>\<open>kernel/src/mm/pmm.c\<close>: single bits, and the range operations that
  fill whole bytes in the middle of the range. A bitmap is the list of its bytes;
  \<open>lowest\<close> and \<open>highest\<close> are the page bounds \<^verbatim>\<open>lowest_page\<close> and \<^verbatim>\<open>highest_page\<close>.
\<close>

section \<open>Single bits\<close>

definition bitmap_clear :: "u8 list \<Rightarrow> nat \<Rightarrow> u8 list" where
  "bitmap_clear bm i = bm[i div 8 := (bm ! (i div 8)) AND NOT (push_bit (i mod 8) 1)]"

definition bitmap_test :: "u8 list \<Rightarrow> nat \<Rightarrow> bool" where
  "bitmap_test bm i \<longleftrightarrow> (bm ! (i div 8)) AND push_bit (i mod 8) 1 \<noteq> 0"

definition bitmap_set :: "u8 list \<Rightarrow> nat \<Rightarrow> u8 list" where
  "bitmap_set bm i = bm[i div 8 := (bm ! (i div 8)) OR push_bit (i mod 8) 1]"

section \<open>Ranges\<close>

text \<open>\<^verbatim>\<open>memset(&bm[i], v, n)\<close>\<close>

definition memset_bytes :: "u8 list \<Rightarrow> nat \<Rightarrow> u8 \<Rightarrow> nat \<Rightarrow> u8 list" where
  "memset_bytes bm i v n = map (\<lambda>j. if i \<le> j \<and> j < i + n then v else bm ! j) [0..<length bm]"

text \<open>The two bit-by-bit loops, for the operation \<open>f\<close> on one bit.\<close>

function bits_until_aligned ::
  "(u8 list \<Rightarrow> nat \<Rightarrow> u8 list) \<Rightarrow> u8 list \<Rightarrow> nat \<Rightarrow> nat \<Rightarrow> u8 list \<times> nat" where
  "bits_until_aligned f bm idx end_idx =
     (if idx < end_idx \<and> idx mod 8 \<noteq> 0 then bits_until_aligned f (f bm idx) (idx + 1) end_idx
      else (bm, idx))"
  by pat_completeness auto
termination by (relation "measure (\<lambda>(f, bm, idx, end_idx). end_idx - idx)") auto

function bits_until_end ::
  "(u8 list \<Rightarrow> nat \<Rightarrow> u8 list) \<Rightarrow> u8 list \<Rightarrow> nat \<Rightarrow> nat \<Rightarrow> u8 list" where
  "bits_until_end f bm idx end_idx =
     (if idx < end_idx then bits_until_end f (f bm idx) (idx + 1) end_idx else bm)"
  by pat_completeness auto
termination by (relation "measure (\<lambda>(f, bm, idx, end_idx). end_idx - idx)") auto

declare bits_until_aligned.simps [simp del] bits_until_end.simps [simp del]

text \<open>The body shared by the two range operations: head bits, whole bytes, tail bits.\<close>

definition bitmap_fill ::
  "(u8 list \<Rightarrow> nat \<Rightarrow> u8 list) \<Rightarrow> u8 \<Rightarrow> u8 list \<Rightarrow> nat \<Rightarrow> nat \<Rightarrow> u8 list" where
  "bitmap_fill f v bm idx0 end_idx =
     (let (bm1, idx1) = bits_until_aligned f bm idx0 end_idx;
          full_bytes = (if end_idx > idx1 then (end_idx - idx1) div 8 else 0);
          (bm2, idx2) = (if full_bytes > 0
                         then (memset_bytes bm1 (idx1 div 8) v full_bytes, idx1 + full_bytes * 8)
                         else (bm1, idx1))
      in bits_until_end f bm2 idx2 end_idx)"

text \<open>\<^verbatim>\<open>count\<close> is clipped at the upper page bound; the sum is taken modulo \<open>2 ^ 64\<close>.\<close>

definition clip_count :: "nat \<Rightarrow> nat \<Rightarrow> nat \<Rightarrow> nat" where
  "clip_count highest start_bit count =
     (if (start_bit + count) mod 2 ^ 64 > highest then highest - start_bit else count)"

definition bitmap_set_range :: "nat \<Rightarrow> nat \<Rightarrow> u8 list \<Rightarrow> nat \<Rightarrow> nat \<Rightarrow> u8 list" where
  "bitmap_set_range lowest highest bm start_bit count =
     (if start_bit < lowest then bm
      else if start_bit \<ge> highest then bm
      else
        (let count' = clip_count highest start_bit count;
             idx = start_bit - lowest
         in bitmap_fill bitmap_set 0xFF bm idx (idx + count')))"

definition bitmap_clear_range :: "nat \<Rightarrow> nat \<Rightarrow> u8 list \<Rightarrow> nat \<Rightarrow> nat \<Rightarrow> u8 list" where
  "bitmap_clear_range lowest highest bm start_bit count =
     (if start_bit < lowest then bm
      else if start_bit \<ge> highest then bm
      else
        (let count' = clip_count highest start_bit count;
             idx = start_bit - lowest
         in bitmap_fill bitmap_clear 0 bm idx (idx + count')))"

section \<open>Correctness\<close>

lemma length_bitmap_ops [simp]:
  "length (bitmap_set bm i) = length bm" "length (bitmap_clear bm i) = length bm"
  "length (memset_bytes bm i v n) = length bm"
  by (simp_all add: bitmap_set_def bitmap_clear_def memset_bytes_def)

lemma bitmap_test_bit: "bitmap_test bm i \<longleftrightarrow> bit (bm ! (i div 8)) (i mod 8)"
  by (simp add: bitmap_test_def bit_iff_and_push_bit_not_eq_0)

lemma bitmap_test_set:
  assumes "i div 8 < length bm"
  shows "bitmap_test (bitmap_set bm i) j \<longleftrightarrow> j = i \<or> bitmap_test bm j"
proof (cases "i div 8 = j div 8")
  case True
  moreover have "j = i \<longleftrightarrow> j mod 8 = i mod 8" using True by (metis div_mod_decomp)
  ultimately show ?thesis using assms
    by (auto simp: bitmap_test_bit bitmap_set_def bit_or_iff bit_exp_iff)
next
  case False
  then show ?thesis by (auto simp: bitmap_test_bit bitmap_set_def)
qed

lemma bitmap_test_clear:
  assumes "i div 8 < length bm"
  shows "bitmap_test (bitmap_clear bm i) j \<longleftrightarrow> j \<noteq> i \<and> bitmap_test bm j"
proof (cases "i div 8 = j div 8")
  case True
  moreover have "j = i \<longleftrightarrow> j mod 8 = i mod 8" using True by (metis div_mod_decomp)
  ultimately show ?thesis using assms
    by (auto simp: bitmap_test_bit bitmap_clear_def bit_and_iff bit_not_iff bit_exp_iff)
next
  case False
  then show ?thesis by (auto simp: bitmap_test_bit bitmap_clear_def)
qed

lemma bitmap_test_memset:
  assumes "j div 8 < length bm"
  shows "bitmap_test (memset_bytes bm i 0xFF n) j \<longleftrightarrow> i \<le> j div 8 \<and> j div 8 < i + n \<or> bitmap_test bm j"
    "bitmap_test (memset_bytes bm i 0 n) j \<longleftrightarrow> \<not> (i \<le> j div 8 \<and> j div 8 < i + n) \<and> bitmap_test bm j"
proof -
  have "bit (0xFF :: u8) (j mod 8)"
    using mask_eq_exp_minus_1[of 8, where 'a = u8] bit_mask_iff[of 8 "j mod 8", where 'a = u8] by simp
  then show "bitmap_test (memset_bytes bm i 0xFF n) j \<longleftrightarrow> i \<le> j div 8 \<and> j div 8 < i + n \<or> bitmap_test bm j"
    "bitmap_test (memset_bytes bm i 0 n) j \<longleftrightarrow> \<not> (i \<le> j div 8 \<and> j div 8 < i + n) \<and> bitmap_test bm j"
    using assms by (auto simp: bitmap_test_bit memset_bytes_def)
qed

text \<open>
  What one bit operation with fill byte \<open>v\<close> does to the bits: \<open>g\<close> is the value
  it gives to the bits it touches.
\<close>

definition bit_writer :: "(u8 list \<Rightarrow> nat \<Rightarrow> u8 list) \<Rightarrow> u8 \<Rightarrow> bool \<Rightarrow> bool" where
  "bit_writer f v g \<longleftrightarrow>
     (\<forall>bm i. length (f bm i) = length bm) \<and>
     (\<forall>bm i j. i div 8 < length bm \<longrightarrow> bitmap_test (f bm i) j = (if j = i then g else bitmap_test bm j)) \<and>
     (\<forall>bm i n j. j div 8 < length bm \<longrightarrow>
        bitmap_test (memset_bytes bm i v n) j = (if i \<le> j div 8 \<and> j div 8 < i + n then g else bitmap_test bm j))"

lemma bit_writers: "bit_writer bitmap_set 0xFF True" "bit_writer bitmap_clear 0 False"
  by (auto simp: bit_writer_def bitmap_test_set bitmap_test_clear bitmap_test_memset)

lemma bits_until_end_spec:
  assumes "bit_writer f v g" "end_idx \<le> 8 * length bm"
  shows "length (bits_until_end f bm idx end_idx) = length bm \<and>
    (bitmap_test (bits_until_end f bm idx end_idx) j = (if idx \<le> j \<and> j < end_idx then g else bitmap_test bm j))"
  using assms
proof (induction f bm idx end_idx rule: bits_until_end.induct)
  case (1 f bm idx end_idx)
  show ?case
  proof (cases "idx < end_idx")
    case True
    then have "idx div 8 < length bm" using "1.prems"(2) by auto
    then have w: "length (f bm idx) = length bm"
      "bitmap_test (f bm idx) j = (if j = idx then g else bitmap_test bm j)"
      using "1.prems"(1) by (auto simp: bit_writer_def)
    then show ?thesis using "1.IH"[OF True "1.prems"(1)] "1.prems"(2) True
      by (subst (1 2) bits_until_end.simps) auto
  next
    case False
    then show ?thesis by (subst (1 2) bits_until_end.simps) auto
  qed
qed

lemma bits_until_aligned_spec:
  assumes "bit_writer f v g" "end_idx \<le> 8 * length bm" "bits_until_aligned f bm idx end_idx = (bm', idx')"
  shows "length bm' = length bm \<and> idx \<le> idx' \<and> (idx' \<le> end_idx \<or> idx' = idx) \<and> (idx' < end_idx \<longrightarrow> 8 dvd idx') \<and>
    (bitmap_test bm' j = (if idx \<le> j \<and> j < idx' then g else bitmap_test bm j))"
  using assms
proof (induction f bm idx end_idx rule: bits_until_aligned.induct)
  case (1 f bm idx end_idx)
  show ?case
  proof (cases "idx < end_idx \<and> idx mod 8 \<noteq> 0")
    case True
    then have "idx div 8 < length bm" using "1.prems"(2) by auto
    then have w: "length (f bm idx) = length bm"
      "bitmap_test (f bm idx) j = (if j = idx then g else bitmap_test bm j)"
      using "1.prems"(1) by (auto simp: bit_writer_def)
    have "bits_until_aligned f (f bm idx) (idx + 1) end_idx = (bm', idx')"
      using "1.prems"(3) True by (subst (asm) bits_until_aligned.simps) simp
    then have ih: "length bm' = length (f bm idx)" "idx + 1 \<le> idx'" "idx' \<le> end_idx \<or> idx' = idx + 1"
      "idx' < end_idx \<longrightarrow> 8 dvd idx'"
      "bitmap_test bm' j = (if idx + 1 \<le> j \<and> j < idx' then g else bitmap_test (f bm idx) j)"
      using "1.IH"[OF True "1.prems"(1)] "1.prems"(2) w(1) by auto
    have "bitmap_test bm' j = (if idx \<le> j \<and> j < idx' then g else bitmap_test bm j)"
      unfolding ih(5) w(2) using ih(2) by (cases "j = idx") auto
    then show ?thesis using ih(1-4) w(1) True by auto
  next
    case False
    then have "bits_until_aligned f bm idx end_idx = (bm, idx)"
      by (subst bits_until_aligned.simps) (rule if_not_P)
    then have "bm' = bm" "idx' = idx" using "1.prems"(3) by simp_all
    then show ?thesis using False by (auto simp: dvd_eq_mod_eq_0)
  qed
qed

text \<open>The routine with the byte fill equals the plain bit-by-bit definition.\<close>

lemma bitmap_fill_spec:
  assumes w: "bit_writer f v g" and b: "end_idx \<le> 8 * length bm" "idx \<le> end_idx" and j: "j < 8 * length bm"
  shows "length (bitmap_fill f v bm idx end_idx) = length bm \<and>
    bitmap_test (bitmap_fill f v bm idx end_idx) j = (if idx \<le> j \<and> j < end_idx then g else bitmap_test bm j)"
proof -
  obtain bm1 i1 where 1: "bits_until_aligned f bm idx end_idx = (bm1, i1)" by fastforce
  note s1 = bits_until_aligned_spec[OF w b(1) 1, of j]
  define n where "n = (if end_idx > i1 then (end_idx - i1) div 8 else 0)"
  define bm2 where "bm2 = (if n > 0 then memset_bytes bm1 (i1 div 8) v n else bm1)"
  define i2 where "i2 = (if n > 0 then i1 + n * 8 else i1)"
  have eq: "bitmap_fill f v bm idx end_idx = bits_until_end f bm2 i2 end_idx"
    by (simp add: bitmap_fill_def 1 n_def[symmetric] bm2_def i2_def Let_def)
  have len: "length bm2 = length bm" using s1 by (simp add: bm2_def)
  have mid: "i1 div 8 \<le> j div 8 \<and> j div 8 < i1 div 8 + n \<longleftrightarrow> i1 \<le> j \<and> j < i1 + n * 8" if "n > 0"
  proof -
    have "8 dvd i1" using s1 that by (auto simp: n_def split: if_splits)
    then show ?thesis by (auto simp: dvd_def)
  qed
  have t2: "bitmap_test bm2 j = (if i1 \<le> j \<and> j < i2 then g else bitmap_test bm1 j)"
    using w j s1 mid by (auto simp: bm2_def i2_def bit_writer_def)
  have i2: "i1 \<le> i2" "i2 \<le> end_idx" using s1 b(2) by (auto simp: i2_def n_def)
  show ?thesis
    using bits_until_end_spec[OF w, of end_idx bm2 i2 j] len b(1) t2 s1 i2 unfolding eq by auto
qed

lemma bitmap_range_clipped:
  assumes "start + count < 2 ^ 64" "highest - lowest \<le> 8 * length bm" "j < 8 * length bm"
  defines "inside \<equiv> lowest \<le> start \<and> start < highest \<and> start \<le> lowest + j \<and> lowest + j < min (start + count) highest"
  shows "length (bitmap_set_range lowest highest bm start count) = length bm"
    "length (bitmap_clear_range lowest highest bm start count) = length bm"
    "bitmap_test (bitmap_set_range lowest highest bm start count) j \<longleftrightarrow> inside \<or> bitmap_test bm j"
    "bitmap_test (bitmap_clear_range lowest highest bm start count) j \<longleftrightarrow> \<not> inside \<and> bitmap_test bm j"
proof -
  let ?c = "clip_count highest start count" and ?i = "start - lowest"
  have c: "?c = min (start + count) highest - start" if "start < highest"
    using assms(1) that by (auto simp: clip_count_def)
  have b: "?i + ?c \<le> 8 * length bm" if "lowest \<le> start" "start < highest" using c[OF that(2)] that assms(2) by linarith
  note s = bitmap_fill_spec[OF bit_writers(1) b _ assms(3)] bitmap_fill_spec[OF bit_writers(2) b _ assms(3)]
  have in_eq: "inside \<longleftrightarrow> ?i \<le> j \<and> j < ?i + ?c" if "lowest \<le> start" "start < highest"
    using c[OF that(2)] that unfolding inside_def by auto
  show "length (bitmap_set_range lowest highest bm start count) = length bm"
    "bitmap_test (bitmap_set_range lowest highest bm start count) j \<longleftrightarrow> inside \<or> bitmap_test bm j"
    using s(1) in_eq by (auto simp: bitmap_set_range_def Let_def inside_def not_less not_le split: if_splits)
  show "length (bitmap_clear_range lowest highest bm start count) = length bm"
    "bitmap_test (bitmap_clear_range lowest highest bm start count) j \<longleftrightarrow> \<not> inside \<and> bitmap_test bm j"
    using s(2) in_eq by (auto simp: bitmap_clear_range_def Let_def inside_def not_less not_le split: if_splits)
qed

lemma bitmap_range_spec:
  assumes "lowest \<le> p" "p + count \<le> highest" "highest < 2 ^ 64" "highest - lowest \<le> 8 * length bm" "0 < count"
    "j < 8 * length bm"
  shows "length (bitmap_set_range lowest highest bm p count) = length bm"
    "length (bitmap_clear_range lowest highest bm p count) = length bm"
    "bitmap_test (bitmap_set_range lowest highest bm p count) j \<longleftrightarrow>
       p - lowest \<le> j \<and> j < p - lowest + count \<or> bitmap_test bm j"
    "bitmap_test (bitmap_clear_range lowest highest bm p count) j \<longleftrightarrow>
       \<not> (p - lowest \<le> j \<and> j < p - lowest + count) \<and> bitmap_test bm j"
  using bitmap_range_clipped[of p count highest lowest bm j] assms by auto

end
