(* ===== verification/Pmm.thy ===== *)
theory Pmm
  imports Kernel_List Pmm_Bitmap
begin

unbundle bit_operations_syntax

text \<open>
  The physical page allocator of \<^verbatim>\<open>kernel/src/mm/pmm.c\<close>: a buddy allocator whose free
  blocks are linked through the free pages themselves, with a bitmap of the used pages, a
  bitmap of the managed pages and a reference count per page. Page numbers, addresses and sizes are
  natural numbers; the invariant bounds them below \<open>2 ^ 64\<close>. A call runs under the zone
  lock and is one step of the model.
\<close>

section \<open>State\<close>

definition PAGE_SIZE :: nat where "PAGE_SIZE = 4096"

definition MAX_ORDER :: nat where "MAX_ORDER = 20"

datatype memmap_type =
    MEMMAP_USABLE
  | MEMMAP_RESERVED
  | MEMMAP_ACPI_RECLAIMABLE
  | MEMMAP_ACPI_NVS
  | MEMMAP_BAD_MEMORY
  | MEMMAP_BOOTLOADER_RECLAIMABLE
  | MEMMAP_EXECUTABLE_AND_MODULES
  | MEMMAP_FRAMEBUFFER

record memmap_entry =
  me_base :: nat
  me_length :: nat
  me_type :: memmap_type

text \<open>
  The static variables of the file. \<open>zone\<close> is the address of \<^verbatim>\<open>b_zone\<close>; \<open>store\<close> and
  \<open>block_order\<close> hold the \<^verbatim>\<open>node\<close> and \<^verbatim>\<open>order\<close> members of the \<^verbatim>\<open>struct buddy_block\<close> at each
  address, and the list heads of the zone. An empty byte list stands for a \<^verbatim>\<open>NULL\<close> bitmap.
\<close>

record pmm_state =
  zone :: nat
  store :: list_store
  block_order :: "nat \<Rightarrow> nat"
  bitmap :: "u8 list"
  managed_bitmap :: "u8 list"
  refcounts :: "u16 list"
  bitmap_size :: nat
  lowest_page :: nat
  highest_page :: nat
  page_count :: nat
  usable_memory :: nat
  total_memory :: nat
  physical_memory_offset :: nat
  internal_memmap :: "memmap_entry list option"

text \<open>The address of \<^verbatim>\<open>b_zone.free_list[order]\<close>: \<^verbatim>\<open>struct list_head\<close> takes 16 bytes.\<close>

definition free_list :: "pmm_state \<Rightarrow> nat \<Rightarrow> nat" where
  "free_list s order = zone s + 16 * order"

definition virt_to_buddy :: "pmm_state \<Rightarrow> nat \<Rightarrow> nat" where
  "virt_to_buddy s phys = (phys + physical_memory_offset s) mod 2 ^ 64"

definition buddy_to_phys :: "pmm_state \<Rightarrow> nat \<Rightarrow> nat" where
  "buddy_to_phys s block = (block + (2 ^ 64 - physical_memory_offset s)) mod 2 ^ 64"

text \<open>
  \<^verbatim>\<open>get_order\<close>: \<^verbatim>\<open>size\<close> doubles modulo \<open>2 ^ 64\<close>, so the loop has no end for a count above
  \<open>2 ^ 63\<close>; \<open>None\<close> stands for that.
\<close>

partial_function (option) get_order_loop :: "nat \<Rightarrow> nat \<Rightarrow> nat \<Rightarrow> nat option" where
  "get_order_loop count sz order =
     (if sz < count then get_order_loop count ((sz * 2) mod 2 ^ 64) (order + 1) else Some order)"

declare get_order_loop.simps [code]

definition get_order :: "nat \<Rightarrow> nat option" where
  "get_order count = get_order_loop count 1 0"

definition pmm_get_free_pages :: "pmm_state \<Rightarrow> nat option" where
  "pmm_get_free_pages s =
     fold (\<lambda>order free_pages.
             Option.bind free_pages (\<lambda>n.
               Option.bind (list_nodes (store s) (free_list s order)) (\<lambda>nodes.
                 Some (n + length nodes * 2 ^ order))))
       [0..<MAX_ORDER] (Some 0)"

definition pmm_is_managed :: "pmm_state \<Rightarrow> nat \<Rightarrow> bool" where
  "pmm_is_managed s phys =
     (let pfn = phys div PAGE_SIZE in
      if pfn < lowest_page s \<or> pfn \<ge> highest_page s \<or> managed_bitmap s = [] then False
      else bitmap_test (managed_bitmap s) (pfn - lowest_page s))"

section \<open>Freeing a block\<close>

definition mark_free :: "pmm_state \<Rightarrow> nat \<Rightarrow> nat \<Rightarrow> pmm_state" where
  "mark_free s pfn count =
     s\<lparr>bitmap := bitmap_clear_range (lowest_page s) (highest_page s) (bitmap s) pfn count\<rparr>"

definition mark_used :: "pmm_state \<Rightarrow> nat \<Rightarrow> nat \<Rightarrow> pmm_state" where
  "mark_used s pfn count =
     s\<lparr>bitmap := bitmap_set_range (lowest_page s) (highest_page s) (bitmap s) pfn count\<rparr>"

definition mark_managed :: "pmm_state \<Rightarrow> nat \<Rightarrow> nat \<Rightarrow> pmm_state" where
  "mark_managed s pfn count =
     s\<lparr>managed_bitmap := bitmap_set_range (lowest_page s) (highest_page s) (managed_bitmap s) pfn count\<rparr>"

text \<open>Unlink a block, and link a block of a given order at the end of its free list.\<close>

definition unlink_block :: "pmm_state \<Rightarrow> nat \<Rightarrow> pmm_state" where
  "unlink_block s block = s\<lparr>store := list_del (store s) block\<rparr>"

definition link_block :: "pmm_state \<Rightarrow> nat \<Rightarrow> nat \<Rightarrow> pmm_state" where
  "link_block s phys order =
     (let block = virt_to_buddy s phys
      in s\<lparr>block_order := (block_order s)(block := order),
           store := list_add_tail (store s) block (free_list s order)\<rparr>)"

text \<open>The coalescing loop of \<^verbatim>\<open>buddy_free_internal\<close>.\<close>

function buddy_coalesce :: "pmm_state \<Rightarrow> nat \<Rightarrow> nat \<Rightarrow> pmm_state \<times> nat \<times> nat" where
  "buddy_coalesce s pfn order =
     (if order < MAX_ORDER - 1 then
        (let buddy_pfn = pfn XOR 2 ^ order in
         if buddy_pfn < lowest_page s \<or> buddy_pfn \<ge> highest_page s \<or>
            \<not> pmm_is_managed s (buddy_pfn * PAGE_SIZE) \<or>
            bitmap_test (bitmap s) (buddy_pfn - lowest_page s)
         then (s, pfn, order)
         else
           (let buddy = virt_to_buddy s (buddy_pfn * PAGE_SIZE) in
            if block_order s buddy = order \<and> lnext (store s) buddy \<noteq> 0 \<and> lprev (store s) buddy \<noteq> 0
            then buddy_coalesce (unlink_block s buddy)
                   (if pfn < buddy_pfn then pfn else buddy_pfn) (order + 1)
            else (s, pfn, order)))
      else (s, pfn, order))"
  by pat_completeness auto
termination by (relation "measure (\<lambda>(s, pfn, order). MAX_ORDER - order)") (auto simp: MAX_ORDER_def)

declare buddy_coalesce.simps [simp del]

definition buddy_free_internal :: "pmm_state \<Rightarrow> nat \<Rightarrow> nat \<Rightarrow> pmm_state" where
  "buddy_free_internal s phys order =
     (let pfn = phys div PAGE_SIZE;
          (s1, pfn1, order1) = buddy_coalesce (mark_free s pfn (2 ^ order)) pfn order
      in link_block s1 (pfn1 * PAGE_SIZE) order1)"

section \<open>Allocation\<close>

text \<open>The first order from \<open>cur_order\<close> on with a free block.\<close>

function first_nonempty :: "pmm_state \<Rightarrow> nat \<Rightarrow> nat" where
  "first_nonempty s cur_order =
     (if cur_order < MAX_ORDER \<and> list_empty (store s) (free_list s cur_order)
      then first_nonempty s (cur_order + 1) else cur_order)"
  by pat_completeness auto
termination by (relation "measure (\<lambda>(s, cur_order). MAX_ORDER - cur_order)") auto

declare first_nonempty.simps [simp del]

text \<open>Split a block down to the requested order, linking each upper half.\<close>

fun split_down :: "pmm_state \<Rightarrow> nat \<Rightarrow> nat \<Rightarrow> nat \<Rightarrow> pmm_state" where
  "split_down s pfn 0 order = s"
| "split_down s pfn (Suc cur_order) order =
     (if Suc cur_order > order
      then split_down (link_block s ((pfn + 2 ^ cur_order) * PAGE_SIZE) cur_order) pfn cur_order order
      else s)"

text \<open>\<^verbatim>\<open>refcounts[pfn + i - lowest_page] = f\<close> of the old value, for the first \<open>n\<close> pages.\<close>

definition map_refs :: "pmm_state \<Rightarrow> (u16 \<Rightarrow> u16) \<Rightarrow> nat \<Rightarrow> nat \<Rightarrow> pmm_state" where
  "map_refs s f pfn n =
     s\<lparr>refcounts := fold (\<lambda>i r. r[pfn + i - lowest_page s := f (r ! (pfn + i - lowest_page s))])
                      [0..<n] (refcounts s)\<rparr>"

text \<open>A result of 0 is the \<^verbatim>\<open>NULL\<close> pointer; \<open>None\<close> stands for a call that does not return.\<close>

definition pmm_alloc_pages :: "pmm_state \<Rightarrow> nat \<Rightarrow> (nat \<times> pmm_state) option" where
  "pmm_alloc_pages s count =
     (if count = 0 then Some (0, s)
      else Option.bind (get_order count) (\<lambda>order.
        if order \<ge> MAX_ORDER then Some (0, s)
        else
          (let cur_order = first_nonempty s order in
           if cur_order = MAX_ORDER then Some (0, s)
           else
             (let block = list_first_entry (store s) (free_list s cur_order);
                  s1 = unlink_block s block;
                  pfn = buddy_to_phys s block div PAGE_SIZE;
                  s2 = split_down s1 pfn cur_order order;
                  s3 = mark_used s2 pfn (2 ^ order);
                  s4 = map_refs s3 (\<lambda>_. 1) pfn (2 ^ order)
              in Some (pfn * PAGE_SIZE, s4)))))"

definition pmm_alloc_page :: "pmm_state \<Rightarrow> (nat \<times> pmm_state) option" where
  "pmm_alloc_page s = pmm_alloc_pages s 1"

text \<open>The inner loop of the constrained allocators: the first block of a free list that fits.\<close>

partial_function (option) find_block ::
  "(nat \<Rightarrow> bool) \<Rightarrow> list_store \<Rightarrow> nat \<Rightarrow> nat \<Rightarrow> nat option option" where
  "find_block fits h head pos =
     (if pos = head then Some None
      else if fits pos then Some (Some pos)
      else find_block fits h head (lnext h pos))"

declare find_block.simps [code]

text \<open>
  The loop over the orders, for the test \<open>fits\<close> on the bounds of a block. A block that
  is found ends the function.
\<close>

function alloc_fitting ::
  "(nat \<Rightarrow> nat \<Rightarrow> bool) \<Rightarrow> pmm_state \<Rightarrow> nat \<Rightarrow> nat \<Rightarrow> (nat \<times> pmm_state) option" where
  "alloc_fitting fits s order cur_order =
     (if cur_order < MAX_ORDER then
        (case find_block
                (\<lambda>block. let phys = buddy_to_phys s block
                         in fits phys ((phys + 2 ^ cur_order * PAGE_SIZE) mod 2 ^ 64))
                (store s) (free_list s cur_order) (lnext (store s) (free_list s cur_order)) of
           None \<Rightarrow> None
         | Some None \<Rightarrow> alloc_fitting fits s order (cur_order + 1)
         | Some (Some found_block) \<Rightarrow>
             (let s1 = unlink_block s found_block;
                  pfn = buddy_to_phys s found_block div PAGE_SIZE;
                  s2 = split_down s1 pfn cur_order order;
                  s3 = mark_used s2 pfn (2 ^ order)
              in Some (pfn * PAGE_SIZE, s3)))
      else Some (0, s))"
  by pat_completeness auto
termination by (relation "measure (\<lambda>(fits, s, order, cur_order). MAX_ORDER - cur_order)") auto

declare alloc_fitting.simps [simp del]

definition pmm_alloc_pages_constrained :: "pmm_state \<Rightarrow> nat \<Rightarrow> nat \<Rightarrow> (nat \<times> pmm_state) option" where
  "pmm_alloc_pages_constrained s count max_phys_addr =
     (if count = 0 then Some (0, s)
      else Option.bind (get_order count) (\<lambda>order.
        if order \<ge> MAX_ORDER then Some (0, s)
        else alloc_fitting (\<lambda>phys block_end. block_end \<le> max_phys_addr) s order order))"

definition pmm_alloc_pages_range ::
  "pmm_state \<Rightarrow> nat \<Rightarrow> nat \<Rightarrow> nat \<Rightarrow> (nat \<times> pmm_state) option" where
  "pmm_alloc_pages_range s count min_phys_addr max_phys_addr =
     (if count = 0 then Some (0, s)
      else Option.bind (get_order count) (\<lambda>order.
        if order \<ge> MAX_ORDER then Some (0, s)
        else alloc_fitting
               (\<lambda>phys block_end. phys \<ge> min_phys_addr \<and> block_end \<le> max_phys_addr) s order order))"

section \<open>Freeing and reference counts\<close>

definition dec_ref :: "u16 \<Rightarrow> u16" where
  "dec_ref r = (if r > 0 then r - 1 else r)"

definition page_ref :: "pmm_state \<Rightarrow> nat \<Rightarrow> u16" where
  "page_ref s pfn = refcounts s ! (pfn - lowest_page s)"

definition pmm_free_pages :: "pmm_state \<Rightarrow> nat \<Rightarrow> nat \<Rightarrow> pmm_state option" where
  "pmm_free_pages s ptr count =
     (if ptr = 0 \<or> count = 0 then Some s
      else Option.bind (get_order count) (\<lambda>order.
        if order \<ge> MAX_ORDER then Some s
        else
          (let pfn = ptr div PAGE_SIZE in
           if pfn < lowest_page s \<or> pfn \<ge> highest_page s \<or>
              \<not> bitmap_test (managed_bitmap s) (pfn - lowest_page s) then Some s
           else if \<not> bitmap_test (bitmap s) (pfn - lowest_page s) then Some s
           else
             (let s1 = map_refs s dec_ref pfn (2 ^ order) in
              if page_ref s1 pfn = 0 then Some (buddy_free_internal s1 ptr order)
              else Some s1))))"

definition pmm_incref :: "pmm_state \<Rightarrow> nat \<Rightarrow> pmm_state" where
  "pmm_incref s ptr =
     (if ptr = 0 then s
      else if \<not> pmm_is_managed s ptr then s
      else
        (let i = ptr div PAGE_SIZE - lowest_page s
         in s\<lparr>refcounts := (refcounts s)[i := refcounts s ! i + 1]\<rparr>))"

definition pmm_decref :: "pmm_state \<Rightarrow> nat \<Rightarrow> pmm_state" where
  "pmm_decref s ptr =
     (if ptr = 0 then s
      else if \<not> pmm_is_managed s ptr then s
      else
        (let i = ptr div PAGE_SIZE - lowest_page s in
         if refcounts s ! i > 0 then
           (let s1 = s\<lparr>refcounts := (refcounts s)[i := refcounts s ! i - 1]\<rparr> in
            if refcounts s1 ! i = 0 then buddy_free_internal s1 ptr 0 else s1)
         else s))"

definition pmm_free_page :: "pmm_state \<Rightarrow> nat \<Rightarrow> pmm_state" where
  "pmm_free_page s ptr = pmm_decref s ptr"

definition pmm_get_ref :: "pmm_state \<Rightarrow> nat \<Rightarrow> u16" where
  "pmm_get_ref s ptr =
     (if ptr = 0 then 0
      else if \<not> pmm_is_managed s ptr then 1
      else refcounts s ! (ptr div PAGE_SIZE - lowest_page s))"

definition pmm_mark_used :: "pmm_state \<Rightarrow> nat \<Rightarrow> nat \<Rightarrow> pmm_state" where
  "pmm_mark_used s ptr count =
     (if ptr = 0 \<or> count = 0 then s else mark_used s (ptr div PAGE_SIZE) count)"

definition pmm_is_reclaimable :: "pmm_state \<Rightarrow> nat \<Rightarrow> bool" where
  "pmm_is_reclaimable s phys =
     (case internal_memmap s of
        None \<Rightarrow> False
      | Some entries \<Rightarrow>
          list_ex (\<lambda>e. me_type e = MEMMAP_BOOTLOADER_RECLAIMABLE \<and>
                       phys \<ge> me_base e \<and> phys < (me_base e + me_length e) mod 2 ^ 64) entries)"

section \<open>Initialisation\<close>

definition pmm_init_early :: "nat \<Rightarrow> pmm_state \<Rightarrow> pmm_state" where
  "pmm_init_early hhdm_offset s = s\<lparr>physical_memory_offset := hhdm_offset\<rparr>"

text \<open>The first loop of \<^verbatim>\<open>pmm_init\<close>: total memory and the bounds of the managed pages.\<close>

definition init_scan :: "memmap_entry \<Rightarrow> pmm_state \<Rightarrow> pmm_state" where
  "init_scan e s =
     (let s1 = (if me_type e \<in> {MEMMAP_USABLE, MEMMAP_BOOTLOADER_RECLAIMABLE,
                    MEMMAP_EXECUTABLE_AND_MODULES, MEMMAP_ACPI_RECLAIMABLE, MEMMAP_ACPI_NVS,
                    MEMMAP_FRAMEBUFFER}
                then s\<lparr>total_memory := total_memory s + me_length e\<rparr> else s);
          top_addr = me_base e + me_length e
      in if me_type e = MEMMAP_USABLE \<or> me_type e = MEMMAP_BOOTLOADER_RECLAIMABLE then
           (let s2 = (if me_base e div PAGE_SIZE < lowest_page s1
                      then s1\<lparr>lowest_page := me_base e div PAGE_SIZE\<rparr> else s1)
            in if (top_addr + PAGE_SIZE - 1) div PAGE_SIZE > highest_page s2
               then s2\<lparr>highest_page := (top_addr + PAGE_SIZE - 1) div PAGE_SIZE\<rparr> else s2)
         else s1)"

text \<open>
  The largest order for a block at \<open>phys\<close> that fits the entry, is aligned and keeps clear
  of the metadata at \<open>mbase\<close>.
\<close>

function carve_order :: "nat \<Rightarrow> nat \<Rightarrow> nat \<Rightarrow> nat \<Rightarrow> nat \<Rightarrow> nat \<Rightarrow> nat" where
  "carve_order p phys entry_length mbase msize order =
     (if order < MAX_ORDER - 1 then
        (let next_order_size = 2 ^ (order + 1) * PAGE_SIZE in
         if p + next_order_size > entry_length then order
         else if phys mod next_order_size \<noteq> 0 then order
         else if \<not> (phys + next_order_size \<le> mbase \<or> phys \<ge> mbase + msize) then order
         else carve_order p phys entry_length mbase msize (order + 1))
      else order)"
  by pat_completeness auto
termination
  by (relation "measure (\<lambda>(p, phys, entry_length, mbase, msize, order). MAX_ORDER - order)") auto

declare carve_order.simps [simp del]

text \<open>One block becomes managed and free.\<close>

definition carve_block :: "pmm_state \<Rightarrow> nat \<Rightarrow> nat \<Rightarrow> pmm_state" where
  "carve_block s phys order =
     (let pfn = phys div PAGE_SIZE;
          s1 = mark_managed s pfn (2 ^ order);
          s2 = mark_free s1 pfn (2 ^ order);
          s3 = map_refs s2 (\<lambda>_. 0) pfn (2 ^ order);
          s4 = link_block s3 phys order
      in s4\<lparr>usable_memory := usable_memory s4 + 2 ^ order * PAGE_SIZE\<rparr>)"

text \<open>The loop over one usable entry.\<close>

function init_carve :: "pmm_state \<Rightarrow> nat \<Rightarrow> nat \<Rightarrow> nat \<Rightarrow> nat \<Rightarrow> nat \<Rightarrow> pmm_state" where
  "init_carve s base len mbase msize p =
     (if p < len then
        (let phys = base + p in
         if phys < 0x100000 then init_carve s base len mbase msize (p + (0x100000 - phys))
         else if phys \<ge> mbase \<and> phys < mbase + msize
         then init_carve s base len mbase msize (p + (mbase + msize - phys))
         else
           (let order = carve_order p phys len mbase msize 0
            in init_carve (carve_block s phys order) base len mbase msize
                 (p + 2 ^ order * PAGE_SIZE)))
      else s)"
  by pat_completeness auto
termination
  by (relation "measure (\<lambda>(s, base, len, mbase, msize, p). len - p)")
    (auto simp: PAGE_SIZE_def intro!: diff_less_mono2)

declare init_carve.simps [simp del]

text \<open>
  \<^verbatim>\<open>pmm_init\<close>, called once, while the bitmaps are still \<^verbatim>\<open>NULL\<close>. \<open>raw\<close> is the former content of
  the memory the reference counts are placed in. The result is \<open>None\<close> when no usable entry
  can hold the metadata, where the code halts.
\<close>

definition pmm_init :: "memmap_entry list \<Rightarrow> nat \<Rightarrow> (nat \<Rightarrow> u16) \<Rightarrow> pmm_state \<Rightarrow> pmm_state option" where
  "pmm_init memmap hhdm_offset raw s0 =
     (let s1 = fold init_scan memmap
                 (s0\<lparr>physical_memory_offset := hhdm_offset, internal_memmap := Some memmap,
                     highest_page := 0, lowest_page := 0xFFFFFFFFFFFFFFFF\<rparr>);
          pages = (if highest_page s1 > lowest_page s1 then highest_page s1 - lowest_page s1 else 0);
          bsize = pages div 8 + (if pages mod 8 \<noteq> 0 then 1 else 0);
          total_metadata_size =
            (bsize * 2 + pages * 2 + PAGE_SIZE - 1) div PAGE_SIZE * PAGE_SIZE
      in case find (\<lambda>e. me_type e = MEMMAP_USABLE \<and> me_length e \<ge> total_metadata_size) memmap of
           None \<Rightarrow> None
         | Some m \<Rightarrow>
             (let s2 = s1\<lparr>page_count := pages, bitmap_size := bsize,
                          bitmap := replicate bsize 0xFF, managed_bitmap := replicate bsize 0,
                          refcounts := map raw [0..<pages]\<rparr>;
                  s3 = s2\<lparr>store := fold (\<lambda>i h. INIT_LIST_HEAD h (free_list s2 i)) [0..<MAX_ORDER] (store s2)\<rparr>
              in Some (fold (\<lambda>e s. if me_type e = MEMMAP_USABLE
                                   then init_carve s (me_base e) (me_length e) (me_base m)
                                          total_metadata_size 0
                                   else s)
                        memmap s3)))"

section \<open>Reclaiming the boot loader's memory\<close>

text \<open>Step 1: the pages of one entry that are candidates, marked in the temporary bitmap.\<close>

definition reclaim_mark :: "pmm_state \<Rightarrow> nat \<Rightarrow> memmap_entry \<Rightarrow> u8 list \<Rightarrow> u8 list" where
  "reclaim_mark s kernel_phys_base e temp =
     (let reclaim = (me_type e = MEMMAP_BOOTLOADER_RECLAIMABLE \<or>
                     me_type e = MEMMAP_EXECUTABLE_AND_MODULES \<and>
                       (kernel_phys_base < me_base e \<or> kernel_phys_base \<ge> me_base e + me_length e))
      in if \<not> reclaim then temp
         else if me_base e < 0x100000 then
           (let diff = 0x100000 - me_base e in
            if diff \<ge> me_length e then temp
            else bitmap_set_range (lowest_page s) (highest_page s) temp (0x100000 div PAGE_SIZE)
                   ((me_length e - diff) div PAGE_SIZE))
         else bitmap_set_range (lowest_page s) (highest_page s) temp (me_base e div PAGE_SIZE)
                (me_length e div PAGE_SIZE))"

text \<open>Step 3: drop the candidates whose page is marked used in the main bitmap.\<close>

definition reclaim_filter :: "u8 list \<Rightarrow> nat \<Rightarrow> u8 list \<Rightarrow> u8 list" where
  "reclaim_filter main bsize temp =
     fold (\<lambda>b t. if t ! b \<noteq> 0 then
              fold (\<lambda>i t. if bitmap_test t (b * 8 + i) \<and> bitmap_test main (b * 8 + i)
                          then bitmap_clear t (b * 8 + i) else t) [0..<8] t
            else t) [0..<bsize] temp"

text \<open>Step 4: the run of candidates from \<open>cur\<close> on, cleared in the temporary bitmap.\<close>

function reclaim_run :: "nat \<Rightarrow> nat \<Rightarrow> u8 list \<Rightarrow> nat \<Rightarrow> nat \<Rightarrow> nat \<times> u8 list" where
  "reclaim_run lowest highest temp cur count =
     (if cur < highest then
        (if bitmap_test temp (cur - lowest)
         then reclaim_run lowest highest (bitmap_clear temp (cur - lowest)) (cur + 1) (count + 1)
         else (count, temp))
      else (count, temp))"
  by pat_completeness auto
termination by (relation "measure (\<lambda>(lowest, highest, temp, cur, count). highest - cur)") auto

declare reclaim_run.simps [simp del]

function run_order :: "nat \<Rightarrow> nat \<Rightarrow> nat \<Rightarrow> nat" where
  "run_order phys remaining order =
     (if order < MAX_ORDER - 1 then
        (if 2 ^ (order + 1) > remaining \<or> phys mod (2 ^ (order + 1) * PAGE_SIZE) \<noteq> 0 then order
         else run_order phys remaining (order + 1))
      else order)"
  by pat_completeness auto
termination by (relation "measure (\<lambda>(phys, remaining, order). MAX_ORDER - order)") auto

declare run_order.simps [simp del]

text \<open>Hand the run to the buddy system in aligned blocks.\<close>

function free_run :: "pmm_state \<Rightarrow> nat \<Rightarrow> nat \<Rightarrow> nat \<Rightarrow> pmm_state" where
  "free_run s start_pfn count p =
     (if p < count then
        (let phys = (start_pfn + p) * PAGE_SIZE;
             order = run_order phys (count - p) 0;
             base_pfn = phys div PAGE_SIZE;
             s1 = mark_managed s base_pfn (2 ^ order);
             s2 = map_refs s1 (\<lambda>_. 0) base_pfn (2 ^ order);
             s3 = buddy_free_internal s2 phys order;
             s4 = s3\<lparr>usable_memory := usable_memory s3 + 2 ^ order * PAGE_SIZE\<rparr>
         in free_run s4 start_pfn count (p + 2 ^ order))
      else s)"
  by pat_completeness auto
termination
  by (relation "measure (\<lambda>(s, start_pfn, count, p). count - p)") (auto intro!: diff_less_mono2)

declare free_run.simps [simp del]

definition reclaim_bit :: "nat \<Rightarrow> nat \<Rightarrow> pmm_state \<times> u8 list \<Rightarrow> pmm_state \<times> u8 list" where
  "reclaim_bit b i st =
     (case st of (s, t) \<Rightarrow>
        if bitmap_test t (b * 8 + i) then
          (let start_pfn = b * 8 + i + lowest_page s;
               (count, t1) = reclaim_run (lowest_page s) (highest_page s) t start_pfn 0
           in (free_run s start_pfn count 0, t1))
        else (s, t))"

definition reclaim_free :: "nat \<Rightarrow> pmm_state \<times> u8 list \<Rightarrow> pmm_state \<times> u8 list" where
  "reclaim_free bsize st =
     fold (\<lambda>b st. if snd st ! b \<noteq> 0 then fold (reclaim_bit b) [0..<8] st else st) [0..<bsize] st"

text \<open>
  \<^verbatim>\<open>pmm_reclaim_bootloader\<close>. \<open>tables\<close> are the arguments of the calls of \<^verbatim>\<open>pmm_mark_used\<close>
  that \<^verbatim>\<open>vmm_protect_active_tables\<close> makes for the active page tables.
\<close>

definition pmm_reclaim_bootloader :: "(nat \<times> nat) list \<Rightarrow> nat \<Rightarrow> pmm_state \<Rightarrow> pmm_state option" where
  "pmm_reclaim_bootloader tables kernel_phys_base s =
     (case internal_memmap s of
        None \<Rightarrow> Some s
      | Some memmap \<Rightarrow>
          (let static_entries = take 128 memmap;
               temp_count = (bitmap_size s + PAGE_SIZE - 1) div PAGE_SIZE
           in Option.bind (pmm_alloc_pages s temp_count) (\<lambda>(temp_phys, s1).
                if temp_phys = 0 then Some s1
                else
                  (let temp0 = replicate (bitmap_size s1) 0;
                       temp1 = fold (reclaim_mark s1 kernel_phys_base) static_entries temp0;
                       s2 = fold (\<lambda>(a, n) s. pmm_mark_used s a n) tables s1;
                       temp2 = reclaim_filter (bitmap s2) (bitmap_size s2) temp1;
                       (s3, _) = reclaim_free (bitmap_size s2) (s2, temp2);
                       s4 = s3\<lparr>internal_memmap := None\<rparr>
                   in pmm_free_pages s4 temp_phys temp_count))))"

end
