(* ===== verification/Vmm.thy ===== *)
theory Vmm
  imports Vma Pmm "HOL-Library.Monad_Syntax"
begin

text \<open>
  The page-table manager of \<^verbatim>\<open>kernel/src/mm/vmm.c\<close>: mapping, unmapping, translation, copying
  and freeing of four-level page tables, copy-on-write and demand paging. Physical memory
  is a function from the addresses of 8-byte words to their values; the direct map makes
  \<^verbatim>\<open>PHYS_TO_VIRT\<close> the identity. A pointer to a table is an optional physical address. An
  operation has the result \<open>None\<close> when it does not return.
\<close>

unbundle bit_operations_syntax

section \<open>Constants of vmm.h\<close>

definition PAGE_FLAG_PRESENT :: u64 where "PAGE_FLAG_PRESENT = 0x1"
definition PAGE_FLAG_RW :: u64 where "PAGE_FLAG_RW = 0x2"
definition PAGE_FLAG_USER :: u64 where "PAGE_FLAG_USER = 0x4"
definition PAGE_FLAG_PS :: u64 where "PAGE_FLAG_PS = 0x80"
definition PAGE_FLAG_COW :: u64 where "PAGE_FLAG_COW = 0x200"
definition PAGE_FLAG_NX :: u64 where "PAGE_FLAG_NX = 0x8000000000000000"
definition PAGE_MASK :: u64 where "PAGE_MASK = 0x000FFFFFFFFFF000"
definition USER_SPACE_LIMIT :: u64 where "USER_SPACE_LIMIT = 0x00007FFFFFFFFFFF"
definition KERNEL_HEAP_BASE :: u64 where "KERNEL_HEAP_BASE = 0xFFFFE00000000000"

section \<open>State\<close>

text \<open>
  The current thread, as far as this file reads it, and the requests to end it.
\<close>

record thread =
  t_tid :: nat
  t_cr3 :: u64
  t_mm :: "vma_list option"

datatype exit_event = Sched_terminate_thread nat | Process_do_exit int

record vmm_state =
  pmm :: pmm_state
  mem :: "nat \<Rightarrow> u64"
  cr3 :: u64
  kernel_pml4 :: nat
  vmm_initialized :: bool
  current_thread :: "thread option"
  tlb_flushes :: "u64 list"
  exit_events :: "exit_event list"

definition has_flag :: "u64 \<Rightarrow> u64 \<Rightarrow> bool" where
  "has_flag e f \<longleftrightarrow> e AND f \<noteq> 0"

definition entry_phys :: "u64 \<Rightarrow> nat" where
  "entry_phys e = unat (e AND PAGE_MASK)"

abbreviation rd :: "vmm_state \<Rightarrow> nat \<Rightarrow> nat \<Rightarrow> u64" where
  "rd s t i \<equiv> mem s (t + 8 * i)"

definition wr :: "nat \<Rightarrow> nat \<Rightarrow> u64 \<Rightarrow> vmm_state \<Rightarrow> vmm_state" where
  "wr t i v s = s\<lparr>mem := (mem s)(t + 8 * i := v)\<rparr>"

definition vmm_flush_tlb :: "u64 \<Rightarrow> vmm_state \<Rightarrow> vmm_state" where
  "vmm_flush_tlb va s = s\<lparr>tlb_flushes := tlb_flushes s @ [va]\<rparr>"

definition vmm_get_active_pml4 :: "vmm_state \<Rightarrow> nat" where
  "vmm_get_active_pml4 s = entry_phys (cr3 s)"

text \<open>Calls of the page allocator.\<close>

definition alloc_page :: "vmm_state \<Rightarrow> (nat \<times> vmm_state) option" where
  "alloc_page s = do { (p, q) \<leftarrow> pmm_alloc_page (pmm s); Some (p, s\<lparr>pmm := q\<rparr>) }"

definition free_page :: "nat \<Rightarrow> vmm_state \<Rightarrow> vmm_state" where
  "free_page p s = s\<lparr>pmm := pmm_free_page (pmm s) p\<rparr>"

text \<open>The loops that clear or copy the 512 words of a page, or a part of them.\<close>

definition clear_words :: "nat \<Rightarrow> nat \<Rightarrow> nat \<Rightarrow> vmm_state \<Rightarrow> vmm_state" where
  "clear_words t lo hi s = fold (\<lambda>i. wr t i 0) [lo..<hi] s"

definition copy_words :: "nat \<Rightarrow> nat \<Rightarrow> nat \<Rightarrow> nat \<Rightarrow> vmm_state \<Rightarrow> vmm_state" where
  "copy_words dst src lo hi s = fold (\<lambda>i s. wr dst i (rd s src i) s) [lo..<hi] s"

text \<open>
  A loop over indices whose body may return from the function: \<open>Some r\<close> is a return with
  \<open>r\<close>, \<open>None\<close> goes on.
\<close>

primrec for_loop :: "nat list \<Rightarrow> (nat \<Rightarrow> 's \<Rightarrow> ('r option \<times> 's) option) \<Rightarrow> 's \<Rightarrow> ('r option \<times> 's) option" where
  "for_loop [] body s = Some (None, s)"
| "for_loop (i # is) body s =
     do { (r, s) \<leftarrow> body i s; case r of None \<Rightarrow> for_loop is body s | Some _ \<Rightarrow> Some (r, s) }"

section \<open>Initialisation\<close>

text \<open>Level 0 is the guard \<^verbatim>\<open>level < 1\<close>; a result of 0 is failure.\<close>

primrec vmm_deep_clone_table :: "nat \<Rightarrow> nat \<Rightarrow> vmm_state \<Rightarrow> (nat \<times> vmm_state) option" where
  "vmm_deep_clone_table 0 = (\<lambda>src s. Some (0, s))"
| "vmm_deep_clone_table (Suc l) = (\<lambda>src s. do {
     (p, s) \<leftarrow> alloc_page s;
     if p = 0 then Some (0, s) else do {
       (r, s) \<leftarrow> for_loop [0..<512] (\<lambda>i s.
         let entry = rd s src i in
         if \<not> has_flag entry PAGE_FLAG_PRESENT then Some (None, wr p i 0 s)
         else if (l > 0 \<and> has_flag entry PAGE_FLAG_PS) \<or> l = 0 then Some (None, wr p i entry s)
         else do {
           (sub, s) \<leftarrow> vmm_deep_clone_table l (entry_phys entry) s;
           if sub = 0 then Some (Some 0, s)
           else Some (None, wr p i ((of_nat sub AND PAGE_MASK) OR (entry AND NOT PAGE_MASK)) s)
         }) s;
       Some (case r of Some v \<Rightarrow> v | None \<Rightarrow> p, s)
     } })"

definition vmm_init :: "vmm_state \<Rightarrow> vmm_state option" where
  "vmm_init s =
     (let old = vmm_get_active_pml4 s;
          s = s\<lparr>kernel_pml4 := old, pmm := pmm_mark_used (pmm s) old 1\<rparr>;
          s = clear_words old 0 256 s
      in do {
        (p, s) \<leftarrow> alloc_page s;
        if p = 0 then Some s else do {
          let s = clear_words p 0 512 s;
          (_, s) \<leftarrow> for_loop [256..<512] (\<lambda>i s.
             let entry = rd s old i in
             if has_flag entry PAGE_FLAG_PRESENT then
               if has_flag entry PAGE_FLAG_PS then Some (None :: unit option, wr p i entry s)
               else do {
                 (cloned, s) \<leftarrow> vmm_deep_clone_table 3 (entry_phys entry) s;
                 Some (None, wr p i ((of_nat cloned AND PAGE_MASK) OR (entry AND NOT PAGE_MASK)) s)
               }
             else Some (None, s)) s;
          Some (s\<lparr>kernel_pml4 := p, cr3 := of_nat p, vmm_initialized := True\<rparr>)
        } })"

section \<open>Mapping\<close>

definition get_next_level :: "nat \<Rightarrow> nat \<Rightarrow> bool \<Rightarrow> vmm_state \<Rightarrow> (nat option \<times> vmm_state) option" where
  "get_next_level cur index allocate s =
     (if has_flag (rd s cur index) PAGE_FLAG_PRESENT then Some (Some (entry_phys (rd s cur index)), s)
      else if \<not> allocate then Some (None, s)
      else do {
        (p, s) \<leftarrow> alloc_page s;
        if p = 0 then Some (None, s)
        else do {
          let s = clear_words p 0 512 s;
          Some (Some p, wr cur index (of_nat p OR PAGE_FLAG_PRESENT OR PAGE_FLAG_RW OR PAGE_FLAG_USER) s)
        } })"

definition pml4_index :: "u64 \<Rightarrow> nat" where "pml4_index va = unat (drop_bit 39 va AND 0x1FF)"
definition pdpt_index :: "u64 \<Rightarrow> nat" where "pdpt_index va = unat (drop_bit 30 va AND 0x1FF)"
definition pd_index :: "u64 \<Rightarrow> nat" where "pd_index va = unat (drop_bit 21 va AND 0x1FF)"
definition pt_index :: "u64 \<Rightarrow> nat" where "pt_index va = unat (drop_bit 12 va AND 0x1FF)"

text \<open>A level of the walk of \<^verbatim>\<open>vmm_map_page\<close>: get or create the table, then propagate the flags.\<close>

definition map_level :: "nat \<Rightarrow> nat \<Rightarrow> u64 \<Rightarrow> vmm_state \<Rightarrow> (nat option \<times> vmm_state) option" where
  "map_level cur index propagate s =
     do { (r, s) \<leftarrow> get_next_level cur index True s;
          case r of
            None \<Rightarrow> Some (None, s)
          | Some t \<Rightarrow> Some (Some t, wr cur index (rd s cur index OR propagate) s) }"

definition vmm_map_page :: "nat \<Rightarrow> u64 \<Rightarrow> u64 \<Rightarrow> u64 \<Rightarrow> vmm_state \<Rightarrow> (bool \<times> vmm_state) option" where
  "vmm_map_page pml4 va pa flags s =
     (let propagate = flags AND (PAGE_FLAG_USER OR PAGE_FLAG_RW) in
      do { (r, s) \<leftarrow> map_level pml4 (pml4_index va) propagate s;
           case r of None \<Rightarrow> Some (False, s) | Some pdpt \<Rightarrow> do {
             (r, s) \<leftarrow> map_level pdpt (pdpt_index va) propagate s;
             case r of None \<Rightarrow> Some (False, s) | Some pd \<Rightarrow> do {
               (r, s) \<leftarrow> map_level pd (pd_index va) propagate s;
               case r of None \<Rightarrow> Some (False, s) | Some pt \<Rightarrow>
                 (let s = wr pt (pt_index va) ((pa AND PAGE_MASK) OR flags OR PAGE_FLAG_PRESENT) s
                  in Some (True, vmm_flush_tlb va s)) } } })"

definition vmm_map_huge_page :: "nat \<Rightarrow> u64 \<Rightarrow> u64 \<Rightarrow> u64 \<Rightarrow> vmm_state \<Rightarrow> (bool \<times> vmm_state) option" where
  "vmm_map_huge_page pml4 va pa flags s =
     (let propagate = flags AND (PAGE_FLAG_USER OR PAGE_FLAG_RW) in
      do { (r, s) \<leftarrow> map_level pml4 (pml4_index va) propagate s;
           case r of None \<Rightarrow> Some (False, s) | Some pdpt \<Rightarrow> do {
             (r, s) \<leftarrow> map_level pdpt (pdpt_index va) propagate s;
             case r of None \<Rightarrow> Some (False, s) | Some pd \<Rightarrow>
               (let s = wr pd (pd_index va)
                          ((pa AND PAGE_MASK) OR flags OR PAGE_FLAG_PRESENT OR PAGE_FLAG_PS) s
                in Some (True, vmm_flush_tlb va s)) } })"

definition vmm_map_range :: "nat \<Rightarrow> u64 \<Rightarrow> u64 \<Rightarrow> nat \<Rightarrow> u64 \<Rightarrow> vmm_state \<Rightarrow> (bool \<times> vmm_state) option" where
  "vmm_map_range pml4 va pa pages flags s =
     do { (r, s) \<leftarrow> for_loop [0..<pages] (\<lambda>i s. do {
            (ok, s) \<leftarrow> vmm_map_page pml4 (va + of_nat i * 4096) (pa + of_nat i * 4096) flags s;
            Some (if ok then None else Some False, s) }) s;
          Some (case r of Some v \<Rightarrow> v | None \<Rightarrow> True, s) }"

definition vmm_map_signal_trampoline :: "u64 \<Rightarrow> nat \<Rightarrow> vmm_state \<Rightarrow> vmm_state option" where
  "vmm_map_signal_trampoline signal_trampoline_phys pml4 s =
     (if signal_trampoline_phys = 0 then Some s
      else map_option snd
             (vmm_map_page pml4 0x00007FFFFFFFF000 signal_trampoline_phys PAGE_FLAG_USER s))"

section \<open>Unmapping\<close>

definition table_empty :: "vmm_state \<Rightarrow> nat \<Rightarrow> bool" where
  "table_empty s t = list_all (\<lambda>i. \<not> has_flag (rd s t i) PAGE_FLAG_PRESENT) [0..<512]"

definition vmm_free_empty_tables :: "nat \<Rightarrow> u64 \<Rightarrow> vmm_state \<Rightarrow> vmm_state" where
  "vmm_free_empty_tables pml4 va s =
     (if \<not> has_flag (rd s pml4 (pml4_index va)) PAGE_FLAG_PRESENT then s
      else let pdpt = entry_phys (rd s pml4 (pml4_index va)) in
      if \<not> has_flag (rd s pdpt (pdpt_index va)) PAGE_FLAG_PRESENT \<or>
         has_flag (rd s pdpt (pdpt_index va)) PAGE_FLAG_PS then s
      else let pd = entry_phys (rd s pdpt (pdpt_index va)) in
      if \<not> has_flag (rd s pd (pd_index va)) PAGE_FLAG_PRESENT \<or>
         has_flag (rd s pd (pd_index va)) PAGE_FLAG_PS then s
      else let pt = entry_phys (rd s pd (pd_index va)) in
      if \<not> table_empty s pt then s
      else let s = free_page pt (vmm_flush_tlb va (wr pd (pd_index va) 0 s)) in
      if \<not> table_empty s pd then s
      else let s = free_page pd (vmm_flush_tlb va (wr pdpt (pdpt_index va) 0 s)) in
      if \<not> table_empty s pdpt then s
      else free_page pdpt (vmm_flush_tlb va (wr pml4 (pml4_index va) 0 s)))"

definition vmm_unmap_page :: "nat \<Rightarrow> u64 \<Rightarrow> vmm_state \<Rightarrow> vmm_state" where
  "vmm_unmap_page pml4 va s =
     (if \<not> has_flag (rd s pml4 (pml4_index va)) PAGE_FLAG_PRESENT then s
      else let pdpt = entry_phys (rd s pml4 (pml4_index va)); pdpt_entry = rd s pdpt (pdpt_index va) in
      if \<not> has_flag pdpt_entry PAGE_FLAG_PRESENT then s
      else if has_flag pdpt_entry PAGE_FLAG_PS then s
      else let pd = entry_phys pdpt_entry; pd_entry = rd s pd (pd_index va) in
      if \<not> has_flag pd_entry PAGE_FLAG_PRESENT then s
      else if has_flag pd_entry PAGE_FLAG_PS then s
      else let pt = entry_phys pd_entry;
               s = vmm_flush_tlb va (wr pt (pt_index va) 0 s) in
      if pml4_index va < 256 \<or> (pml4_index va \<ge> 256 \<and> va < KERNEL_HEAP_BASE)
      then vmm_free_empty_tables pml4 va s else s)"

section \<open>Protection of the boot page tables\<close>

definition mark_reclaimable :: "nat \<Rightarrow> nat \<Rightarrow> vmm_state \<Rightarrow> vmm_state" where
  "mark_reclaimable phys count s =
     (if pmm_is_reclaimable (pmm s) phys then s\<lparr>pmm := pmm_mark_used (pmm s) phys count\<rparr> else s)"

primrec vmm_protect_table_recursive :: "nat \<Rightarrow> nat \<Rightarrow> vmm_state \<Rightarrow> vmm_state" where
  "vmm_protect_table_recursive 0 = (\<lambda>phys s. s)"
| "vmm_protect_table_recursive (Suc l) = (\<lambda>phys s.
     fold (\<lambda>i s.
       let entry = rd s phys i in
       if \<not> has_flag entry PAGE_FLAG_PRESENT then s
       else if l > 0 then
         if has_flag entry PAGE_FLAG_PS
         then mark_reclaimable (entry_phys entry) (if l = 2 then 0x40000 else 0x200) s
         else vmm_protect_table_recursive l (entry_phys entry) s
       else mark_reclaimable (entry_phys entry) 1 s)
     [0..<512] (mark_reclaimable phys 1 s))"

definition vmm_protect_active_tables :: "vmm_state \<Rightarrow> vmm_state" where
  "vmm_protect_active_tables s = vmm_protect_table_recursive 4 (vmm_get_active_pml4 s) s"

section \<open>Translation\<close>

definition vmm_virt_to_phys :: "vmm_state \<Rightarrow> nat \<Rightarrow> u64 \<Rightarrow> u64" where
  "vmm_virt_to_phys s pml4 va =
     (let entry = rd s pml4 (pml4_index va) in
      if \<not> has_flag entry PAGE_FLAG_PRESENT then 0
      else let entry = rd s (entry_phys entry) (pdpt_index va) in
      if \<not> has_flag entry PAGE_FLAG_PRESENT then 0
      else if has_flag entry PAGE_FLAG_PS then (entry AND 0xFFFFFC0000000) OR (va AND 0x3FFFFFFF)
      else let entry = rd s (entry_phys entry) (pd_index va) in
      if \<not> has_flag entry PAGE_FLAG_PRESENT then 0
      else if has_flag entry PAGE_FLAG_PS then (entry AND 0xFFFFFFFE00000) OR (va AND 0x1FFFFF)
      else let entry = rd s (entry_phys entry) (pt_index va) in
      if \<not> has_flag entry PAGE_FLAG_PRESENT then 0
      else (entry AND PAGE_MASK) OR (va AND 0xFFF))"


section \<open>Copying address spaces\<close>

text \<open>
  The result \<open>None\<close> of the inner pair is the pointer \<^verbatim>\<open>NULL\<close>. Level 0 is never reached from the
  callers below; a call with it would not return.
\<close>

definition child_entry :: "nat \<Rightarrow> u64 \<Rightarrow> u64" where
  "child_entry p entry = (of_nat p AND PAGE_MASK) OR (entry AND NOT PAGE_MASK)"

primrec clone_table :: "nat \<Rightarrow> nat \<Rightarrow> nat \<Rightarrow> nat \<Rightarrow> vmm_state \<Rightarrow> (nat option \<times> vmm_state) option" where
  "clone_table 0 = (\<lambda>src start fin s. None)"
| "clone_table (Suc l) = (\<lambda>src start fin s. do {
     (p, s) \<leftarrow> alloc_page s;
     if p = 0 then Some (None, s) else do {
       let s = clear_words p 0 512 s;
       (r, s) \<leftarrow> for_loop [start..<fin] (\<lambda>i s.
         let entry = rd s src i in
         if \<not> has_flag entry PAGE_FLAG_PRESENT then Some (None, s)
         else if \<not> has_flag entry PAGE_FLAG_USER then Some (None, s)
         else if l = 0 then do {
           (q, s) \<leftarrow> alloc_page s;
           if q = 0 then Some (Some (), s)
           else do {
             let s = copy_words q (entry_phys (rd s src i)) 0 512 s;
             Some (None, wr p i (child_entry q (rd s src i)) s) }
         } else do {
           (c, s) \<leftarrow> clone_table l (entry_phys entry) 0 512 s;
           case c of None \<Rightarrow> Some (Some (), s)
           | Some c \<Rightarrow> Some (None, wr p i (child_entry c (rd s src i)) s)
         }) s;
       Some (case r of Some _ \<Rightarrow> None | None \<Rightarrow> Some p, s)
     } })"

definition vmm_clone_user_mappings :: "nat \<Rightarrow> vmm_state \<Rightarrow> (nat \<times> vmm_state) option" where
  "vmm_clone_user_mappings src s = do {
     (p, s) \<leftarrow> alloc_page s;
     if p = 0 then Some (0, s) else do {
       let s = clear_words p 0 512 s;
       (r, s) \<leftarrow> for_loop [0..<256] (\<lambda>i s.
         let entry = rd s src i in
         if \<not> has_flag entry PAGE_FLAG_PRESENT then Some (None, s)
         else if \<not> has_flag entry PAGE_FLAG_USER then Some (None, s)
         else do {
           (c, s) \<leftarrow> clone_table 3 (entry_phys entry) 0 512 s;
           case c of None \<Rightarrow> Some (Some (), s)
           | Some c \<Rightarrow> Some (None, wr p i (child_entry c (rd s src i)) s)
         }) s;
       case r of Some _ \<Rightarrow> Some (0, s)
       | None \<Rightarrow> Some (p, copy_words p src 256 512 s)
     } }"

text \<open>The flag of \<^verbatim>\<open>vma.h\<close>, and the test on the regions of a process.\<close>

definition MAP_SHARED :: u64 where "MAP_SHARED = 0x01"

definition shared_at :: "vma_list \<Rightarrow> u64 \<Rightarrow> bool" where
  "shared_at vmas va =
     (case vma_find vmas va of None \<Rightarrow> False | Some v \<Rightarrow> has_flag (v_flags v) MAP_SHARED)"

definition is_shared_vma :: "vma_list option \<Rightarrow> u64 \<Rightarrow> bool" where
  "is_shared_vma vmas va = (case vmas of None \<Rightarrow> False | Some l \<Rightarrow> shared_at l va)"

text \<open>The leaf step of \<^verbatim>\<open>clone_table_vma\<close>: share the frame, copy-on-write for private memory.\<close>

definition clone_leaf_vma ::
  "vma_list option \<Rightarrow> u64 \<Rightarrow> nat \<Rightarrow> nat \<Rightarrow> nat \<Rightarrow> vmm_state \<Rightarrow> vmm_state" where
  "clone_leaf_vma vmas page_vaddr src p i s =
     (if is_shared_vma vmas page_vaddr then wr p i (rd s src i) s
      else
        (let phys = entry_phys (rd s src i);
             s = (if pmm_is_managed (pmm s) phys then
                    (let s = (if has_flag (rd s src i) PAGE_FLAG_RW then
                                vmm_flush_tlb page_vaddr
                                  (wr src i ((rd s src i AND NOT PAGE_FLAG_RW) OR PAGE_FLAG_COW) s)
                              else s)
                     in s\<lparr>pmm := pmm_incref (pmm s) phys\<rparr>)
                  else s)
         in wr p i (rd s src i) s))"

primrec clone_table_vma ::
  "nat \<Rightarrow> nat \<Rightarrow> nat \<Rightarrow> nat \<Rightarrow> vma_list option \<Rightarrow> u64 \<Rightarrow> vmm_state \<Rightarrow> (nat option \<times> vmm_state) option" where
  "clone_table_vma 0 = (\<lambda>src start fin vmas base s. None)"
| "clone_table_vma (Suc l) = (\<lambda>src start fin vmas base s. do {
     (p, s) \<leftarrow> alloc_page s;
     if p = 0 then Some (None, s) else do {
       let s = clear_words p 0 512 s;
       (r, s) \<leftarrow> for_loop [start..<fin] (\<lambda>i s.
         let entry = rd s src i in
         if \<not> has_flag entry PAGE_FLAG_PRESENT then Some (None, s)
         else if \<not> has_flag entry PAGE_FLAG_USER then Some (None, s)
         else if l = 0 then
           Some (None, clone_leaf_vma vmas (base OR push_bit 12 (of_nat i)) src p i s)
         else do {
           (c, s) \<leftarrow> clone_table_vma l (entry_phys entry) 0 512 vmas
                      (base OR push_bit (12 + 9 * l) (of_nat i)) s;
           case c of None \<Rightarrow> Some (Some (), s)
           | Some c \<Rightarrow> Some (None, wr p i (child_entry c (rd s src i)) s)
         }) s;
       Some (case r of Some _ \<Rightarrow> None | None \<Rightarrow> Some p, s)
     } })"

definition canonical_base :: "nat \<Rightarrow> u64" where
  "canonical_base i =
     (let base = push_bit 39 (of_nat i)
      in if base AND push_bit 47 1 \<noteq> 0 then base OR 0xFFFF000000000000 else base)"

definition vmm_clone_user_mappings_vma ::
  "nat \<Rightarrow> vma_list option \<Rightarrow> vmm_state \<Rightarrow> (nat \<times> vmm_state) option" where
  "vmm_clone_user_mappings_vma src vmas s = do {
     (p, s) \<leftarrow> alloc_page s;
     if p = 0 then Some (0, s) else do {
       let s = clear_words p 0 512 s;
       (r, s) \<leftarrow> for_loop [0..<256] (\<lambda>i s.
         let entry = rd s src i in
         if \<not> has_flag entry PAGE_FLAG_PRESENT then Some (None, s)
         else if \<not> has_flag entry PAGE_FLAG_USER then Some (None, s)
         else do {
           (c, s) \<leftarrow> clone_table_vma 3 (entry_phys entry) 0 512 vmas (canonical_base i) s;
           case c of None \<Rightarrow> Some (Some (), s)
           | Some c \<Rightarrow> Some (None, wr p i (child_entry c (rd s src i)) s)
         }) s;
       case r of Some _ \<Rightarrow> Some (0, s)
       | None \<Rightarrow> Some (p, copy_words p src 256 512 s)
     } }"

definition vmm_create_pml4 :: "vmm_state \<Rightarrow> (nat option \<times> vmm_state) option" where
  "vmm_create_pml4 s = do {
     (p, s) \<leftarrow> alloc_page s;
     if p = 0 then Some (None, s)
     else do {
       let s = clear_words p 0 256 s;
       Some (Some p, copy_words p (kernel_pml4 s) 256 512 s) } }"

section \<open>Freeing address spaces\<close>

text \<open>
  The nested loops of \<^verbatim>\<open>vmm_free_user_pages\<close> and \<^verbatim>\<open>vmm_free_user_pages_vma\<close>, from the inside.
  They differ in the test \<open>shared\<close> on the virtual address, which the first does not make.
\<close>

definition free_pt_pages :: "(u64 \<Rightarrow> bool) \<Rightarrow> u64 \<Rightarrow> nat \<Rightarrow> vmm_state \<Rightarrow> vmm_state" where
  "free_pt_pages shared va pt s =
     fold (\<lambda>l s.
       if has_flag (rd s pt l) PAGE_FLAG_PRESENT then
         if shared (va OR push_bit 12 (of_nat l)) then s
         else free_page (entry_phys (rd s pt l)) s
       else s) [0..<512] s"

definition free_pd_pages :: "(u64 \<Rightarrow> bool) \<Rightarrow> u64 \<Rightarrow> nat \<Rightarrow> vmm_state \<Rightarrow> vmm_state" where
  "free_pd_pages shared va pd s =
     fold (\<lambda>k s.
       let entry = rd s pd k; va_k = va OR push_bit 21 (of_nat k) in
       if \<not> has_flag entry PAGE_FLAG_PRESENT then s
       else if has_flag entry PAGE_FLAG_PS then
         if shared va_k then wr pd k 0 s
         else wr pd k 0 (fold (\<lambda>p. free_page (entry_phys entry + p * 4096)) [0..<512] s)
       else free_page (entry_phys entry) (free_pt_pages shared va_k (entry_phys entry) s))
     [0..<512] s"

definition free_pdpt_pages :: "(u64 \<Rightarrow> bool) \<Rightarrow> u64 \<Rightarrow> nat \<Rightarrow> vmm_state \<Rightarrow> vmm_state" where
  "free_pdpt_pages shared va pdpt s =
     fold (\<lambda>j s.
       let entry = rd s pdpt j in
       if \<not> has_flag entry PAGE_FLAG_PRESENT then s
       else if has_flag entry PAGE_FLAG_PS then s
       else free_page (entry_phys entry)
              (free_pd_pages shared (va OR push_bit 30 (of_nat j)) (entry_phys entry) s))
     [0..<512] s"

definition free_user_half :: "(u64 \<Rightarrow> bool) \<Rightarrow> nat \<Rightarrow> vmm_state \<Rightarrow> vmm_state" where
  "free_user_half shared pml4 s =
     fold (\<lambda>i s.
       let entry = rd s pml4 i in
       if \<not> has_flag entry PAGE_FLAG_PRESENT then s
       else free_page (entry_phys entry)
              (free_pdpt_pages shared (push_bit 39 (of_nat i)) (entry_phys entry) s))
     [0..<256] s"

definition vmm_free_user_pages :: "u64 \<Rightarrow> vmm_state \<Rightarrow> vmm_state" where
  "vmm_free_user_pages pml4 s =
     (if pml4 = 0 then s
      else if pml4 = cr3 s AND PAGE_MASK then s
      else free_page (unat pml4) (free_user_half (\<lambda>_. False) (unat pml4) s))"

definition vmm_free_user_pages_vma :: "u64 \<Rightarrow> vma_list option \<Rightarrow> vmm_state \<Rightarrow> vmm_state" where
  "vmm_free_user_pages_vma pml4 vmas s =
     (if pml4 = 0 then s
      else case vmas of
        None \<Rightarrow> vmm_free_user_pages pml4 s
      | Some l \<Rightarrow>
          if pml4 = cr3 s AND PAGE_MASK then s
          else free_page (unat pml4) (free_user_half (shared_at l) (unat pml4) s))"

section \<open>Page faults\<close>

definition PROT_NONE :: u64 where "PROT_NONE = 0x0"
definition PROT_WRITE :: u64 where "PROT_WRITE = 0x2"
definition PROT_EXEC :: u64 where "PROT_EXEC = 0x4"

definition dp_build_flags :: "u64 \<Rightarrow> u64" where
  "dp_build_flags prot =
     (if prot = PROT_NONE then 0
      else
        (let flags = PAGE_FLAG_PRESENT OR PAGE_FLAG_USER;
             flags = (if has_flag prot PROT_WRITE then flags OR PAGE_FLAG_RW else flags)
         in if \<not> has_flag prot PROT_EXEC then flags OR PAGE_FLAG_NX else flags))"

text \<open>
  The copy-on-write part of the handler: \<open>Some r\<close> when it returns \<open>r\<close>, \<open>None\<close> when the handler
  goes on.
\<close>

definition cow_fault :: "nat \<Rightarrow> u64 \<Rightarrow> vmm_state \<Rightarrow> (int option \<times> vmm_state) option" where
  "cow_fault pml4 cr2 s =
     (let virt = cr2 AND PAGE_MASK; e4 = rd s pml4 (pml4_index virt) in
      if \<not> has_flag e4 PAGE_FLAG_PRESENT then Some (Some (-1), s)
      else let e3 = rd s (entry_phys e4) (pdpt_index virt) in
      if \<not> has_flag e3 PAGE_FLAG_PRESENT then Some (Some (-1), s)
      else if has_flag e3 PAGE_FLAG_PS then Some (Some (-1), s)
      else let e2 = rd s (entry_phys e3) (pd_index virt) in
      if \<not> has_flag e2 PAGE_FLAG_PRESENT then Some (Some (-1), s)
      else if has_flag e2 PAGE_FLAG_PS then Some (Some (-1), s)
      else let pt = entry_phys e2; i = pt_index virt; pte = rd s pt i in
      if \<not> has_flag pte PAGE_FLAG_PRESENT then Some (Some (-1), s)
      else if has_flag pte PAGE_FLAG_COW then
        (let old_phys = entry_phys pte in
         if pmm_get_ref (pmm s) old_phys > 1 then do {
           (new_phys, s) \<leftarrow> alloc_page s;
           if new_phys = 0 then Some (Some (-1), s)
           else
             (let s = copy_words new_phys old_phys 0 512 s;
                  pte = rd s pt i;
                  s = wr pt i ((of_nat new_phys AND PAGE_MASK)
                        OR (pte AND NOT PAGE_MASK AND NOT PAGE_FLAG_COW) OR PAGE_FLAG_RW) s;
                  s = s\<lparr>pmm := pmm_decref (pmm s) old_phys\<rparr>
              in Some (Some 0, vmm_flush_tlb virt s))
         }
         else
           (let s = wr pt i ((pte AND NOT PAGE_FLAG_COW) OR PAGE_FLAG_RW) s
            in Some (Some 0, vmm_flush_tlb virt s)))
      else Some (None, s))"

text \<open>
  The region for a fault on a page that is not mapped: the region of the address, or a
  stack that grows down to it. The result carries the region list after the growth.
\<close>

definition fault_region :: "(nat \<Rightarrow> bool) \<Rightarrow> vma_list \<Rightarrow> u64 \<Rightarrow> (vma_data option \<times> vma_list) option" where
  "fault_region kmem vmas cr2 =
     (case vma_find vmas cr2 of
        Some v \<Rightarrow> Some (Some v, vmas)
      | None \<Rightarrow>
          (case vma_find_growdown vmas cr2 (8 * 1024 * 1024) of
             None \<Rightarrow> Some (None, vmas)
           | Some v \<Rightarrow> do {
               (_, vmas) \<leftarrow> vma_remove kmem vmas (v_start v) (v_end v);
               let (r, vmas) = vma_add kmem vmas (cr2 AND NOT 0xFFF) (v_end v) (v_prot v) (v_flags v)
                                 (v_fd v) (v_offset v);
               if r \<noteq> 0 then
                 Some (None, snd (vma_add kmem vmas (v_start v) (v_end v) (v_prot v) (v_flags v)
                                    (v_fd v) (v_offset v)))
               else Some (vma_find vmas cr2, vmas)
             }))"

definition set_mm :: "vma_list \<Rightarrow> vmm_state \<Rightarrow> vmm_state" where
  "set_mm vmas s =
     s\<lparr>current_thread := map_option (\<lambda>t. t\<lparr>t_mm := Some vmas\<rparr>) (current_thread s)\<rparr>"

definition raise_exit :: "exit_event \<Rightarrow> vmm_state \<Rightarrow> vmm_state" where
  "raise_exit e s = s\<lparr>exit_events := exit_events s @ [e]\<rparr>"

definition demand_page :: "thread \<Rightarrow> nat \<Rightarrow> u64 \<Rightarrow> bool \<Rightarrow> u64 \<Rightarrow> vmm_state \<Rightarrow> (int \<times> vmm_state) option" where
  "demand_page t pml4 cr2 user_mode prot s = do {
     (frame, s) \<leftarrow> alloc_page s;
     if frame = 0 then
       Some (if user_mode then (0, raise_exit (Sched_terminate_thread (t_tid t)) s) else (-1, s))
     else do {
       let s = clear_words frame 0 512 s;
       (ok, s) \<leftarrow> vmm_map_page pml4 (cr2 AND NOT 0xFFF) (of_nat frame) (dp_build_flags prot) s;
       if \<not> ok then
         (let s = free_page frame s
          in Some (if user_mode then (0, raise_exit (Sched_terminate_thread (t_tid t)) s) else (-1, s)))
       else Some (0, s)
     } }"

definition vmm_handle_page_fault ::
  "(nat \<Rightarrow> bool) \<Rightarrow> u64 \<Rightarrow> u64 \<Rightarrow> vmm_state \<Rightarrow> (int \<times> vmm_state) option" where
  "vmm_handle_page_fault kmem cr2 error_code s =
     (let user_mode = has_flag error_code 0x4;
          write_fault = has_flag error_code 0x2;
          present_bit = has_flag error_code 0x1 in
      case current_thread s of
        None \<Rightarrow> Some (-1, s)
      | Some t \<Rightarrow> do {
          let target = unat (if t_cr3 t = 0 then cr3 s AND 0xFFFFFFFFFFFFF000 else t_cr3 t);
          (r, s) \<leftarrow> (if present_bit \<and> write_fault then cow_fault target cr2 s else Some (None, s));
          case r of Some v \<Rightarrow> Some (v, s)
          | None \<Rightarrow>
            if present_bit then Some (-1, s)
            else case t_mm t of
              None \<Rightarrow> Some (-1, s)
            | Some vmas \<Rightarrow> do {
                (v, vmas) \<leftarrow> fault_region kmem vmas cr2;
                let s = set_mm vmas s;
                case v of
                  None \<Rightarrow>
                    Some (-1, if \<not> user_mode \<and> cr2 \<le> USER_SPACE_LIMIT
                              then raise_exit (Process_do_exit 11) s else s)
                | Some v \<Rightarrow>
                    if v_prot v = PROT_NONE then Some (-1, s)
                    else if write_fault \<and> \<not> has_flag (v_prot v) PROT_WRITE then Some (-1, s)
                    else demand_page t target cr2 user_mode (v_prot v) s
              }
        })"

section \<open>Validation of user addresses\<close>

partial_function (option) range_valid_loop :: "vma_list \<Rightarrow> u64 \<Rightarrow> u64 \<Rightarrow> bool option" where
  "range_valid_loop vmas page end_page =
     (if page < end_page then
        (let v = (case vma_find vmas page of
                    None \<Rightarrow> vma_find_growdown vmas page (8 * 1024 * 1024)
                  | Some v \<Rightarrow> Some v)
         in case v of
              None \<Rightarrow> Some False
            | Some v \<Rightarrow>
                if v_prot v = PROT_NONE then Some False
                else range_valid_loop vmas (page + 0x1000) end_page)
      else Some True)"

declare range_valid_loop.simps [code]

definition vmm_is_user_addr_range_valid :: "vmm_state \<Rightarrow> u64 \<Rightarrow> u64 \<Rightarrow> bool option" where
  "vmm_is_user_addr_range_valid s addr sz =
     (if addr > USER_SPACE_LIMIT \<or> addr + sz > 0x800000000000 then Some False
      else case current_thread s of
        None \<Rightarrow> Some False
      | Some t \<Rightarrow>
          let start_page = addr AND NOT 0xFFF; end_page = (addr + sz + 0xFFF) AND NOT 0xFFF in
          if start_page < end_page then
            (case t_mm t of None \<Rightarrow> None | Some vmas \<Rightarrow> range_valid_loop vmas start_page end_page)
          else Some True)"

end
