(* ===== verification/Vmm_Tables.thy ===== *)
theory Vmm_Tables
  imports Vmm "HOL-Library.Sublist"
begin

text \<open>
  Page tables as a tree. A path is the list of indices from the top table down; \<open>tab\<close>
  finds the table at a path and \<open>aspace\<close> the entry in which a walk ends, which is the
  mapping of the page. The lemmas say what a write of one table entry does to both, for
  trees whose tables are aligned and pairwise distinct.
\<close>

section \<open>Tables, walks and mappings\<close>

definition is_table :: "u64 \<Rightarrow> bool" where
  "is_table e \<longleftrightarrow> has_flag e PAGE_FLAG_PRESENT \<and> \<not> has_flag e PAGE_FLAG_PS"

fun tab :: "(nat \<Rightarrow> u64) \<Rightarrow> nat \<Rightarrow> nat list \<Rightarrow> nat option" where
  "tab m t [] = Some t"
| "tab m t (i # p) = (if is_table (m (t + 8 * i)) then tab m (entry_phys (m (t + 8 * i))) p else None)"

text \<open>The entry in which the walk along a path ends, with the number of indices that are left.\<close>

fun walk :: "(nat \<Rightarrow> u64) \<Rightarrow> nat \<Rightarrow> nat list \<Rightarrow> nat \<times> u64" where
  "walk m t [] = (0, 0)"
| "walk m t [i] = (0, m (t + 8 * i))"
| "walk m t (i # j # p) =
     (if is_table (m (t + 8 * i)) then walk m (entry_phys (m (t + 8 * i))) (j # p)
      else (Suc (length p), m (t + 8 * i)))"

definition aspace :: "(nat \<Rightarrow> u64) \<Rightarrow> nat \<Rightarrow> nat list \<Rightarrow> (nat \<times> u64) option" where
  "aspace m t p =
     (case walk m t p of (l, e) \<Rightarrow> if has_flag e PAGE_FLAG_PRESENT then Some (l, e) else None)"

definition vpath :: "nat \<Rightarrow> nat list \<Rightarrow> bool" where
  "vpath n p \<longleftrightarrow> length p \<le> n \<and> (\<forall>i\<in>set p. i < 512)"

definition va_path :: "u64 \<Rightarrow> nat list" where
  "va_path va = [pml4_index va, pdpt_index va, pd_index va, pt_index va]"

definition page_tables :: "(nat \<Rightarrow> u64) \<Rightarrow> nat \<Rightarrow> nat set" where
  "page_tables m t = {u. \<exists>p. vpath 3 p \<and> tab m t p = Some u}"

definition pt_wf :: "(nat \<Rightarrow> u64) \<Rightarrow> nat \<Rightarrow> bool" where
  "pt_wf m t \<longleftrightarrow>
     (\<forall>u\<in>page_tables m t. 4096 dvd u) \<and>
     (\<forall>p q u. vpath 3 p \<and> vpath 3 q \<and> tab m t p = Some u \<and> tab m t q = Some u \<longrightarrow> p = q) \<and>
     (\<forall>i<512. has_flag (m (t + 8 * i)) PAGE_FLAG_PRESENT \<longrightarrow> \<not> has_flag (m (t + 8 * i)) PAGE_FLAG_PS)"

subsection \<open>Paths\<close>

lemma vpath_simps [simp]:
  "vpath n []" "vpath n (i # p) \<longleftrightarrow> n > 0 \<and> i < 512 \<and> vpath (n - 1) p"
  "vpath n (p @ [i]) \<longleftrightarrow> n > 0 \<and> i < 512 \<and> vpath (n - 1) p"
  by (auto simp: vpath_def)

lemma vpath_mono: "vpath n p \<Longrightarrow> n \<le> k \<Longrightarrow> vpath k p"
  by (auto simp: vpath_def)

lemma vpath_append: "vpath n (p @ q) \<Longrightarrow> vpath n p"
  by (auto simp: vpath_def)

lemma tab_append: "tab m t (p @ q) = Option.bind (tab m t p) (\<lambda>u. tab m u q)"
  by (induction m t p rule: tab.induct) auto

lemma walk_append:
  "q \<noteq> [] \<Longrightarrow> tab m t p = Some u \<Longrightarrow> walk m t (p @ q) = walk m u q"
proof (induction m t p rule: tab.induct)
  case (2 m t i p)
  then obtain j r where "p @ q = j # r" by (cases "p @ q") auto
  then show ?case using 2 by (auto split: if_splits)
qed simp

lemma tab_prefix: "tab m t (p @ q) \<noteq> None \<Longrightarrow> tab m t p \<noteq> None"
  by (cases "tab m t p") (auto simp: tab_append)

lemma entry_addr_inj:
  fixes t u i j :: nat
  assumes "4096 dvd t" "4096 dvd u" "i < 512" "j < 512"
  shows "t + 8 * i = u + 8 * j \<longleftrightarrow> t = u \<and> i = j"
proof -
  have "(t + 8 * i) mod 4096 = 8 * i" "(u + 8 * j) mod 4096 = 8 * j"
    using assms by (auto simp: mod_add_left_eq dvd_def)
  then show ?thesis by auto
qed

lemma pt_wfD:
  assumes "pt_wf m t"
  shows "tab m t p = Some u \<Longrightarrow> vpath 3 p \<Longrightarrow> 4096 dvd u"
    and "tab m t p = Some u \<Longrightarrow> tab m t q = Some u \<Longrightarrow> vpath 3 p \<Longrightarrow> vpath 3 q \<Longrightarrow> p = q"
    and "i < 512 \<Longrightarrow> has_flag (m (t + 8 * i)) PAGE_FLAG_PRESENT \<Longrightarrow> is_table (m (t + 8 * i))"
proof -
  show "tab m t p = Some u \<Longrightarrow> vpath 3 p \<Longrightarrow> 4096 dvd u"
    using assms by (auto simp: pt_wf_def page_tables_def)
  show "i < 512 \<Longrightarrow> has_flag (m (t + 8 * i)) PAGE_FLAG_PRESENT \<Longrightarrow> is_table (m (t + 8 * i))"
    using assms by (simp add: pt_wf_def is_table_def)
  show "tab m t p = Some u \<Longrightarrow> tab m t q = Some u \<Longrightarrow> vpath 3 p \<Longrightarrow> vpath 3 q \<Longrightarrow> p = q"
    using assms unfolding pt_wf_def by blast
qed

section \<open>Writing an entry\<close>

text \<open>A write to the entry at \<open>p @ [i]\<close> is not seen by walks that do not pass through it.\<close>

lemma tab_write:
  assumes wf: "pt_wf m t" and p: "vpath 3 p" "tab m t p = Some u" "i < 512"
    and m': "\<And>a. a \<noteq> u + 8 * i \<Longrightarrow> m' a = m a"
  shows "vpath 3 q \<Longrightarrow> \<not> prefix (p @ [i]) q \<Longrightarrow> tab m' t q = tab m t q"
proof (induction q rule: rev_induct)
  case (snoc j q)
  have q: "vpath 3 q" "j < 512" using snoc.prems(1) by (auto intro: vpath_mono)
  have IH: "tab m' t q = tab m t q"
    using snoc q by simp
  show ?case
  proof (cases "tab m t q")
    case (Some w)
    have "w + 8 * j \<noteq> u + 8 * i"
    proof
      assume "w + 8 * j = u + 8 * i"
      then have "w = u" "j = i"
        using entry_addr_inj[OF pt_wfD(1)[OF wf Some q(1)] pt_wfD(1)[OF wf p(2,1)] q(2) p(3)] by auto
      then have "q = p" using pt_wfD(2)[OF wf Some] p q by simp
      then show False using snoc.prems(2) \<open>j = i\<close> by simp
    qed
    then show ?thesis using IH Some m' by (simp add: tab_append)
  qed (use IH in \<open>simp add: tab_append\<close>)
qed simp

text \<open>Every walk ends in the entry of the table at a prefix of its path.\<close>

lemma walk_end:
  "p \<noteq> [] \<Longrightarrow> \<exists>q i r u. p = q @ i # r \<and> tab m t q = Some u \<and> walk m t p = (length r, m (u + 8 * i)) \<and>
     (r \<noteq> [] \<longrightarrow> \<not> is_table (m (u + 8 * i)))"
proof (induction m t p rule: walk.induct)
  case (2 m t i)
  show ?case
    by (rule exI[of _ "[]"], rule exI[of _ i], rule exI[of _ "[]"], rule exI[of _ t]) simp
next
  case (3 m t i j p)
  show ?case
  proof (cases "is_table (m (t + 8 * i))")
    case True
    then obtain q k r u where d: "j # p = q @ k # r" "tab m (entry_phys (m (t + 8 * i))) q = Some u"
      "walk m (entry_phys (m (t + 8 * i))) (j # p) = (length r, m (u + 8 * k))"
      "r \<noteq> [] \<longrightarrow> \<not> is_table (m (u + 8 * k))"
      using 3 by blast
    have "walk m t (i # j # p) = (length r, m (u + 8 * k))" using True d(3) by simp
    moreover have "i # j # p = (i # q) @ k # r" "tab m t (i # q) = Some u" using True d(1,2) by simp_all
    ultimately show ?thesis using d(4) by blast
  next
    case False
    show ?thesis
      by (rule exI[of _ "[]"], rule exI[of _ i], rule exI[of _ "j # p"], rule exI[of _ t]) (simp add: False)
  qed
qed simp

lemma walk_write:
  assumes wf: "pt_wf m t" and p: "vpath 3 p" "tab m t p = Some u" "i < 512"
    and m': "\<And>a. a \<noteq> u + 8 * i \<Longrightarrow> m' a = m a"
    and q: "vpath 4 q" "\<not> prefix (p @ [i]) q"
  shows "walk m' t q = walk m t q"
proof (cases "q = []")
  case False
  obtain a j r w where d: "q = a @ j # r" "tab m t a = Some w" "walk m t q = (length r, m (w + 8 * j))"
    "r \<noteq> [] \<longrightarrow> \<not> is_table (m (w + 8 * j))"
    using walk_end[OF False, of m t] by blast
  have a: "vpath 3 a" "j < 512" using q(1) d(1) by (auto simp: vpath_def)
  have "prefix a q" "prefix (a @ [j]) q" using d(1) by (auto simp: prefix_def)
  then have np: "\<not> prefix (p @ [i]) a" "\<not> prefix (p @ [i]) (a @ [j])"
    using q(2) by (blast intro: prefix_order.trans)+
  have t': "tab m' t a = Some w" using tab_write[OF wf p m' a(1) np(1)] d(2) by simp
  have "w + 8 * j \<noteq> u + 8 * i"
  proof
    assume "w + 8 * j = u + 8 * i"
    then have "w = u" "j = i"
      using entry_addr_inj[OF pt_wfD(1)[OF wf d(2) a(1)] pt_wfD(1)[OF wf p(2,1)] a(2) p(3)] by auto
    then have "a = p" using pt_wfD(2)[OF wf d(2)] p a by simp
    then show False using np(2) \<open>j = i\<close> by simp
  qed
  then have e: "m' (w + 8 * j) = m (w + 8 * j)" by (rule m')
  have "walk m' t q = walk m' w (j # r)" using walk_append[OF _ t', of "j # r"] d(1) by simp
  also have "\<dots> = (length r, m (w + 8 * j))" using e d(4) by (cases r) auto
  finally show ?thesis using d(3) by simp
qed simp

text \<open>Memory outside the tables does not matter.\<close>

definition same_tables :: "(nat \<Rightarrow> u64) \<Rightarrow> nat \<Rightarrow> (nat \<Rightarrow> u64) \<Rightarrow> bool" where
  "same_tables m t m' \<longleftrightarrow> (\<forall>u\<in>page_tables m t. \<forall>i<512. m' (u + 8 * i) = m (u + 8 * i))"

lemma tab_frame:
  assumes "same_tables m t m'"
  shows "vpath 3 q \<Longrightarrow> tab m' t q = tab m t q"
proof (induction q rule: rev_induct)
  case (snoc j q)
  then have q: "vpath 3 q" "j < 512" by (auto intro: vpath_mono)
  then show ?case
    using snoc.IH assms by (cases "tab m t q") (auto simp: tab_append page_tables_def same_tables_def)
qed simp

lemma walk_frame:
  assumes "same_tables m t m'" "vpath 4 q"
  shows "walk m' t q = walk m t q"
proof (cases "q = []")
  case False
  obtain a j r w where d: "q = a @ j # r" "tab m t a = Some w" "walk m t q = (length r, m (w + 8 * j))"
    "r \<noteq> [] \<longrightarrow> \<not> is_table (m (w + 8 * j))"
    using walk_end[OF False, of m t] by blast
  have a: "vpath 3 a" "j < 512" using assms(2) d(1) by (auto simp: vpath_def)
  have t': "tab m' t a = Some w" using tab_frame[OF assms(1) a(1)] d(2) by simp
  have e: "m' (w + 8 * j) = m (w + 8 * j)" using assms(1) a d(2) by (auto simp: page_tables_def same_tables_def)
  have "walk m' t q = walk m' w (j # r)" using walk_append[OF _ t', of "j # r"] d(1) by simp
  also have "\<dots> = (length r, m (w + 8 * j))" using e d(4) by (cases r) auto
  finally show ?thesis using d(3) by simp
qed simp

lemma pt_wf_cong:
  assumes tb: "\<And>q. vpath 3 q \<Longrightarrow> tab m' t q = tab m t q"
    and top: "\<And>i. i < 512 \<Longrightarrow> has_flag (m' (t + 8 * i)) PAGE_FLAG_PRESENT \<Longrightarrow> \<not> has_flag (m' (t + 8 * i)) PAGE_FLAG_PS"
    and wf: "pt_wf m t"
  shows "pt_wf m' t" "page_tables m' t = page_tables m t"
proof -
  show p: "page_tables m' t = page_tables m t" using tb by (auto simp: page_tables_def)
  have "p = q" if "vpath 3 p \<and> vpath 3 q \<and> tab m' t p = Some u \<and> tab m' t q = Some u" for p q u
  proof (rule pt_wfD(2)[OF wf])
    show "vpath 3 p" "vpath 3 q" using that by simp_all
    then show "tab m t p = Some u" "tab m t q = Some u" using that by (simp_all flip: tb)
  qed
  moreover have "\<forall>u\<in>page_tables m' t. 4096 dvd u" using wf p by (simp add: pt_wf_def)
  ultimately show "pt_wf m' t" using top unfolding pt_wf_def by blast
qed

lemma pt_wf_frame:
  assumes "same_tables m t m'" "pt_wf m t"
  shows "pt_wf m' t" "page_tables m' t = page_tables m t"
    "vpath 4 q \<Longrightarrow> aspace m' t q = aspace m t q"
proof -
  have "t \<in> page_tables m t" by (auto simp: page_tables_def intro: exI[of _ "[]"])
  then have top: "m' (t + 8 * i) = m (t + 8 * i)" if "i < 512" for i
    using assms(1) that by (simp add: same_tables_def)
  have np: "\<not> has_flag (m' (t + 8 * i)) PAGE_FLAG_PS"
    if "i < 512" "has_flag (m' (t + 8 * i)) PAGE_FLAG_PRESENT" for i
    using that top[OF that(1)] assms(2) by (simp add: pt_wf_def)
  show "pt_wf m' t" "page_tables m' t = page_tables m t"
    using pt_wf_cong[OF tab_frame[OF assms(1)] np assms(2)] by blast+
  show "vpath 4 q \<Longrightarrow> aspace m' t q = aspace m t q"
    using walk_frame[OF assms(1)] by (simp add: aspace_def)
qed

section \<open>Changing the tree\<close>

lemma is_table_present: "is_table e \<Longrightarrow> has_flag e PAGE_FLAG_PRESENT"
  by (simp add: is_table_def)

lemma is_table_0 [simp]: "\<not> is_table 0" "\<not> has_flag 0 f"
  by (simp_all add: is_table_def has_flag_def)

lemma tab_extend:
  assumes wf: "pt_wf m t" and p: "vpath 2 p" "tab m t p = Some u" "i < 512"
    and m': "m' = m(u + 8 * i := v)"
  shows "tab m' t (p @ i # r) = (if is_table v then tab m' (entry_phys v) r else None)"
    "r \<noteq> [] \<Longrightarrow> walk m' t (p @ i # r) = (if is_table v then walk m' (entry_phys v) r else (length r, v))"
proof -
  have t: "tab m' t p = Some u"
    using tab_write[OF wf vpath_mono[OF p(1)] p(2,3), of m' p] vpath_mono[OF p(1), of 3] p m'
    by (simp add: prefix_def)
  have e: "m' (u + 8 * i) = v" using m' by simp
  show "tab m' t (p @ i # r) = (if is_table v then tab m' (entry_phys v) r else None)"
    using t e by (simp add: tab_append)
  show "walk m' t (p @ i # r) = (if is_table v then walk m' (entry_phys v) r else (length r, v))"
    if "r \<noteq> []"
    using walk_append[OF _ t, of "i # r"] e that by (cases r) auto
qed

text \<open>Changing the entry of an existing table to one for the same table.\<close>

lemma tab_sim:
  "(\<And>a. is_table (m' a) = is_table (m a) \<and> (is_table (m a) \<longrightarrow> entry_phys (m' a) = entry_phys (m a))) \<Longrightarrow>
   tab m' t q = tab m t q"
  by (induction m t q rule: tab.induct) auto

lemma relabel:
  assumes wf: "pt_wf m t" and p: "vpath 2 p" "tab m t p = Some u" "i < 512"
    and old: "is_table (m (u + 8 * i))" and v: "is_table v" "entry_phys v = entry_phys (m (u + 8 * i))"
    and m': "m' = m(u + 8 * i := v)"
  shows "pt_wf m' t" "page_tables m' t = page_tables m t" "tab m' t q = tab m t q"
    "vpath 4 q \<Longrightarrow> length q = 4 \<Longrightarrow> aspace m' t q = aspace m t q"
proof -
  have sim: "is_table (m' a) = is_table (m a) \<and> (is_table (m a) \<longrightarrow> entry_phys (m' a) = entry_phys (m a))" for a
    using old v m' by auto
  show tb: "tab m' t q = tab m t q" for q using tab_sim[of m' m t q] sim by blast
  have "\<not> has_flag (m' (t + 8 * j)) PAGE_FLAG_PS"
    if "j < 512" "has_flag (m' (t + 8 * j)) PAGE_FLAG_PRESENT" for j
    using that wf v m' by (auto simp: pt_wf_def is_table_def split: if_splits)
  then show "pt_wf m' t" "page_tables m' t = page_tables m t"
    using pt_wf_cong[OF tb _ wf] by blast+
  show "aspace m' t q = aspace m t q" if q: "vpath 4 q" "length q = 4"
  proof (cases "prefix (p @ [i]) q")
    case False
    then show ?thesis
      using walk_write[OF wf vpath_mono[OF p(1)] p(2,3) _ q(1) False, of m'] m' by (simp add: aspace_def)
  next
    case True
    then obtain r where r: "q = p @ i # r" by (auto simp: prefix_def)
    let ?c = "entry_phys v"
    have len: "length p \<le> 2" and r0: "r \<noteq> []" using p(1) q(2) r by (auto simp: vpath_def)
    have c: "tab m t (p @ [i]) = Some ?c" using p(2) old v by (simp add: tab_append)
    have "walk m t q = walk m ?c r"
      using walk_append[OF r0 c] r by simp
    moreover have "walk m' t q = walk m' ?c r"
      using tab_extend(2)[OF wf p m' r0] v r by simp
    moreover have "walk m' ?c r = walk m ?c r"
    proof -
      obtain a j r' w where d: "r = a @ j # r'" "tab m ?c a = Some w" "walk m ?c r = (length r', m (w + 8 * j))"
        "r' \<noteq> [] \<longrightarrow> \<not> is_table (m (w + 8 * j))"
        using walk_end[OF r0, of m ?c] by blast
      have full: "tab m t (p @ i # a) = Some w" using p(2) old v d(2) by (simp add: tab_append)
      have va: "vpath 3 (p @ i # a)" "j < 512" using q r d(1) by (auto simp: vpath_def)
      have "w + 8 * j \<noteq> u + 8 * i"
      proof
        assume "w + 8 * j = u + 8 * i"
        then have "w = u"
          using entry_addr_inj[OF pt_wfD(1)[OF wf full va(1)] pt_wfD(1)[OF wf p(2)] va(2) p(3)]
            vpath_mono[OF p(1)] by auto
        then show False using pt_wfD(2)[OF wf full _ va(1), of p] p vpath_mono[OF p(1), of 3] by simp
      qed
      then have e: "m' (w + 8 * j) = m (w + 8 * j)" using m' by simp
      have "tab m' ?c a = Some w" using tab_sim[of m' m ?c a] sim d(2) by simp
      then show ?thesis using walk_append[of "j # r'" m' ?c a w] d e by (cases r') auto
    qed
    ultimately show ?thesis by (simp add: aspace_def)
  qed
qed


text \<open>Below a table without present entries there is nothing.\<close>

lemma empty_below:
  assumes "\<And>j. j < 512 \<Longrightarrow> \<not> has_flag (m (w + 8 * j)) PAGE_FLAG_PRESENT" "r \<noteq> []" "vpath 4 r"
  shows "tab m w r = None" "\<not> has_flag (snd (walk m w r)) PAGE_FLAG_PRESENT"
proof -
  obtain j r' where r: "r = j # r'" using assms(2) by (cases r) auto
  then have "j < 512" using assms(3) by simp
  then have n: "\<not> has_flag (m (w + 8 * j)) PAGE_FLAG_PRESENT" by (rule assms(1))
  then show "tab m w r = None" using r by (simp add: is_table_def)
  show "\<not> has_flag (snd (walk m w r)) PAGE_FLAG_PRESENT"
    using n r by (cases r') (auto simp: is_table_def)
qed

lemma not_prefix_split: "\<not> prefix (p @ [i]) q \<or> q = p @ [i] \<or> (\<exists>r. r \<noteq> [] \<and> q = p @ i # r)"
  by (auto simp: prefix_def)

text \<open>The top table keeps its entries free of huge pages.\<close>

lemma top_write:
  assumes "pt_wf m t" "m' = m(a := v)" "has_flag v PAGE_FLAG_PRESENT \<Longrightarrow> \<not> has_flag v PAGE_FLAG_PS"
    "j < 512" "has_flag (m' (t + 8 * j)) PAGE_FLAG_PRESENT"
  shows "\<not> has_flag (m' (t + 8 * j)) PAGE_FLAG_PS"
  using assms by (cases "t + 8 * j = a") (auto simp: pt_wf_def)

lemma pt_wfI:
  assumes "\<And>p u. vpath 3 p \<Longrightarrow> tab m t p = Some u \<Longrightarrow> 4096 dvd u"
    "\<And>p q u. vpath 3 p \<Longrightarrow> vpath 3 q \<Longrightarrow> tab m t p = Some u \<Longrightarrow> tab m t q = Some u \<Longrightarrow> p = q"
    "\<And>i. i < 512 \<Longrightarrow> has_flag (m (t + 8 * i)) PAGE_FLAG_PRESENT \<Longrightarrow> \<not> has_flag (m (t + 8 * i)) PAGE_FLAG_PS"
  shows "pt_wf m t"
  unfolding pt_wf_def page_tables_def using assms by blast

text \<open>What a change of the table at one path does to the set of tables.\<close>

lemma tree_update:
  assumes wf: "pt_wf m t" and c: "vpath 3 c"
    and tb: "\<And>q. vpath 3 q \<Longrightarrow> tab m' t q = (if q = c then x else tab m t q)"
    and x: "\<And>w. x = Some w \<Longrightarrow> 4096 dvd w \<and> w \<notin> page_tables m t"
    and top: "\<And>i. i < 512 \<Longrightarrow> has_flag (m' (t + 8 * i)) PAGE_FLAG_PRESENT \<Longrightarrow> \<not> has_flag (m' (t + 8 * i)) PAGE_FLAG_PS"
  shows "page_tables m' t = set_option x \<union> (page_tables m t - set_option (tab m t c))" "pt_wf m' t"
proof -
  show "page_tables m' t = set_option x \<union> (page_tables m t - set_option (tab m t c))"
  proof (intro set_eqI iffI)
    fix y assume "y \<in> page_tables m' t"
    then obtain q where q: "vpath 3 q" "tab m' t q = Some y" by (auto simp: page_tables_def)
    show "y \<in> set_option x \<union> (page_tables m t - set_option (tab m t c))"
    proof (cases "q = c")
      case False
      then have "tab m t q = Some y" using tb[OF q(1)] q(2) by simp
      moreover from this have "tab m t c \<noteq> Some y" using pt_wfD(2)[OF wf _ _ q(1) c] False by blast
      ultimately show ?thesis using q(1) by (auto simp: page_tables_def)
    qed (use q tb[OF q(1)] in simp)
  next
    fix y assume "y \<in> set_option x \<union> (page_tables m t - set_option (tab m t c))"
    then consider "x = Some y" | q where "vpath 3 q" "tab m t q = Some y" "q \<noteq> c"
      by (auto simp: page_tables_def)
    then show "y \<in> page_tables m' t"
    proof cases
      case 1
      then have "tab m' t c = Some y" using tb[OF c] by simp
      then show ?thesis unfolding page_tables_def using c by blast
    next
      case 2
      then have "tab m' t q = Some y" using tb[OF 2(1)] by simp
      then show ?thesis unfolding page_tables_def using 2(1) by blast
    qed
  qed
  have nx: "x \<noteq> Some y" if "vpath 3 q" "tab m t q = Some y" for q y
    using x[of y] that by (auto simp: page_tables_def)
  show "pt_wf m' t"
  proof (rule pt_wfI)
    show "4096 dvd y" if "vpath 3 q" "tab m' t q = Some y" for q y
      using that tb[OF that(1)] x pt_wfD(1)[OF wf] by (auto split: if_splits)
    show "a = b" if ab: "vpath 3 a" "vpath 3 b" "tab m' t a = Some y" "tab m' t b = Some y" for a b y
    proof -
      have "a \<noteq> c \<Longrightarrow> tab m t a = Some y" "a = c \<Longrightarrow> x = Some y" using tb[OF ab(1)] ab(3) by simp_all
      moreover have "b \<noteq> c \<Longrightarrow> tab m t b = Some y" "b = c \<Longrightarrow> x = Some y"
        using tb[OF ab(2)] ab(4) by simp_all
      ultimately show ?thesis using nx ab(1,2) pt_wfD(2)[OF wf, of a y b] by blast
    qed
  qed (rule top)
qed

text \<open>Linking a fresh, empty table.\<close>

lemma link_table:
  assumes wf: "pt_wf m t" and p: "vpath 2 p" "tab m t p = Some u" "i < 512"
    and old: "\<not> has_flag (m (u + 8 * i)) PAGE_FLAG_PRESENT"
    and v: "is_table v" "entry_phys v = w"
    and w: "4096 dvd w" "w \<notin> page_tables m t" "\<And>j. j < 512 \<Longrightarrow> m (w + 8 * j) = 0"
    and m': "m' = m(u + 8 * i := v)"
  shows "vpath 3 q \<Longrightarrow> tab m' t q = (if q = p @ [i] then Some w else tab m t q)"
    "pt_wf m' t" "page_tables m' t = insert w (page_tables m t)"
    "vpath 4 q \<Longrightarrow> length q = 4 \<Longrightarrow> aspace m' t q = aspace m t q"
proof -
  have p3: "vpath 3 p" using p(1) by (rule vpath_mono) simp
  have pi: "vpath 3 (p @ [i])" using p by simp
  have ud: "4096 dvd u" using pt_wfD(1)[OF wf p(2) p3] .
  have "u \<in> page_tables m t" using p(2) p3 by (auto simp: page_tables_def)
  then have "w \<noteq> u" using w(2) by auto
  then have w0: "m' (w + 8 * j) = 0" if "j < 512" for j
    using entry_addr_inj[OF w(1) ud that p(3)] w(3)[OF that] m' by auto
  have none: "tab m t (p @ i # r) = None" for r using old p(2) by (simp add: tab_append is_table_def)
  have tb: "tab m' t q = (if q = p @ [i] then Some w else tab m t q)" if q: "vpath 3 q" for q
  proof -
    consider "\<not> prefix (p @ [i]) q" | "q = p @ [i]" | r where "r \<noteq> []" "q = p @ i # r"
      using not_prefix_split[of p i q] by blast
    then show ?thesis
    proof cases
      case 1
      then show ?thesis using tab_write[OF wf p3 p(2,3) _ q, of m'] m' by auto
    next
      case 2
      then show ?thesis using tab_extend(1)[OF wf p m', of "[]"] v by simp
    next
      case 3
      then have "vpath 4 r" using q by (auto simp: vpath_def)
      then have "tab m' w r = None" using empty_below(1)[of m' w r] w0 3(1) by simp
      then show ?thesis using 3 none tab_extend(1)[OF wf p m', of r] v by simp
    qed
  qed
  show "vpath 3 q \<Longrightarrow> tab m' t q = (if q = p @ [i] then Some w else tab m t q)" by (rule tb)
  have x: "4096 dvd y \<and> y \<notin> page_tables m t" if "Some w = Some y" for y using that w by simp
  have top: "\<not> has_flag (m' (t + 8 * j)) PAGE_FLAG_PS"
    if "j < 512" "has_flag (m' (t + 8 * j)) PAGE_FLAG_PRESENT" for j
    using top_write[OF wf m' _ that] v by (simp add: is_table_def)
  show "page_tables m' t = insert w (page_tables m t)" "pt_wf m' t"
    using tree_update[OF wf pi tb x top] none[of "[]"] by simp_all
  show "aspace m' t q = aspace m t q" if q: "vpath 4 q" "length q = 4"
  proof (cases "prefix (p @ [i]) q")
    case False
    then show ?thesis using walk_write[OF wf p3 p(2,3) _ q(1) False, of m'] m' by (simp add: aspace_def)
  next
    case True
    then obtain r where r: "q = p @ i # r" by (auto simp: prefix_def)
    then have r0: "r \<noteq> []" "vpath 4 r" using p(1) q by (auto simp: vpath_def)
    have "walk m t q = (length r, m (u + 8 * i))"
      using walk_append[OF _ p(2), of "i # r"] r r0(1) old by (cases r) (auto simp: is_table_def)
    moreover have "\<not> has_flag (snd (walk m' w r)) PAGE_FLAG_PRESENT"
      using empty_below(2)[of m' w r] w0 r0 by simp
    ultimately show ?thesis
      using old tab_extend(2)[OF wf p m' r0(1)] v r by (simp add: aspace_def case_prod_beta)
  qed
qed

text \<open>Unlinking an empty table.\<close>

lemma unlink_table:
  assumes wf: "pt_wf m t" and p: "vpath 2 p" "tab m t p = Some u" "i < 512"
    and old: "tab m t (p @ [i]) = Some w"
    and w: "\<And>j. j < 512 \<Longrightarrow> \<not> has_flag (m (w + 8 * j)) PAGE_FLAG_PRESENT"
    and m': "m' = m(u + 8 * i := 0)"
  shows "vpath 3 q \<Longrightarrow> tab m' t q = (if q = p @ [i] then None else tab m t q)"
    "pt_wf m' t" "page_tables m' t = page_tables m t - {w}"
    "vpath 4 q \<Longrightarrow> length q = 4 \<Longrightarrow> aspace m' t q = aspace m t q"
proof -
  have p3: "vpath 3 p" using p(1) by (rule vpath_mono) simp
  have pi: "vpath 3 (p @ [i])" using p by simp
  have ext: "tab m t (p @ i # r) = tab m w r" for r using tab_append[of m t "p @ [i]" r] old by simp
  have tb: "tab m' t q = (if q = p @ [i] then None else tab m t q)" if q: "vpath 3 q" for q
  proof -
    consider "\<not> prefix (p @ [i]) q" | "q = p @ [i]" | r where "r \<noteq> []" "q = p @ i # r"
      using not_prefix_split[of p i q] by blast
    then show ?thesis
    proof cases
      case 1
      then show ?thesis using tab_write[OF wf p3 p(2,3) _ q, of m'] m' by auto
    next
      case 2
      then show ?thesis using tab_extend(1)[OF wf p m', of "[]"] by simp
    next
      case 3
      then have "vpath 4 r" using q by (auto simp: vpath_def)
      then have "tab m w r = None" using empty_below(1)[of m w r] w 3(1) by simp
      then show ?thesis using 3 ext[of r] tab_extend(1)[OF wf p m', of r] by simp
    qed
  qed
  show "vpath 3 q \<Longrightarrow> tab m' t q = (if q = p @ [i] then None else tab m t q)" by (rule tb)
  have top: "\<not> has_flag (m' (t + 8 * j)) PAGE_FLAG_PS"
    if "j < 512" "has_flag (m' (t + 8 * j)) PAGE_FLAG_PRESENT" for j
    using top_write[OF wf m' _ that] by simp
  show "page_tables m' t = page_tables m t - {w}" "pt_wf m' t"
    using tree_update[OF wf pi tb _ top] old by simp_all
  show "aspace m' t q = aspace m t q" if q: "vpath 4 q" "length q = 4"
  proof (cases "prefix (p @ [i]) q")
    case False
    then show ?thesis using walk_write[OF wf p3 p(2,3) _ q(1) False, of m'] m' by (simp add: aspace_def)
  next
    case True
    then obtain r where r: "q = p @ i # r" by (auto simp: prefix_def)
    then have r0: "r \<noteq> []" "vpath 4 r" using p(1) q by (auto simp: vpath_def)
    have "\<not> has_flag (snd (walk m t q)) PAGE_FLAG_PRESENT"
      using walk_append[OF r0(1) old] empty_below(2)[of m w r] w r0 r by simp
    then show ?thesis
      using tab_extend(2)[OF wf p m' r0(1)] r by (simp add: aspace_def case_prod_beta)
  qed
qed

text \<open>Writing an entry of a lowest-level table.\<close>

lemma write_leaf:
  assumes wf: "pt_wf m t" and p: "vpath 3 p" "length p = 3" "tab m t p = Some u" "i < 512"
    and m': "m' = m(u + 8 * i := v)"
  shows "vpath 3 q \<Longrightarrow> tab m' t q = tab m t q" "pt_wf m' t" "page_tables m' t = page_tables m t"
    "vpath 4 q \<Longrightarrow> length q = 4 \<Longrightarrow> aspace m' t q =
       (if q = p @ [i] then if has_flag v PAGE_FLAG_PRESENT then Some (0, v) else None else aspace m t q)"
proof -
  have np: "\<not> prefix (p @ [i]) q" if "vpath 3 q" for q
    using that p(2) by (auto simp: vpath_def dest: prefix_length_le)
  have tb: "tab m' t q = tab m t q" if q: "vpath 3 q" for q
    using tab_write[OF wf p(1,3,4) _ q np[OF q], of m'] m' by simp
  then show "vpath 3 q \<Longrightarrow> tab m' t q = tab m t q" .
  have "u \<noteq> t" using pt_wfD(2)[OF wf p(3) _ p(1), of "[]"] p(2) by auto
  then have "t + 8 * j \<noteq> u + 8 * i" if "j < 512" for j
    using entry_addr_inj[OF pt_wfD(1)[OF wf, of "[]"] pt_wfD(1)[OF wf p(3,1)] that p(4)] by auto
  then have "\<not> has_flag (m' (t + 8 * j)) PAGE_FLAG_PS"
    if "j < 512" "has_flag (m' (t + 8 * j)) PAGE_FLAG_PRESENT" for j
    using that wf m' by (simp add: pt_wf_def)
  then show "pt_wf m' t" "page_tables m' t = page_tables m t" using pt_wf_cong[OF tb _ wf] by blast+
  show "aspace m' t q =
       (if q = p @ [i] then if has_flag v PAGE_FLAG_PRESENT then Some (0, v) else None else aspace m t q)"
    if q: "vpath 4 q" "length q = 4"
  proof (cases "q = p @ [i]")
    case True
    then have "walk m' t q = (0, v)"
      using walk_append[of "[i]" m' t p u] tb[OF p(1)] p(3) m' by simp
    then show ?thesis using True by (simp add: aspace_def)
  next
    case False
    then have "\<not> prefix (p @ [i]) q" using q(2) p(2) by (auto simp: prefix_def)
    then show ?thesis
      using walk_write[OF wf p(1,3,4) _ q(1), of m'] m' False by (simp add: aspace_def)
  qed
qed

end
