(* ===== verification/Slab_Cache.thy ===== *)
theory Slab_Cache
  imports Slab_Lists Vmm_Tables
begin

text \<open>
  The caches of kernel objects of \<^verbatim>\<open>kernel/src/mm/slab_cache.c\<close>. A cache is a slot of the
  registry; a pointer to a cache is an optional slot number. A slab is a page of the kernel's
  address space, whose header the state keeps by virtual address; pages come from the page
  allocator and are mapped in the active page tables. An operation has the result \<open>None\<close> when
  it does not return, which includes the fault on a header that is not mapped.
\<close>

unbundle bit_operations_syntax

section \<open>State\<close>

definition SLAB_PAGE_MAGIC :: u64 where "SLAB_PAGE_MAGIC = 0xCA04E51A8CA04E"
definition SLAB_CACHE_NAME_MAX :: nat where "SLAB_CACHE_NAME_MAX = 32"
definition SLAB_CACHE_MAX_CACHES :: nat where "SLAB_CACHE_MAX_CACHES = 32"

text \<open>The size of \<^verbatim>\<open>struct slab_page\<close>, with its alignment of 64.\<close>

definition SLAB_HDR :: u64 where "SLAB_HDR = 64"

record kmem_cache = slab_heads +
  c_name :: string
  obj_size :: u64
  obj_aligned :: u64
  c_alignment :: u64
  objs_per_slab :: u32
  ctor :: "u64 option"
  dtor :: "u64 option"
  total_allocs :: u64
  total_frees :: u64
  active_objects :: u64
  total_slabs :: u64

text \<open>Calls of a constructor or destructor, with the object.\<close>

type_synonym obj_call = "u64 \<times> u64"

record slab_state =
  vmm :: vmm_state
  slab_pages :: "u64 \<Rightarrow> slab_page"
  cache_pool :: "kmem_cache list"
  cache_used :: "bool list"
  cache_count :: int
  slab_vaddr_cursor :: u64
  obj_calls :: "obj_call list"

definition zero_cache :: kmem_cache where
  "zero_cache = \<lparr>slabs_partial = 0, slabs_full = 0, slabs_free = 0, c_name = [], obj_size = 0, obj_aligned = 0,
     c_alignment = 0, objs_per_slab = 0, ctor = None, dtor = None, total_allocs = 0, total_frees = 0,
     active_objects = 0, total_slabs = 0\<rparr>"

text \<open>The cache in a slot, and the store of a changed cache.\<close>

abbreviation the_cache :: "slab_state \<Rightarrow> nat \<Rightarrow> kmem_cache" where
  "the_cache s i \<equiv> cache_pool s ! i"

definition put_cache :: "nat \<Rightarrow> kmem_cache \<Rightarrow> slab_state \<Rightarrow> slab_state" where
  "put_cache i c s = s\<lparr>cache_pool := (cache_pool s)[i := c]\<rparr>"

section \<open>Slab pages\<close>

definition slab_allocate_vaddr :: "slab_state \<Rightarrow> u64 \<times> slab_state" where
  "slab_allocate_vaddr s = (slab_vaddr_cursor s, s\<lparr>slab_vaddr_cursor := slab_vaddr_cursor s + 4096\<rparr>)"

definition new_slab_hdr :: "nat \<Rightarrow> kmem_cache \<Rightarrow> slab_page" where
  "new_slab_hdr i c =
     (let total_count = (if objs_per_slab c > 128 then 128 else objs_per_slab c)
      in \<lparr>sl_next = 0, sl_prev = 0, sp_magic = SLAB_PAGE_MAGIC, sp_cache = i, free_count = total_count,
          total_count = total_count, sp_bitmap = [0, 0, 0, 0]\<rparr>)"

definition slab_page_alloc :: "nat \<Rightarrow> slab_state \<Rightarrow> (u64 \<times> slab_state) option" where
  "slab_page_alloc i s = do {
     (frame, v) \<leftarrow> alloc_page (vmm s);
     let s = s\<lparr>vmm := v\<rparr>;
     if frame = 0 then Some (0, s)
     else do {
       let (vaddr, s) = slab_allocate_vaddr s;
       let pml4 = vmm_get_active_pml4 (vmm s);
       (ok, v) \<leftarrow> vmm_map_page pml4 vaddr (of_nat frame) (PAGE_FLAG_PRESENT OR PAGE_FLAG_RW) (vmm s);
       let s = s\<lparr>vmm := v\<rparr>;
       if \<not> ok then Some (0, s\<lparr>vmm := free_page frame (vmm s)\<rparr>)
       else
         (let c = the_cache s i;
              s = s\<lparr>slab_pages := (slab_pages s)(vaddr := new_slab_hdr i c)\<rparr>
          in Some (vaddr, put_cache i (c\<lparr>total_slabs := total_slabs c + 1\<rparr>) s))
     } }"

section \<open>The registry\<close>

definition slab_cache_init :: "slab_state \<Rightarrow> slab_state" where
  "slab_cache_init s =
     s\<lparr>cache_pool := replicate SLAB_CACHE_MAX_CACHES zero_cache,
       cache_used := replicate SLAB_CACHE_MAX_CACHES False, cache_count := 0\<rparr>"

text \<open>The first free slot from \<open>i\<close> on.\<close>

fun free_slot :: "bool list \<Rightarrow> nat \<Rightarrow> nat option" where
  "free_slot [] i = None"
| "free_slot (u # us) i = (if \<not> u then Some i else free_slot us (i + 1))"

text \<open>The size of an object with its alignment, at least 16, and how many fit into a page.\<close>

definition aligned_size :: "u64 \<Rightarrow> u64 \<Rightarrow> u64" where
  "aligned_size sz alignment =
     (let n = (sz + alignment - 1) AND NOT (alignment - 1) in if n < 16 then 16 else n)"

definition slab_capacity :: "u64 \<Rightarrow> u32" where
  "slab_capacity asz =
     (let usable = 4096 - SLAB_HDR; n = ucast (usable div asz) in if n > 128 then 128 else n)"

definition new_cache :: "string \<Rightarrow> u64 \<Rightarrow> u64 \<Rightarrow> u64 option \<Rightarrow> u64 option \<Rightarrow> kmem_cache" where
  "new_cache name sz alignment ct dt =
     zero_cache\<lparr>c_name := take (SLAB_CACHE_NAME_MAX - 1) (takeWhile (\<lambda>ch. ch \<noteq> CHR 0x00) name),
       obj_size := sz, obj_aligned := aligned_size sz alignment, c_alignment := alignment,
       ctor := ct, dtor := dt, objs_per_slab := slab_capacity (aligned_size sz alignment)\<rparr>"

definition kmem_cache_create ::
  "string option \<Rightarrow> u64 \<Rightarrow> u64 \<Rightarrow> u64 option \<Rightarrow> u64 option \<Rightarrow> slab_state \<Rightarrow> nat option \<times> slab_state" where
  "kmem_cache_create name sz alignment ct dt s =
     (case name of None \<Rightarrow> (None, s) | Some name \<Rightarrow>
      if sz = 0 then (None, s)
      else
        (let alignment = (if alignment = 0 then 8 else alignment) in
         case free_slot (cache_used s) 0 of
           None \<Rightarrow> (None, s)
         | Some slot \<Rightarrow>
             (let c = new_cache name sz alignment ct dt;
                  s = put_cache slot c s
              in if objs_per_slab c = 0 then (None, s)
                 else (Some slot, s\<lparr>cache_used := (cache_used s)[slot := True],
                                    cache_count := cache_count s + 1\<rparr>))))"

definition kmem_cache_destroy :: "nat option \<Rightarrow> slab_state \<Rightarrow> slab_state" where
  "kmem_cache_destroy cache s =
     (case cache of None \<Rightarrow> s
      | Some i \<Rightarrow>
          if i < SLAB_CACHE_MAX_CACHES \<and> cache_used s ! i
          then s\<lparr>cache_used := (cache_used s)[i := False], cache_count := cache_count s - 1\<rparr>
          else s)"

section \<open>Objects\<close>

text \<open>The slab an object is taken from, at the head of the partial list; 0 when there is no memory.\<close>

definition slab_for_alloc :: "nat \<Rightarrow> slab_state \<Rightarrow> (u64 \<times> slab_state) option" where
  "slab_for_alloc i s =
     (if slabs_partial (the_cache s i) \<noteq> 0 then Some (slabs_partial (the_cache s i), s)
      else do {
        (sl, s) \<leftarrow>
          (if slabs_free (the_cache s i) \<noteq> 0 then
             (let sl = slabs_free (the_cache s i);
                  (h, st) = slab_unlink (slabs_free (the_cache s i)) sl (slab_pages s)
              in Some (sl, put_cache i ((the_cache s i)\<lparr>slabs_free := h\<rparr>) (s\<lparr>slab_pages := st\<rparr>)))
           else slab_page_alloc i s);
        if sl = 0 then Some (0, s)
        else
          (let (h, st) = slab_push (slabs_partial (the_cache s i)) sl (slab_pages s)
           in Some (sl, put_cache i ((the_cache s i)\<lparr>slabs_partial := h\<rparr>) (s\<lparr>slab_pages := st\<rparr>)))
      })"

definition kmem_cache_alloc :: "nat option \<Rightarrow> slab_state \<Rightarrow> (u64 \<times> slab_state) option" where
  "kmem_cache_alloc cache s =
     (case cache of None \<Rightarrow> Some (0, s)
      | Some i \<Rightarrow> do {
          (sl, s) \<leftarrow> slab_for_alloc i s;
          if sl = 0 then Some (0, s)
          else case find_free (sp_bitmap (slab_pages s sl)) 0 (unat (total_count (slab_pages s sl))) of
            None \<Rightarrow> Some (0, s)
          | Some free_idx \<Rightarrow>
              (let (c, st) = slab_claim sl free_idx (the_cache s i, slab_pages s);
                   c = c\<lparr>total_allocs := total_allocs c + 1, active_objects := active_objects c + 1\<rparr>;
                   s = put_cache i c (s\<lparr>slab_pages := st\<rparr>);
                   ptr = (sl + SLAB_HDR) + of_nat free_idx * obj_aligned c
               in Some (ptr, case ctor c of None \<Rightarrow> s | Some f \<Rightarrow> s\<lparr>obj_calls := obj_calls s @ [(f, ptr)]\<rparr>))
        })"

text \<open>Whether the processor finds the page of an address in the active tables.\<close>

definition page_present :: "vmm_state \<Rightarrow> u64 \<Rightarrow> bool" where
  "page_present v va \<longleftrightarrow> aspace (mem v) (vmm_get_active_pml4 v) (va_path va) \<noteq> None"

definition kmem_cache_free :: "nat option \<Rightarrow> u64 \<Rightarrow> slab_state \<Rightarrow> slab_state option" where
  "kmem_cache_free cache obj s =
     (case cache of None \<Rightarrow> Some s
      | Some i \<Rightarrow>
        if obj = 0 then Some s
        else
          (let page_base = obj AND NOT 0xFFF; sl = slab_pages s page_base in
           if \<not> page_present (vmm s) page_base then None
           else if sp_magic sl \<noteq> SLAB_PAGE_MAGIC then Some s
           else if sp_cache sl \<noteq> i then Some s
           else
             (let offset = obj - (page_base + SLAB_HDR);
                  idx = (ucast (offset div obj_aligned (the_cache s i)) :: u32) in
              if idx \<ge> total_count sl then Some s
              else if \<not> BITMAP_TEST (sp_bitmap sl) (unat idx) then Some s
              else
                (let s = (case dtor (the_cache s i) of None \<Rightarrow> s
                          | Some f \<Rightarrow> s\<lparr>obj_calls := obj_calls s @ [(f, obj)]\<rparr>);
                     (c, st) = slab_unclaim page_base (unat idx) (the_cache s i, slab_pages s);
                     c = c\<lparr>total_frees := total_frees c + 1, active_objects := active_objects c - 1\<rparr>
                 in Some (put_cache i c (s\<lparr>slab_pages := st\<rparr>))))))"

partial_function (option) shrink_loop :: "nat \<Rightarrow> slab_state \<Rightarrow> slab_state option" where
  "shrink_loop i s =
     (if slabs_free (the_cache s i) = 0 then Some s
      else
        (let sl = slabs_free (the_cache s i);
             (h, st) = slab_unlink (slabs_free (the_cache s i)) sl (slab_pages s);
             s = put_cache i ((the_cache s i)\<lparr>slabs_free := h\<rparr>) (s\<lparr>slab_pages := st\<rparr>);
             pml4 = vmm_get_active_pml4 (vmm s);
             phys = vmm_virt_to_phys (vmm s) pml4 sl;
             s = (if phys \<noteq> 0 then s\<lparr>vmm := free_page (unat (phys AND 0x000FFFFFFFFFF000)) (vmm s)\<rparr> else s);
             c = the_cache s i
         in shrink_loop i (put_cache i (c\<lparr>total_slabs := total_slabs c - 1\<rparr>) s)))"

declare shrink_loop.simps [code]

definition kmem_cache_shrink :: "nat option \<Rightarrow> slab_state \<Rightarrow> slab_state option" where
  "kmem_cache_shrink cache s = (case cache of None \<Rightarrow> Some s | Some i \<Rightarrow> shrink_loop i s)"

definition kmem_cache_total_active :: "slab_state \<Rightarrow> u64" where
  "kmem_cache_total_active s =
     fold (\<lambda>i n. if cache_used s ! i then n + active_objects (the_cache s i) else n) [0..<SLAB_CACHE_MAX_CACHES] 0"

end
