(* ===== verification/Kstring.thy ===== *)
theory Kstring
  imports Asc_Prelude
begin

text \<open>
  The memory and string routines of \<^verbatim>\<open>kernel/src/lib/string.c\<close> over a byte-addressed memory.
  Pointers are natural numbers and never wrap around; a \<^verbatim>\<open>uint64_t\<close> access reads or writes
  eight bytes, least significant first. The loops that only stop at a NUL byte are partial
  functions; the lemmas show that they return on terminated strings.
\<close>

unbundle bit_operations_syntax

section \<open>Memory\<close>

type_synonym memory = "nat \<Rightarrow> u8"

definition load64 :: "memory \<Rightarrow> nat \<Rightarrow> u64" where
  "load64 m p =
     ucast (m p) OR push_bit 8 (ucast (m (p + 1))) OR push_bit 16 (ucast (m (p + 2)))
     OR push_bit 24 (ucast (m (p + 3))) OR push_bit 32 (ucast (m (p + 4)))
     OR push_bit 40 (ucast (m (p + 5))) OR push_bit 48 (ucast (m (p + 6)))
     OR push_bit 56 (ucast (m (p + 7)))"

definition store64 :: "memory \<Rightarrow> nat \<Rightarrow> u64 \<Rightarrow> memory" where
  "store64 m p v = (\<lambda>a. if p \<le> a \<and> a < p + 8 then ucast (drop_bit (8 * (a - p)) v) else m a)"

section \<open>memset, memcpy and memcmp\<close>

fun memset_lead :: "memory \<Rightarrow> nat \<Rightarrow> u8 \<Rightarrow> nat \<Rightarrow> memory \<times> nat \<times> nat" where
  "memset_lead m p b n =
     (if n > 0 \<and> p mod 8 \<noteq> 0 then memset_lead (m(p := b)) (p + 1) b (n - 1) else (m, p, n))"

fun memset_words :: "memory \<Rightarrow> nat \<Rightarrow> u64 \<Rightarrow> nat \<Rightarrow> memory \<times> nat \<times> nat" where
  "memset_words m p64 val64 n =
     (if n \<ge> 8 then memset_words (store64 m p64 val64) (p64 + 8) val64 (n - 8) else (m, p64, n))"

fun memset_tail :: "memory \<Rightarrow> nat \<Rightarrow> u8 \<Rightarrow> nat \<Rightarrow> memory" where
  "memset_tail m p b 0 = m"
| "memset_tail m p b (Suc n) = memset_tail (m(p := b)) (p + 1) b n"

definition memset_val64 :: "u8 \<Rightarrow> u64" where
  "memset_val64 b =
     (let val64 = ucast b OR push_bit 8 (ucast b) OR push_bit 16 (ucast b)
                  OR push_bit 24 (ucast b)
      in val64 OR push_bit 32 val64)"

definition memset :: "memory \<Rightarrow> nat \<Rightarrow> int \<Rightarrow> nat \<Rightarrow> memory" where
  "memset m s c n =
     (let b = word_of_int c;
          (m, p, n) = memset_lead m s b n;
          (m, p, n) = (if n \<ge> 8 then memset_words m p (memset_val64 b) n else (m, p, n))
      in memset_tail m p b n)"

fun memcpy_bytes :: "memory \<Rightarrow> nat \<Rightarrow> nat \<Rightarrow> nat \<Rightarrow> memory" where
  "memcpy_bytes m d s 0 = m"
| "memcpy_bytes m d s (Suc n) = memcpy_bytes (m(d := m s)) (d + 1) (s + 1) n"

fun memcpy_lead :: "memory \<Rightarrow> nat \<Rightarrow> nat \<Rightarrow> nat \<Rightarrow> memory \<times> nat \<times> nat \<times> nat" where
  "memcpy_lead m d s n =
     (if n > 0 \<and> d mod 8 \<noteq> 0 then memcpy_lead (m(d := m s)) (d + 1) (s + 1) (n - 1)
      else (m, d, s, n))"

fun memcpy_words :: "memory \<Rightarrow> nat \<Rightarrow> nat \<Rightarrow> nat \<Rightarrow> memory \<times> nat \<times> nat \<times> nat" where
  "memcpy_words m d64 s64 n =
     (if n \<ge> 8 then memcpy_words (store64 m d64 (load64 m s64)) (d64 + 8) (s64 + 8) (n - 8)
      else (m, d64, s64, n))"

definition memcpy :: "memory \<Rightarrow> nat \<Rightarrow> nat \<Rightarrow> nat \<Rightarrow> memory" where
  "memcpy m dest src n =
     (if n < 16 \<or> dest mod 8 \<noteq> src mod 8 then memcpy_bytes m dest src n
      else
        (let (m, d, s, n) = memcpy_lead m dest src n;
             (m, d, s, n) = memcpy_words m d s n
         in memcpy_bytes m d s n))"

fun memcmp :: "memory \<Rightarrow> nat \<Rightarrow> nat \<Rightarrow> nat \<Rightarrow> int" where
  "memcmp m p1 p2 0 = 0"
| "memcmp m p1 p2 (Suc n) =
     (if m p1 \<noteq> m p2 then uint (m p1) - uint (m p2) else memcmp m (p1 + 1) (p2 + 1) n)"

section \<open>Reading strings\<close>

partial_function (option) strcmp :: "memory \<Rightarrow> nat \<Rightarrow> nat \<Rightarrow> int option" where
  "strcmp m s1 s2 =
     (if m s1 \<noteq> 0 \<and> m s1 = m s2 then strcmp m (s1 + 1) (s2 + 1)
      else Some (uint (m s1) - uint (m s2)))"

fun strncmp :: "memory \<Rightarrow> nat \<Rightarrow> nat \<Rightarrow> nat \<Rightarrow> int" where
  "strncmp m s1 s2 n =
     (if n \<noteq> 0 \<and> m s1 \<noteq> 0 \<and> m s1 = m s2 then strncmp m (s1 + 1) (s2 + 1) (n - 1)
      else if n = 0 then 0
      else uint (m s1) - uint (m s2))"

partial_function (option) strlen_loop :: "memory \<Rightarrow> nat \<Rightarrow> nat \<Rightarrow> nat option" where
  "strlen_loop m s len = (if m (s + len) \<noteq> 0 then strlen_loop m s (len + 1) else Some len)"

definition strlen :: "memory \<Rightarrow> nat \<Rightarrow> nat option" where
  "strlen m s = strlen_loop m s 0"

partial_function (option) strrchr_loop :: "memory \<Rightarrow> nat \<Rightarrow> u8 \<Rightarrow> nat \<Rightarrow> nat option" where
  "strrchr_loop m s c lst =
     (let lst' = (if m s = c then s else lst)
      in if m s \<noteq> 0 then strrchr_loop m (s + 1) c lst' else Some lst')"

definition strrchr :: "memory \<Rightarrow> nat \<Rightarrow> int \<Rightarrow> nat option" where
  "strrchr m s c = strrchr_loop m s (word_of_int c) 0"

text \<open>\<^verbatim>\<open>char\<close> is signed on this target.\<close>

definition tolower_char :: "u8 \<Rightarrow> u8" where
  "tolower_char c = (if sint c \<ge> 65 \<and> sint c \<le> 90 then c + (97 - 65) else c)"

partial_function (option) strcasecmp :: "memory \<Rightarrow> nat \<Rightarrow> nat \<Rightarrow> int option" where
  "strcasecmp m s1 s2 =
     (if m s1 \<noteq> 0 \<and> m s2 \<noteq> 0 then
        (let c1 = tolower_char (m s1); c2 = tolower_char (m s2)
         in if c1 \<noteq> c2 then Some (uint c1 - uint c2) else strcasecmp m (s1 + 1) (s2 + 1))
      else Some (uint (m s1) - uint (m s2)))"

partial_function (option) atoui_loop :: "memory \<Rightarrow> nat \<Rightarrow> u32 \<Rightarrow> u32 option" where
  "atoui_loop m s res =
     (if sint (m s) \<ge> 48 \<and> sint (m s) \<le> 57
      then atoui_loop m (s + 1) (res * 10 + word_of_int (sint (m s) - 48))
      else Some res)"

definition atoui :: "memory \<Rightarrow> nat \<Rightarrow> u32 option" where
  "atoui m s = atoui_loop m s 0"

section \<open>Writing strings\<close>

text \<open>The loop \<^verbatim>\<open>while ((*dest++ = *src++));\<close> of \<^verbatim>\<open>strcpy\<close> and \<^verbatim>\<open>strcat\<close>.\<close>

partial_function (option) copy_until_nul :: "memory \<Rightarrow> nat \<Rightarrow> nat \<Rightarrow> memory option" where
  "copy_until_nul m dest src =
     (let c = m src; m' = m(dest := c)
      in if c \<noteq> 0 then copy_until_nul m' (dest + 1) (src + 1) else Some m')"

definition strcpy :: "memory \<Rightarrow> nat \<Rightarrow> nat \<Rightarrow> memory option" where
  "strcpy m dest src = copy_until_nul m dest src"

function strncpy_copy :: "memory \<Rightarrow> nat \<Rightarrow> nat \<Rightarrow> nat \<Rightarrow> nat \<Rightarrow> memory \<times> nat" where
  "strncpy_copy m dest src n i =
     (if i < n \<and> m (src + i) \<noteq> 0
      then strncpy_copy (m(dest + i := m (src + i))) dest src n (i + 1) else (m, i))"
  by pat_completeness auto
termination by (relation "measure (\<lambda>(m, dest, src, n, i). n - i)") auto

function strncpy_pad :: "memory \<Rightarrow> nat \<Rightarrow> nat \<Rightarrow> nat \<Rightarrow> memory" where
  "strncpy_pad m dest n i = (if i < n then strncpy_pad (m(dest + i := 0)) dest n (i + 1) else m)"
  by pat_completeness auto
termination by (relation "measure (\<lambda>(m, dest, n, i). n - i)") auto

definition strncpy :: "memory \<Rightarrow> nat \<Rightarrow> nat \<Rightarrow> nat \<Rightarrow> memory" where
  "strncpy m dest src n = (let (m, i) = strncpy_copy m dest src n 0 in strncpy_pad m dest n i)"

text \<open>The loop \<^verbatim>\<open>while (*ptr) ptr++;\<close>.\<close>

partial_function (option) skip_to_nul :: "memory \<Rightarrow> nat \<Rightarrow> nat option" where
  "skip_to_nul m ptr = (if m ptr \<noteq> 0 then skip_to_nul m (ptr + 1) else Some ptr)"

definition strcat :: "memory \<Rightarrow> nat \<Rightarrow> nat \<Rightarrow> memory option" where
  "strcat m dest src = Option.bind (skip_to_nul m dest) (\<lambda>ptr. copy_until_nul m ptr src)"

fun strncat_copy :: "memory \<Rightarrow> nat \<Rightarrow> nat \<Rightarrow> nat \<Rightarrow> memory \<times> nat \<times> nat" where
  "strncat_copy m ptr src n =
     (if n = 0 then (m, ptr, n)
      else
        (let c = m src; m' = m(ptr := c)
         in if c \<noteq> 0 then strncat_copy m' (ptr + 1) (src + 1) (n - 1) else (m', ptr + 1, n)))"

definition strncat :: "memory \<Rightarrow> nat \<Rightarrow> nat \<Rightarrow> nat \<Rightarrow> memory option" where
  "strncat m dest src n =
     Option.bind (skip_to_nul m dest) (\<lambda>ptr.
       let (m, ptr, n) = strncat_copy m ptr src n
       in Some (if n = 0 then m(ptr := 0) else m))"

declare memset_lead.simps [simp del] memset_words.simps [simp del]
  memcpy_lead.simps [simp del] memcpy_words.simps [simp del] strncmp.simps [simp del]
  strncpy_copy.simps [simp del] strncpy_pad.simps [simp del] strncat_copy.simps [simp del]

lemmas [code] = strcmp.simps strlen_loop.simps strrchr_loop.simps strcasecmp.simps
  atoui_loop.simps copy_until_nul.simps skip_to_nul.simps

section \<open>Filling and copying\<close>

text \<open>What filling and copying a range should do.\<close>

definition mfill :: "memory \<Rightarrow> nat \<Rightarrow> u8 \<Rightarrow> nat \<Rightarrow> memory" where
  "mfill m s b n = (\<lambda>a. if s \<le> a \<and> a < s + n then b else m a)"

definition mcopy :: "memory \<Rightarrow> nat \<Rightarrow> nat \<Rightarrow> nat \<Rightarrow> memory" where
  "mcopy m d s n = (\<lambda>a. if d \<le> a \<and> a < d + n then m (s + (a - d)) else m a)"

lemma mfill_0 [simp]: "mfill m s b 0 = m"
  by (auto simp: mfill_def fun_eq_iff)

lemma mfill_split: "k \<le> n \<Longrightarrow> mfill (mfill m s b k) (s + k) b (n - k) = mfill m s b n"
  by (auto simp: mfill_def fun_eq_iff)

lemma mfill_1: "m(p := b) = mfill m p b 1"
  by (auto simp: mfill_def fun_eq_iff)

lemma memset_tail_mfill: "memset_tail m p b n = mfill m p b n"
proof (induction n arbitrary: m p)
  case (Suc n)
  then show ?case using mfill_split[of 1 "Suc n" m p b] by (simp add: mfill_1)
qed simp

lemma memset_lead_mfill:
  "\<exists>k\<le>n. memset_lead m p b n = (mfill m p b k, p + k, n - k)"
proof (induction m p b n rule: memset_lead.induct)
  case (1 m p b n)
  show ?case
  proof (cases "n > 0 \<and> p mod 8 \<noteq> 0")
    case True
    then obtain k where k: "k \<le> n - 1"
      "memset_lead (m(p := b)) (p + 1) b (n - 1) = (mfill (m(p := b)) (p + 1) b k, p + 1 + k, n - 1 - k)"
      using 1 by blast
    moreover have "Suc k \<le> n" using k(1) True by linarith
    ultimately show ?thesis
      using True mfill_split[of 1 "Suc k" m p b]
      by (intro exI[of _ "Suc k"]) (simp add: memset_lead.simps[of m] mfill_1)
  next
    case False
    then show ?thesis by (intro exI[of _ 0], subst memset_lead.simps) auto
  qed
qed

lemma bit_u8_ge: "8 \<le> n \<Longrightarrow> \<not> bit (w :: u8) n"
  using bit_imp_le_length[of w n] by auto

lemma byte_index: "i < 8 \<Longrightarrow> i = 0 \<or> i = 1 \<or> i = 2 \<or> i = 3 \<or> i = 4 \<or> i = 5 \<or> i = 6 \<or> i = (7::nat)"
  by arith

lemma memset_val64_byte:
  assumes "i < 8" shows "ucast (drop_bit (8 * i) (memset_val64 b)) = b"
  using byte_index[OF assms]
  by (auto simp: memset_val64_def bit_simps bit_u8_ge intro!: bit_word_eqI)

lemma store64_mfill: "store64 m p (memset_val64 b) = mfill m p b 8"
  by (auto simp: store64_def mfill_def memset_val64_byte fun_eq_iff)

lemma memset_words_mfill:
  "\<exists>k\<le>n. memset_words m p (memset_val64 b) n = (mfill m p b k, p + k, n - k)"
proof (induction n arbitrary: m p rule: less_induct)
  case (less n)
  show ?case
  proof (cases "n \<ge> 8")
    case True
    then obtain k where k: "k \<le> n - 8"
      "memset_words (mfill m p b 8) (p + 8) (memset_val64 b) (n - 8)
         = (mfill (mfill m p b 8) (p + 8) b k, p + 8 + k, n - 8 - k)"
      using less[of "n - 8"] by fastforce
    then show ?thesis
      using True mfill_split[of 8 "8 + k" m p b]
      by (intro exI[of _ "8 + k"]) (simp add: memset_words.simps[of m] store64_mfill)
  next
    case False
    then show ?thesis by (intro exI[of _ 0], subst memset_words.simps) auto
  qed
qed

lemma memset_mfill: "memset m s c n = mfill m s (word_of_int c) n"
proof -
  let ?b = "word_of_int c :: u8"
  obtain k where k: "k \<le> n" "memset_lead m s ?b n = (mfill m s ?b k, s + k, n - k)"
    using memset_lead_mfill by blast
  obtain j where j: "j \<le> n - k"
    "memset_words (mfill m s ?b k) (s + k) (memset_val64 ?b) (n - k)
      = (mfill (mfill m s ?b k) (s + k) ?b j, s + k + j, n - k - j)"
    using memset_words_mfill by blast
  have a: "mfill (mfill m s ?b k) (s + k) ?b (n - k) = mfill m s ?b n"
    using k(1) by (rule mfill_split)
  have b: "mfill (mfill (mfill m s ?b k) (s + k) ?b j) (s + k + j) ?b (n - k - j) = mfill m s ?b n"
    using a mfill_split[OF j(1), of "mfill m s ?b k" "s + k" ?b] by simp
  show ?thesis using k j a b by (simp add: memset_def memset_tail_mfill Let_def)
qed

subsection \<open>Copying\<close>

definition forward_ok :: "nat \<Rightarrow> nat \<Rightarrow> nat \<Rightarrow> bool" where
  "forward_ok d s n \<longleftrightarrow> d \<le> s \<or> s + n \<le> d"

lemma mcopy_0 [simp]: "mcopy m d s 0 = m"
  by (auto simp: mcopy_def fun_eq_iff)

lemma mcopy_1: "m(d := m s) = mcopy m d s 1"
  by (auto simp: mcopy_def fun_eq_iff)

lemma mcopy_split:
  "k \<le> n \<Longrightarrow> forward_ok d s n \<Longrightarrow> mcopy (mcopy m d s k) (d + k) (s + k) (n - k) = mcopy m d s n"
  by (auto simp: mcopy_def forward_ok_def fun_eq_iff)

lemma forward_ok_step: "forward_ok d s n \<Longrightarrow> k \<le> n \<Longrightarrow> forward_ok (d + k) (s + k) (n - k)"
  by (auto simp: forward_ok_def)

lemma memcpy_bytes_mcopy: "forward_ok d s n \<Longrightarrow> memcpy_bytes m d s n = mcopy m d s n"
proof (induction n arbitrary: m d s)
  case (Suc n)
  then show ?case
    using mcopy_split[of 1 "Suc n" d s m] forward_ok_step[of d s "Suc n" 1] by (simp add: mcopy_1)
qed simp

lemma memcpy_lead_mcopy:
  "forward_ok d s n \<Longrightarrow>
   \<exists>k\<le>n. memcpy_lead m d s n = (mcopy m d s k, d + k, s + k, n - k)"
proof (induction n arbitrary: m d s rule: less_induct)
  case (less n)
  show ?case
  proof (cases "n > 0 \<and> d mod 8 \<noteq> 0")
    case True
    then obtain k where k: "k \<le> n - 1"
      "memcpy_lead (m(d := m s)) (d + 1) (s + 1) (n - 1)
        = (mcopy (m(d := m s)) (d + 1) (s + 1) k, d + 1 + k, s + 1 + k, n - 1 - k)"
      using less.IH[of "n - 1" "d + 1" "s + 1"] forward_ok_step[OF less.prems, of 1] by fastforce
    have "forward_ok d s (Suc k)" using less.prems k(1) True by (auto simp: forward_ok_def)
    moreover have "Suc k \<le> n" using k(1) True by linarith
    ultimately show ?thesis
      using True k mcopy_split[of 1 "Suc k" d s m]
      by (intro exI[of _ "Suc k"]) (simp add: memcpy_lead.simps[of m] mcopy_1)
  next
    case False
    then show ?thesis by (intro exI[of _ 0], subst memcpy_lead.simps) auto
  qed
qed

lemma load64_byte:
  assumes "i < 8" shows "ucast (drop_bit (8 * i) (load64 m p)) = m (p + i)"
  using byte_index[OF assms]
  by (auto simp: load64_def bit_simps bit_u8_ge intro!: bit_word_eqI)

lemma store_load64: "store64 m d (load64 m s) = mcopy m d s 8"
  by (auto simp: store64_def mcopy_def load64_byte fun_eq_iff)

lemma memcpy_words_mcopy:
  "forward_ok d s n \<Longrightarrow>
   \<exists>k\<le>n. memcpy_words m d s n = (mcopy m d s k, d + k, s + k, n - k)"
proof (induction n arbitrary: m d s rule: less_induct)
  case (less n)
  show ?case
  proof (cases "n \<ge> 8")
    case True
    then obtain k where k: "k \<le> n - 8"
      "memcpy_words (mcopy m d s 8) (d + 8) (s + 8) (n - 8)
        = (mcopy (mcopy m d s 8) (d + 8) (s + 8) k, d + 8 + k, s + 8 + k, n - 8 - k)"
      using less.IH[of "n - 8" "d + 8" "s + 8"] forward_ok_step[OF less.prems, of 8] by fastforce
    have "forward_ok d s (8 + k)" using less.prems k(1) True by (auto simp: forward_ok_def)
    then show ?thesis
      using True k mcopy_split[of 8 "8 + k" d s m]
      by (intro exI[of _ "8 + k"]) (simp add: memcpy_words.simps[of m] store_load64)
  next
    case False
    then show ?thesis by (intro exI[of _ 0], subst memcpy_words.simps) auto
  qed
qed

lemma memcpy_mcopy:
  assumes ok: "forward_ok d s n" shows "memcpy m d s n = mcopy m d s n"
proof (cases "n < 16 \<or> d mod 8 \<noteq> s mod 8")
  case True
  then show ?thesis by (simp add: memcpy_def memcpy_bytes_mcopy ok)
next
  case False
  obtain k where k: "k \<le> n" "memcpy_lead m d s n = (mcopy m d s k, d + k, s + k, n - k)"
    using memcpy_lead_mcopy[OF ok] by blast
  note ok1 = forward_ok_step[OF ok k(1)]
  obtain j where j: "j \<le> n - k"
    "memcpy_words (mcopy m d s k) (d + k) (s + k) (n - k)
      = (mcopy (mcopy m d s k) (d + k) (s + k) j, d + k + j, s + k + j, n - k - j)"
    using memcpy_words_mcopy[OF ok1] by blast
  have "mcopy (mcopy (mcopy m d s k) (d + k) (s + k) j) (d + k + j) (s + k + j) (n - k - j)
      = mcopy m d s n"
    using mcopy_split[OF k(1) ok, of m] mcopy_split[OF j(1) ok1, of "mcopy m d s k"] by simp
  then show ?thesis
    using False k j forward_ok_step[OF ok1 j(1)]
    by (simp add: memcpy_def memcpy_bytes_mcopy)
qed


section \<open>Terminated strings\<close>

fun cstr :: "memory \<Rightarrow> nat \<Rightarrow> u8 list \<Rightarrow> bool" where
  "cstr m p [] \<longleftrightarrow> m p = 0"
| "cstr m p (x # xs) \<longleftrightarrow> x \<noteq> 0 \<and> m p = x \<and> cstr m (p + 1) xs"

lemma cstr_cong:
  "\<forall>a. p \<le> a \<and> a \<le> p + length xs \<longrightarrow> m' a = m a \<Longrightarrow> cstr m' p xs = cstr m p xs"
  by (induction xs arbitrary: p) auto

lemma cstr_append:
  "cstr m p (xs @ ys) \<longleftrightarrow> 0 \<notin> set xs \<and> (\<forall>i<length xs. m (p + i) = xs ! i) \<and> cstr m (p + length xs) ys"
  by (induction xs arbitrary: p) (auto simp: less_Suc_eq_0_disj)

lemma cstr_nth: "cstr m p xs \<Longrightarrow> i < length xs \<Longrightarrow> m (p + i) = xs ! i"
  using cstr_append[of m p xs "[]"] by simp

lemma cstr_end: "cstr m p xs \<Longrightarrow> m (p + length xs) = 0"
  using cstr_append[of m p xs "[]"] by simp

lemma cstr_nonzero: "cstr m p xs \<Longrightarrow> 0 \<notin> set xs"
  using cstr_append[of m p xs "[]"] by simp

subsection \<open>Length, comparison and search\<close>

lemma strlen_loop_cstr: "cstr m (s + k) xs \<Longrightarrow> strlen_loop m s k = Some (k + length xs)"
  by (induction xs arbitrary: k) (subst strlen_loop.simps, simp add: add.assoc)+

lemma strlen_cstr: "cstr m s xs \<Longrightarrow> strlen m s = Some (length xs)"
  using strlen_loop_cstr[of m s 0 xs] by (simp add: strlen_def)

text \<open>The difference of the first bytes in which two strings differ, the terminator included.\<close>

fun bytes_diff :: "u8 list \<Rightarrow> u8 list \<Rightarrow> int" where
  "bytes_diff [] [] = 0"
| "bytes_diff [] (y # ys) = - uint y"
| "bytes_diff (x # xs) [] = uint x"
| "bytes_diff (x # xs) (y # ys) = (if x = y then bytes_diff xs ys else uint x - uint y)"

lemma bytes_diff_0:
  "0 \<notin> set xs \<Longrightarrow> 0 \<notin> set ys \<Longrightarrow> bytes_diff xs ys = 0 \<longleftrightarrow> xs = ys"
  by (induction xs ys rule: bytes_diff.induct) (auto simp: unsigned_eq_0_iff word_uint_eq_iff[symmetric])

lemma bytes_diff_less:
  "0 \<notin> set xs \<Longrightarrow> 0 \<notin> set ys \<Longrightarrow> bytes_diff xs ys < 0 \<longleftrightarrow> ord_class.lexordp xs ys"
  by (induction xs ys rule: bytes_diff.induct)
    (auto simp: word_less_def word_le_def unsigned_eq_0_iff order.strict_iff_order word_uint_eq_iff[symmetric])

lemma strcmp_cstr: "cstr m p xs \<Longrightarrow> cstr m q ys \<Longrightarrow> strcmp m p q = Some (bytes_diff xs ys)"
  by (induction xs ys arbitrary: p q rule: bytes_diff.induct) (subst strcmp.simps, simp)+

lemma strncmp_cstr:
  "cstr m p xs \<Longrightarrow> cstr m q ys \<Longrightarrow> strncmp m p q n = bytes_diff (take n xs) (take n ys)"
proof (induction xs ys arbitrary: p q n rule: bytes_diff.induct)
  case (4 x xs y ys)
  then show ?case by (cases n) (simp_all add: strncmp.simps[of m p q])
qed (case_tac n, simp_all add: strncmp.simps[of m])+

lemma memcmp_0: "memcmp m p q n = 0 \<longleftrightarrow> (\<forall>i<n. m (p + i) = m (q + i))"
  by (induction n arbitrary: p q) (auto simp: less_Suc_eq_0_disj word_uint_eq_iff[symmetric])

lemma tolower_char_0 [simp]: "tolower_char c = 0 \<longleftrightarrow> c = 0"
proof -
  have "c + 32 \<noteq> 0" if "65 \<le> sint c" "sint c \<le> 90"
  proof
    assume "c + 32 = 0"
    then have "c = - 32" by (simp add: eq_neg_iff_add_eq_0)
    then show False using that by simp
  qed
  then show ?thesis by (auto simp: tolower_char_def)
qed

lemma strcasecmp_cstr:
  "cstr m p xs \<Longrightarrow> cstr m q ys \<Longrightarrow>
   \<exists>r. strcasecmp m p q = Some r \<and> (r = 0 \<longleftrightarrow> map tolower_char xs = map tolower_char ys)"
proof (induction xs arbitrary: ys p q)
  case Nil
  then show ?case
    by (cases ys) (subst strcasecmp.simps, simp add: unsigned_eq_0_iff)+
next
  case IH: (Cons x xs)
  note IH = IH.IH and prems = IH.prems
  show ?case
  proof (cases ys)
    case Nil
    then show ?thesis using prems by (subst strcasecmp.simps) (simp add: unsigned_eq_0_iff)
  next
    case (Cons y ys')
    then have "\<exists>r. strcasecmp m (p + 1) (q + 1) = Some r \<and>
        (r = 0 \<longleftrightarrow> map tolower_char xs = map tolower_char ys')"
      using IH prems by simp
    then show ?thesis using prems Cons
      by (subst strcasecmp.simps) (auto simp: Let_def word_uint_eq_iff[symmetric])
  qed
qed

text \<open>The address of the last occurrence of a byte among the bytes at \<open>p\<close>, or the default \<open>l\<close>.\<close>

definition last_occ :: "u8 list \<Rightarrow> u8 \<Rightarrow> nat \<Rightarrow> nat \<Rightarrow> nat \<Rightarrow> bool" where
  "last_occ bs c p l r \<longleftrightarrow>
     (if c \<in> set bs
      then \<exists>i<length bs. r = p + i \<and> bs ! i = c \<and> (\<forall>j<length bs. i < j \<longrightarrow> bs ! j \<noteq> c)
      else r = l)"

lemma last_occ_Cons:
  assumes "last_occ bs c (p + 1) (if x = c then p else l) r" shows "last_occ (x # bs) c p l r"
proof (cases "c \<in> set bs")
  case True
  then obtain i where "i < length bs" "r = p + 1 + i" "bs ! i = c" "\<forall>j<length bs. i < j \<longrightarrow> bs ! j \<noteq> c"
    using assms by (auto simp: last_occ_def)
  then show ?thesis using True
    by (auto simp: last_occ_def less_Suc_eq_0_disj intro!: exI[of _ "Suc i"])
next
  case False
  then show ?thesis using assms
    by (auto simp: last_occ_def less_Suc_eq_0_disj)
qed

lemma strrchr_loop_cstr:
  "cstr m p xs \<Longrightarrow> \<exists>r. strrchr_loop m p c l = Some r \<and> last_occ (xs @ [0]) c p l r"
proof (induction xs arbitrary: p l)
  case Nil
  then show ?case by (subst strrchr_loop.simps) (simp add: last_occ_def)
next
  case (Cons x xs)
  then obtain r where "strrchr_loop m (p + 1) c (if x = c then p else l) = Some r"
    "last_occ (xs @ [0]) c (p + 1) (if x = c then p else l) r"
    using Cons.IH[of "p + 1" "if x = c then p else l"] Cons.prems by auto
  then show ?case using Cons.prems last_occ_Cons[of "xs @ [0]" c p x l r]
    by (subst strrchr_loop.simps) simp
qed

subsection \<open>Numbers\<close>

fun dec_at :: "memory \<Rightarrow> nat \<Rightarrow> nat list \<Rightarrow> bool" where
  "dec_at m p [] \<longleftrightarrow> \<not> (48 \<le> sint (m p) \<and> sint (m p) \<le> 57)"
| "dec_at m p (d # ds) \<longleftrightarrow> d < 10 \<and> m p = of_nat (48 + d) \<and> dec_at m (p + 1) ds"

lemma sint_digit: "d < 10 \<Longrightarrow> sint (of_nat (48 + d) :: u8) = 48 + int d"
proof -
  assume "d < 10"
  then have "d \<in> {0,1,2,3,4,5,6,7,8,9}" by auto
  then show ?thesis by auto
qed

lemma atoui_loop_dec:
  "dec_at m p ds \<Longrightarrow>
   atoui_loop m p (of_nat v) = Some (of_nat (foldl (\<lambda>v d. v * 10 + d) v ds))"
proof (induction ds arbitrary: p v)
  case (Cons d ds)
  then have d: "d < 10" "m p = of_nat (48 + d)" by auto
  have "atoui_loop m p (of_nat v) = atoui_loop m (p + 1) (of_nat (v * 10 + d))"
    using d by (subst atoui_loop.simps) (simp only: sint_digit, simp)
  then show ?case using Cons.IH[of "p + 1" "v * 10 + d"] Cons.prems by simp
qed (subst atoui_loop.simps, auto)

fun decimal :: "nat \<Rightarrow> nat list" where
  "decimal n = (if n < 10 then [n] else decimal (n div 10) @ [n mod 10])"

declare decimal.simps [simp del]

lemma foldl_decimal: "foldl (\<lambda>v d. v * 10 + d) 0 (decimal n) = n"
  by (induction n rule: decimal.induct) (subst decimal.simps, simp)

lemma atoui_decimal: "dec_at m p (decimal n) \<Longrightarrow> atoui m p = Some (of_nat n)"
  using atoui_loop_dec[of m p "decimal n" 0] by (simp add: atoui_def foldl_decimal)

subsection \<open>Copying and concatenation\<close>

lemma cstr_mcopy: "cstr m s xs \<Longrightarrow> cstr (mcopy m d s (Suc (length xs))) d xs"
proof (induction xs arbitrary: d s)
  case (Cons x xs)
  have "cstr (mcopy m (d + 1) (s + 1) (Suc (length xs))) (d + 1) xs" using Cons by simp
  moreover have "cstr (mcopy m d s (Suc (Suc (length xs)))) (d + 1) xs
      = cstr (mcopy m (d + 1) (s + 1) (Suc (length xs))) (d + 1) xs"
    by (rule cstr_cong) (auto simp: mcopy_def Suc_diff_Suc)
  ultimately show ?case using Cons.prems by (simp add: mcopy_def)
qed (simp add: mcopy_def)

lemma copy_until_nul_cstr:
  "cstr m s xs \<Longrightarrow> forward_ok d s (Suc (length xs)) \<Longrightarrow>
   copy_until_nul m d s = Some (mcopy m d s (Suc (length xs)))"
proof (induction xs arbitrary: m d s)
  case Nil
  then show ?case by (subst copy_until_nul.simps) (auto simp: mcopy_def fun_eq_iff)
next
  case (Cons x xs)
  have "cstr (m(d := x)) (s + 1) xs = cstr m (s + 1) xs"
    using Cons.prems by (intro cstr_cong) (auto simp: forward_ok_def)
  then have "cstr (m(d := x)) (s + 1) xs" using Cons.prems by simp
  then have "copy_until_nul (m(d := x)) (d + 1) (s + 1) = Some (mcopy (m(d := x)) (d + 1) (s + 1) (Suc (length xs)))"
    by (rule Cons.IH) (use forward_ok_step[OF Cons.prems(2), of 1] in simp)
  moreover have "mcopy (m(d := x)) (d + 1) (s + 1) (Suc (length xs)) = mcopy m d s (Suc (length (x # xs)))"
    using mcopy_split[OF _ Cons.prems(2), of 1 m] Cons.prems(1) mcopy_1[of m d s] by simp
  ultimately show ?case using Cons.prems(1) by (subst copy_until_nul.simps) simp
qed

lemma skip_to_nul_cstr: "cstr m p xs \<Longrightarrow> skip_to_nul m p = Some (p + length xs)"
  by (induction xs arbitrary: p) (subst skip_to_nul.simps, simp)+

lemma strncpy_pad_mfill: "i \<le> n \<Longrightarrow> strncpy_pad m d n i = mfill m (d + i) 0 (n - i)"
proof (induction m d n i rule: strncpy_pad.induct)
  case (1 m d n i)
  then show ?case
    using mfill_split[of 1 "n - i" m "d + i" 0]
    by (cases "i < n") (simp_all add: strncpy_pad.simps[of m] mfill_1)
qed

lemma strncpy_copy_cstr:
  assumes "cstr m s xs" "forward_ok d s (Suc (length xs))"
  shows "i \<le> n \<Longrightarrow> i \<le> length xs \<Longrightarrow>
    strncpy_copy (mcopy m d s i) d s n i = (mcopy m d s (min n (length xs)), min n (length xs))"
proof (induction "n - i" arbitrary: i)
  case 0
  then show ?case by (simp add: strncpy_copy.simps min_absorb1)
next
  case (Suc k)
  have rd: "mcopy m d s i (s + i) = m (s + i)"
    using assms(2) Suc.prems by (auto simp: mcopy_def forward_ok_def)
  show ?case
  proof (cases "i = length xs")
    case True
    then show ?thesis using Suc.prems rd cstr_end[OF assms(1)]
      by (simp add: strncpy_copy.simps min_absorb2)
  next
    case False
    have "m (s + i) \<noteq> 0"
      using cstr_nth[OF assms(1), of i] cstr_nonzero[OF assms(1)] False Suc.prems nth_mem[of i xs]
      by force
    moreover have "(mcopy m d s i)(d + i := m (s + i)) = mcopy m d s (Suc i)"
      by (auto simp: mcopy_def fun_eq_iff)
    ultimately show ?thesis
      using Suc.hyps Suc.prems False rd
      by (simp add: strncpy_copy.simps[of "mcopy m d s i"])
  qed
qed

lemma strncpy_cstr:
  assumes "cstr m s xs" "forward_ok d s (Suc (length xs))"
  shows "strncpy m d s n
    = mfill (mcopy m d s (min n (length xs))) (d + min n (length xs)) 0 (n - min n (length xs))"
  using strncpy_copy_cstr[OF assms, of 0 n] by (simp add: strncpy_def strncpy_pad_mfill)

lemma strncat_copy_cstr:
  "cstr m s ys \<Longrightarrow> forward_ok d s (Suc (length ys)) \<Longrightarrow>
   (let (m', p', n') = strncat_copy m d s n in if n' = 0 then m'(p' := 0) else m')
     = (mcopy m d s (min n (length ys)))(d + min n (length ys) := 0)"
proof (induction ys arbitrary: m d s n)
  case Nil
  then show ?case by (simp add: strncat_copy.simps Let_def)
next
  case (Cons y ys)
  show ?case
  proof (cases n)
    case (Suc k)
    define m1 where "m1 = m(d := y)"
    have "cstr m1 (s + 1) ys = cstr m (s + 1) ys"
      unfolding m1_def using Cons.prems by (intro cstr_cong) (auto simp: forward_ok_def)
    moreover have "mcopy m1 (d + 1) (s + 1) (min k (length ys)) = mcopy m d s (Suc (min k (length ys)))"
      unfolding m1_def
      using mcopy_split[of 1 "Suc (min k (length ys))" d s m] Cons.prems mcopy_1[of m d s]
      by (auto simp: forward_ok_def)
    moreover have "strncat_copy m d s n = strncat_copy m1 (d + 1) (s + 1) k"
      using Cons.prems(1) Suc by (simp add: strncat_copy.simps[of m] m1_def Let_def)
    ultimately show ?thesis
      using Cons.IH[of m1 "s + 1" "d + 1" k] Cons.prems Suc forward_ok_step[OF Cons.prems(2), of 1]
      by simp
  qed (simp add: strncat_copy.simps Let_def)
qed


lemma strcat_cstr:
  assumes "cstr m d xs" "cstr m s ys" "forward_ok (d + length xs) s (Suc (length ys))"
  shows "strcat m d s = Some (mcopy m (d + length xs) s (Suc (length ys)))"
  using assms by (simp add: strcat_def skip_to_nul_cstr copy_until_nul_cstr)

lemma strncat_cstr:
  assumes "cstr m d xs" "cstr m s ys" "forward_ok (d + length xs) s (Suc (length ys))"
  shows "strncat m d s n = Some ((mcopy m (d + length xs) s (min n (length ys)))
           (d + length xs + min n (length ys) := 0))"
  using strncat_copy_cstr[OF assms(2,3), of n] assms(1)
  by (auto simp: strncat_def skip_to_nul_cstr Let_def split: prod.splits if_splits)

lemma cstr_appendI:
  assumes "cstr m d xs" "cstr m' (d + length xs) ys" "\<forall>a. d \<le> a \<and> a < d + length xs \<longrightarrow> m' a = m a"
  shows "cstr m' d (xs @ ys)"
  using assms cstr_nonzero[OF assms(1)] cstr_nth[OF assms(1)] by (simp add: cstr_append)

lemma cstr_mcopy_take:
  assumes "cstr m s ys"
  shows "cstr ((mcopy m d s (min n (length ys)))(d + min n (length ys) := 0)) d (take n ys)"
proof -
  have "0 \<notin> set (take n ys)" using cstr_nonzero[OF assms] by (auto dest: in_set_takeD)
  then show ?thesis
    using cstr_append[of "(mcopy m d s (min n (length ys)))(d + min n (length ys) := 0)" d "take n ys" "[]"]
      cstr_nth[OF assms] by (auto simp: mcopy_def min.commute)
qed

section \<open>Properties\<close>

text \<open>
  C24. The memory routines do what their names say, whatever the alignment: \<^verbatim>\<open>memset\<close> with its
  eight-byte stores writes the low byte of its argument to exactly the \<open>n\<close> bytes from \<open>s\<close>;
  \<^verbatim>\<open>memcpy\<close> copies exactly the \<open>n\<close> bytes, even for ranges that overlap as long as the
  destination does not lie inside the source range behind its start; \<^verbatim>\<open>memcmp\<close> is 0 exactly
  for equal ranges.
\<close>

theorem memory_routines_correct:
  assumes "dest \<le> src \<or> src + n \<le> dest"
  shows "memset m s c n = (\<lambda>a. if s \<le> a \<and> a < s + n then word_of_int c else m a) \<and>
    memcpy m dest src n = (\<lambda>a. if dest \<le> a \<and> a < dest + n then m (src + (a - dest)) else m a) \<and>
    (memcmp m p q n = 0 \<longleftrightarrow> (\<forall>i<n. m (p + i) = m (q + i)))"
  using assms memset_mfill[of m s c n] memcpy_mcopy[of dest src n m] memcmp_0[of m p q n]
  by (simp add: mfill_def mcopy_def forward_ok_def)

definition mem_of :: "nat \<Rightarrow> u8 list \<Rightarrow> memory" where
  "mem_of p bs = (\<lambda>a. if p \<le> a \<and> a < p + length bs then bs ! (a - p) else 0)"

theorem memory_routines_correct_witness:
  "memset (mem_of 9 [1,2,3,4]) 6 258 18 23 = 2 \<and> memset (mem_of 9 [1,2,3,4]) 6 258 18 24 = 0
   \<and> memcpy (mem_of 9 [1,2,3,4]) 1 9 18 3 = 3 \<and> memcmp (mem_of 9 [1,2,3,4]) 9 10 18 \<noteq> 0"
proof -
  have "(1::nat) \<le> 9 \<or> (9::nat) + 18 \<le> 1" by simp
  note t = memory_routines_correct[OF this, of "mem_of 9 [1,2,3,4]" 6 258 9 10]
  have "memcmp (mem_of 9 [1,2,3,4]) 9 10 18 \<noteq> 0"
  proof
    assume "memcmp (mem_of 9 [1,2,3,4]) 9 10 18 = 0"
    then have "mem_of 9 [1,2,3,4] (9 + 0) = mem_of 9 [1,2,3,4] (10 + 0)"
      using t[THEN conjunct2, THEN conjunct2] zero_less_numeral by blast
    then show False by (simp add: mem_of_def)
  qed
  then show ?thesis
    using t[THEN conjunct1] t[THEN conjunct2, THEN conjunct1] by (simp add: mem_of_def)
qed

text \<open>
  C25. On terminated strings the reading functions return, whatever the lengths:
  \<^verbatim>\<open>strlen\<close> the length; \<^verbatim>\<open>strcmp\<close> and \<^verbatim>\<open>strncmp\<close> a number that is 0 for equal strings
  (prefixes of length \<open>n\<close>) and negative exactly when the first precedes the second
  lexicographically, bytes compared unsigned; \<^verbatim>\<open>strcasecmp\<close> 0 exactly when the strings agree up
  to the case of letters; \<^verbatim>\<open>strrchr\<close> the address of the last occurrence, the terminator counted,
  or \<^verbatim>\<open>NULL\<close>.
\<close>

theorem string_reading_correct:
  assumes "cstr m p xs" "cstr m q ys"
  shows "strlen m p = Some (length xs) \<and>
    (\<exists>r. strcmp m p q = Some r \<and> (r = 0 \<longleftrightarrow> xs = ys) \<and> (r < 0 \<longleftrightarrow> ord_class.lexordp xs ys)) \<and>
    (strncmp m p q n = 0 \<longleftrightarrow> take n xs = take n ys) \<and>
    (strncmp m p q n < 0 \<longleftrightarrow> ord_class.lexordp (take n xs) (take n ys)) \<and>
    (\<exists>r. strcasecmp m p q = Some r \<and> (r = 0 \<longleftrightarrow> map tolower_char xs = map tolower_char ys)) \<and>
    (\<exists>r. strrchr m p c = Some r \<and> last_occ (xs @ [0]) (word_of_int c) p 0 r)"
proof -
  note nz = cstr_nonzero[OF assms(1)] cstr_nonzero[OF assms(2)]
  have nz': "0 \<notin> set (take n xs)" "0 \<notin> set (take n ys)" using nz by (auto dest: in_set_takeD)
  show ?thesis
    using strlen_cstr[OF assms(1)] strcmp_cstr[OF assms] bytes_diff_0[OF nz] bytes_diff_less[OF nz]
      strncmp_cstr[OF assms, of n] bytes_diff_0[OF nz'] bytes_diff_less[OF nz']
      strcasecmp_cstr[OF assms] strrchr_loop_cstr[OF assms(1), of "word_of_int c" 0]
    by (simp add: strrchr_def)
qed

theorem string_reading_correct_witness:
  "strlen (mem_of 5 [65, 66, 0, 97, 98, 0]) 5 = Some 2
   \<and> (\<exists>r. strcmp (mem_of 5 [65, 66, 0, 97, 98, 0]) 5 8 = Some r \<and> r < 0)
   \<and> strncmp (mem_of 5 [65, 66, 0, 97, 98, 0]) 5 8 0 = 0
   \<and> strcasecmp (mem_of 5 [65, 66, 0, 97, 98, 0]) 5 8 = Some 0
   \<and> (\<exists>r. strrchr (mem_of 5 [65, 66, 0, 97, 98, 0]) 5 66 = Some r \<and> last_occ [65, 66, 0] 66 5 0 r)"
proof -
  let ?m = "mem_of 5 [65, 66, 0, 97, 98, 0]"
  have c: "cstr ?m 5 [65, 66]" "cstr ?m 8 [97, 98]" by (simp_all add: mem_of_def)
  have lower: "map tolower_char [65, 66] = map tolower_char [97, 98]" by (simp add: tolower_char_def)
  have less: "ord_class.lexordp [65 :: u8, 66] [97, 98]" by simp
  note t = string_reading_correct[OF c, of 0 66]
  have "strlen ?m 5 = Some 2" "strncmp ?m 5 8 0 = 0" using t by simp_all
  moreover have "\<exists>r. strcmp ?m 5 8 = Some r \<and> r < 0" using t less by blast
  moreover have "strcasecmp ?m 5 8 = Some 0" using t lower by metis
  moreover have "\<exists>r. strrchr ?m 5 66 = Some r \<and> last_occ [65, 66, 0] 66 5 0 r" using t by simp
  ultimately show ?thesis by blast
qed

text \<open>
  C26. On terminated strings whose memory does not overlap, the writing functions return and build
  the string they should, and write nowhere else: \<^verbatim>\<open>strcpy\<close> the source, \<^verbatim>\<open>strcat\<close> the
  concatenation, \<^verbatim>\<open>strncat\<close> the concatenation with the first \<open>n\<close> bytes of the source, always
  terminated; \<^verbatim>\<open>strncpy\<close> writes exactly \<open>n\<close> bytes, the first \<open>n\<close> bytes of the source padded with
  NUL bytes.
\<close>

theorem string_writing_correct:
  assumes "cstr m d xs" "cstr m s ys" "d + length xs + length ys < s \<or> s + length ys < d"
  shows "(\<exists>m'. strcpy m d s = Some m' \<and> cstr m' d ys
           \<and> (\<forall>a. a < d \<or> d + length ys < a \<longrightarrow> m' a = m a)) \<and>
    (\<exists>m'. strcat m d s = Some m' \<and> cstr m' d (xs @ ys)
           \<and> (\<forall>a. a < d + length xs \<or> d + length xs + length ys < a \<longrightarrow> m' a = m a)) \<and>
    (\<exists>m'. strncat m d s n = Some m' \<and> cstr m' d (xs @ take n ys)
           \<and> (\<forall>a. a < d + length xs \<or> d + length xs + min n (length ys) < a \<longrightarrow> m' a = m a)) \<and>
    (\<forall>i<n. strncpy m d s n (d + i) = (if i < length ys then ys ! i else 0)) \<and>
    (\<forall>a. a < d \<or> d + n \<le> a \<longrightarrow> strncpy m d s n a = m a)"
proof (intro conjI)
  have ok: "forward_ok d s (Suc (length ys))" "forward_ok (d + length xs) s (Suc (length ys))"
    using assms(3) by (auto simp: forward_ok_def)
  note cp = copy_until_nul_cstr[OF assms(2) ok(1)] and ct = strcat_cstr[OF assms(1,2) ok(2)]
    and nc = strncat_cstr[OF assms(1,2) ok(2), of n] and np = strncpy_cstr[OF assms(2) ok(1), of n]
  show "\<exists>m'. strcpy m d s = Some m' \<and> cstr m' d ys \<and> (\<forall>a. a < d \<or> d + length ys < a \<longrightarrow> m' a = m a)"
    using cp cstr_mcopy[OF assms(2), of d] by (auto simp: strcpy_def mcopy_def)
  show "\<exists>m'. strcat m d s = Some m' \<and> cstr m' d (xs @ ys)
      \<and> (\<forall>a. a < d + length xs \<or> d + length xs + length ys < a \<longrightarrow> m' a = m a)"
    using ct cstr_appendI[OF assms(1) cstr_mcopy[OF assms(2)]] by (auto simp: mcopy_def)
  show "\<exists>m'. strncat m d s n = Some m' \<and> cstr m' d (xs @ take n ys)
      \<and> (\<forall>a. a < d + length xs \<or> d + length xs + min n (length ys) < a \<longrightarrow> m' a = m a)"
    using nc cstr_appendI[OF assms(1) cstr_mcopy_take[OF assms(2)], of n] by (auto simp: mcopy_def)
  show "\<forall>i<n. strncpy m d s n (d + i) = (if i < length ys then ys ! i else 0)"
    using cstr_nth[OF assms(2)] by (auto simp: np mcopy_def mfill_def)
  show "\<forall>a. a < d \<or> d + n \<le> a \<longrightarrow> strncpy m d s n a = m a"
    by (auto simp: np mcopy_def mfill_def)
qed

theorem string_writing_correct_witness:
  "(\<exists>m'. strcpy (mem_of 5 [65, 0, 0, 0, 97, 98, 0]) 5 9 = Some m' \<and> cstr m' 5 [97, 98])
   \<and> (\<exists>m'. strcat (mem_of 5 [65, 0, 0, 0, 97, 98, 0]) 5 9 = Some m' \<and> cstr m' 5 ([65] @ [97, 98]))
   \<and> (\<exists>m'. strncat (mem_of 5 [65, 0, 0, 0, 97, 98, 0]) 5 9 3 = Some m' \<and> cstr m' 5 ([65] @ take 3 [97, 98]))
   \<and> strncpy (mem_of 5 [65, 0, 0, 0, 97, 98, 0]) 5 9 3 6 = 98"
proof -
  let ?m = "mem_of 5 [65, 0, 0, 0, 97, 98, 0]"
  have c: "cstr ?m 5 [65]" "cstr ?m 9 [97, 98]"
    "5 + length [65 :: u8] + length [97 :: u8, 98] < 9 \<or> 9 + length [97 :: u8, 98] < 5"
    by (simp_all add: mem_of_def)
  note t = string_writing_correct[OF c, of 3]
  have "strncpy ?m 5 9 3 (5 + 1) = (if 1 < length [97 :: u8, 98] then [97, 98] ! 1 else 0)"
    by (rule t[THEN conjunct2, THEN conjunct2, THEN conjunct2, THEN conjunct1, rule_format]) simp
  then have "strncpy ?m 5 9 3 6 = 98" by simp
  then show ?thesis using t by blast
qed

text \<open>
  C27. \<^verbatim>\<open>atoui\<close> reads back what a decimal printer writes: where memory holds the decimal digits of
  \<open>n\<close>, followed by a byte that is no digit, it returns \<open>n\<close> modulo 2^32.
\<close>

theorem atoui_reads_decimal:
  assumes "dec_at m p (decimal n)"
  shows "\<exists>v. atoui m p = Some v \<and> unat v = n mod 2 ^ 32"
  using atoui_decimal[OF assms] by (simp add: unsigned_of_nat take_bit_eq_mod)

theorem atoui_reads_decimal_witness:
  "\<exists>v. atoui (mem_of 3 [52, 50, 32]) 3 = Some v \<and> unat v = 42"
proof -
  have "decimal 42 = [4, 2]" by (simp add: decimal.simps)
  then have "dec_at (mem_of 3 [52, 50, 32]) 3 (decimal 42)" by (simp add: mem_of_def)
  then show ?thesis using atoui_reads_decimal[of "mem_of 3 [52, 50, 32]" 3 42] by simp
qed

end
