(* ===== verification/Heap.thy ===== *)
theory Heap
  imports Slab_Cache Kstring
begin

text \<open>
  The kernel heap of \<^verbatim>\<open>kernel/src/mm/heap.c\<close>. Small requests are served from six caches of
  slabs, larger ones from blocks of pages with a header of their own. As in \<open>Slab_Cache\<close>, the
  headers are a function of the virtual address and the contents of objects are a byte memory.
  A page has one kind of header for as long as it is mapped, so the links of the two kinds are
  the same fields. An operation has the result \<open>None\<close> when it does not return, when it faults on
  a page that is not mapped, and when it reads outside the bitmap of a slab.
\<close>

unbundle bit_operations_syntax

section \<open>State\<close>

definition SLAB_MAGIC :: u64 where "SLAB_MAGIC = 0x51ABCAFECAFE51AB"
definition BIG_MAGIC :: u64 where "BIG_MAGIC = 0xB16A110CB16A110C"

text \<open>The sizes of \<^verbatim>\<open>struct slab\<close> and \<^verbatim>\<open>struct big_alloc\<close>, with their alignment of 64.\<close>

definition HEAP_SLAB_HDR :: u64 where "HEAP_SLAB_HDR = 64"
definition BIG_HDR :: u64 where "BIG_HDR = 64"

record heap_page = slab_page +
  big_pages :: u64

record slab_cache = slab_heads +
  h_obj_size :: u64

record heap_state =
  hvmm :: vmm_state
  hpages :: "u64 \<Rightarrow> heap_page"
  caches :: "slab_cache list"
  big_alloc_head :: u64
  current_heap_vaddr :: u64
  heap_initialized :: bool
  hmem :: memory

definition CACHE_COUNT :: nat where "CACHE_COUNT = 6"

definition static_caches :: "slab_cache list" where
  "static_caches =
     map (\<lambda>n. \<lparr>slabs_partial = 0, slabs_full = 0, slabs_free = 0, h_obj_size = n\<rparr>) [32, 64, 128, 256, 512, 1024]"

definition put_hcache :: "nat \<Rightarrow> slab_cache \<Rightarrow> heap_state \<Rightarrow> heap_state" where
  "put_hcache i c s = s\<lparr>caches := (caches s)[i := c]\<rparr>"

definition allocate_virtual_space :: "u64 \<Rightarrow> heap_state \<Rightarrow> u64 \<times> heap_state" where
  "allocate_virtual_space pages s =
     (current_heap_vaddr s, s\<lparr>current_heap_vaddr := current_heap_vaddr s + pages * 4096\<rparr>)"

definition heap_init :: "heap_state \<Rightarrow> heap_state" where
  "heap_init s = s\<lparr>heap_initialized := True\<rparr>"

section \<open>Slabs\<close>

definition new_heap_slab :: "nat \<Rightarrow> slab_cache \<Rightarrow> heap_page" where
  "new_heap_slab i c =
     (let total_count = ucast ((4096 - HEAP_SLAB_HDR) div h_obj_size c);
          total_count = (if total_count > 128 then 128 else total_count)
      in \<lparr>sl_next = 0, sl_prev = 0, sp_magic = SLAB_MAGIC, sp_cache = i, free_count = total_count,
          total_count = total_count, sp_bitmap = [0, 0, 0, 0], big_pages = 0\<rparr>)"

definition allocate_new_slab :: "nat \<Rightarrow> heap_state \<Rightarrow> (u64 \<times> heap_state) option" where
  "allocate_new_slab i s = do {
     (frame, v) \<leftarrow> alloc_page (hvmm s);
     let s = s\<lparr>hvmm := v\<rparr>;
     if frame = 0 then Some (0, s)
     else do {
       let (vaddr, s) = allocate_virtual_space 1 s;
       let pml4 = vmm_get_active_pml4 (hvmm s);
       (ok, v) \<leftarrow> vmm_map_page pml4 vaddr (of_nat frame) (PAGE_FLAG_PRESENT OR PAGE_FLAG_RW) (hvmm s);
       let s = s\<lparr>hvmm := v\<rparr>;
       if \<not> ok then Some (0, s\<lparr>hvmm := free_page frame (hvmm s)\<rparr>)
       else Some (vaddr, s\<lparr>hmem := memset (hmem s) (unat vaddr) 0 4096,
                           hpages := (hpages s)(vaddr := new_heap_slab i (caches s ! i))\<rparr>)
     } }"

text \<open>The first slab of a list, taken off it.\<close>

definition list_pop ::
  "u64 \<Rightarrow> (u64 \<Rightarrow> 'a slab_links_scheme) \<Rightarrow> u64 \<times> (u64 \<Rightarrow> 'a slab_links_scheme)" where
  "list_pop s st =
     (let head = sl_next (st s);
          st = (if head \<noteq> 0 then st(head := (st head)\<lparr>sl_prev := 0\<rparr>) else st)
      in (head, st(s := (st s)\<lparr>sl_next := 0\<rparr>)))"

text \<open>A slab or a block taken out of a list; its own links keep their values.\<close>

definition list_remove ::
  "u64 \<Rightarrow> u64 \<Rightarrow> (u64 \<Rightarrow> 'a slab_links_scheme) \<Rightarrow> u64 \<times> (u64 \<Rightarrow> 'a slab_links_scheme)" where
  "list_remove head s st =
     (let (head, st) =
            (if sl_prev (st s) \<noteq> 0
             then (head, st(sl_prev (st s) := (st (sl_prev (st s)))\<lparr>sl_next := sl_next (st s)\<rparr>))
             else (sl_next (st s), st));
          st = (if sl_next (st s) \<noteq> 0
                then st(sl_next (st s) := (st (sl_next (st s)))\<lparr>sl_prev := sl_prev (st s)\<rparr>)
                else st)
      in (head, st))"

section \<open>Allocation\<close>

text \<open>The first cache whose objects are large enough.\<close>

fun cache_for :: "u64 \<Rightarrow> slab_cache list \<Rightarrow> nat \<Rightarrow> nat option" where
  "cache_for sz [] i = None"
| "cache_for sz (c # cs) i = (if sz \<le> h_obj_size c then Some i else cache_for sz cs (i + 1))"

definition heap_slab_for_alloc :: "nat \<Rightarrow> heap_state \<Rightarrow> (u64 \<times> heap_state) option" where
  "heap_slab_for_alloc i s =
     (if slabs_partial (caches s ! i) \<noteq> 0 then Some (slabs_partial (caches s ! i), s)
      else do {
        (sl, s) \<leftarrow>
          (if slabs_free (caches s ! i) \<noteq> 0 then
             (let sl = slabs_free (caches s ! i);
                  (h, st) = list_pop sl (hpages s)
              in Some (sl, put_hcache i ((caches s ! i)\<lparr>slabs_free := h\<rparr>) (s\<lparr>hpages := st\<rparr>)))
           else allocate_new_slab i s);
        if sl = 0 then Some (0, s)
        else
          (let (h, st) = slab_push (slabs_partial (caches s ! i)) sl (hpages s)
           in Some (sl, put_hcache i ((caches s ! i)\<lparr>slabs_partial := h\<rparr>) (s\<lparr>hpages := st\<rparr>)))
      })"

definition heap_claim ::
  "u64 \<Rightarrow> nat \<Rightarrow> 'c slab_heads_scheme \<times> (u64 \<Rightarrow> 'a slab_page_scheme) \<Rightarrow>
   'c slab_heads_scheme \<times> (u64 \<Rightarrow> 'a slab_page_scheme)" where
  "heap_claim s k =
     (\<lambda>(c, st).
        let st = st(s := (st s)\<lparr>sp_bitmap := BITMAP_SET (sp_bitmap (st s)) k,
                                free_count := free_count (st s) - 1\<rparr>)
        in if free_count (st s) = 0 then
             (let (h, st) = list_remove (slabs_partial c) s st;
                  c = c\<lparr>slabs_partial := h\<rparr>;
                  (h, st) = slab_push (slabs_full c) s st
              in (c\<lparr>slabs_full := h\<rparr>, st))
           else (c, st))"

definition kmalloc_slab :: "nat \<Rightarrow> heap_state \<Rightarrow> (u64 \<times> heap_state) option" where
  "kmalloc_slab i s = do {
     (sl, s) \<leftarrow> heap_slab_for_alloc i s;
     if sl = 0 then Some (0, s)
     else case find_free (sp_bitmap (hpages s sl)) 0 (unat (total_count (hpages s sl))) of
       None \<Rightarrow> Some (0, s)
     | Some free_idx \<Rightarrow>
         (let (c, st) = heap_claim sl free_idx (caches s ! i, hpages s);
              s = put_hcache i c (s\<lparr>hpages := st\<rparr>);
              obj_base = sl + HEAP_SLAB_HDR
          in Some (obj_base + of_nat free_idx * h_obj_size c, s))
   }"

definition alloc_blocks :: "u64 \<Rightarrow> vmm_state \<Rightarrow> (nat \<times> vmm_state) option" where
  "alloc_blocks pages v = map_option (\<lambda>(a, q). (a, v\<lparr>pmm := q\<rparr>)) (pmm_alloc_pages (pmm v) (unat pages))"

definition free_blocks :: "nat \<Rightarrow> u64 \<Rightarrow> vmm_state \<Rightarrow> vmm_state option" where
  "free_blocks a pages v = map_option (\<lambda>q. v\<lparr>pmm := q\<rparr>) (pmm_free_pages (pmm v) a (unat pages))"

definition big_pages_for :: "u64 \<Rightarrow> u64" where
  "big_pages_for sz = (let total_size = sz + BIG_HDR in (total_size + 4096 - 1) div 4096)"

definition kmalloc_big :: "u64 \<Rightarrow> heap_state \<Rightarrow> (u64 \<times> heap_state) option" where
  "kmalloc_big sz s = do {
     let pages = big_pages_for sz;
     (blocks, v) \<leftarrow> alloc_blocks pages (hvmm s);
     let s = s\<lparr>hvmm := v\<rparr>;
     if blocks = 0 then Some (0, s)
     else do {
       let (vaddr, s) = allocate_virtual_space pages s;
       let pml4 = vmm_get_active_pml4 (hvmm s);
       (ok, v) \<leftarrow> vmm_map_range pml4 vaddr (of_nat blocks) (unat pages) (PAGE_FLAG_PRESENT OR PAGE_FLAG_RW) (hvmm s);
       let s = s\<lparr>hvmm := v\<rparr>;
       if \<not> ok then do {
         v \<leftarrow> free_blocks blocks pages (hvmm s);
         Some (0, s\<lparr>hvmm := v\<rparr>)
       } else do {
         let st = (hpages s)(vaddr := (hpages s vaddr)\<lparr>sp_magic := BIG_MAGIC, big_pages := pages\<rparr>);
         let (h, st) = slab_push (big_alloc_head s) vaddr st;
         Some (vaddr + BIG_HDR, s\<lparr>hpages := st, big_alloc_head := h\<rparr>)
       } } }"

definition kmalloc :: "u64 \<Rightarrow> heap_state \<Rightarrow> (u64 \<times> heap_state) option" where
  "kmalloc sz s =
     (if sz = 0 then Some (0, s)
      else case cache_for sz (caches s) 0 of
        Some i \<Rightarrow> kmalloc_slab i s
      | None \<Rightarrow> kmalloc_big sz s)"

section \<open>Release\<close>

definition heap_reopen ::
  "u64 \<Rightarrow> 'c slab_heads_scheme \<times> (u64 \<Rightarrow> 'a slab_page_scheme) \<Rightarrow>
   'c slab_heads_scheme \<times> (u64 \<Rightarrow> 'a slab_page_scheme)" where
  "heap_reopen s =
     (\<lambda>(c, st).
        if free_count (st s) = 1 then
          (let (h, st) = list_remove (slabs_full c) s st;
               c = c\<lparr>slabs_full := h\<rparr>;
               (h, st) = slab_push (slabs_partial c) s st
           in (c\<lparr>slabs_partial := h\<rparr>, st))
        else (c, st))"

definition heap_retire ::
  "u64 \<Rightarrow> 'c slab_heads_scheme \<times> (u64 \<Rightarrow> 'a slab_page_scheme) \<Rightarrow>
   'c slab_heads_scheme \<times> (u64 \<Rightarrow> 'a slab_page_scheme)" where
  "heap_retire s =
     (\<lambda>(c, st).
        if free_count (st s) = total_count (st s) then
          (let (h, st) = list_remove (slabs_partial c) s st;
               c = c\<lparr>slabs_partial := h\<rparr>;
               (h, st) = slab_push (slabs_free c) s st
           in (c\<lparr>slabs_free := h\<rparr>, st))
        else (c, st))"

definition heap_unclaim ::
  "u64 \<Rightarrow> nat \<Rightarrow> 'c slab_heads_scheme \<times> (u64 \<Rightarrow> 'a slab_page_scheme) \<Rightarrow>
   'c slab_heads_scheme \<times> (u64 \<Rightarrow> 'a slab_page_scheme)" where
  "heap_unclaim s k =
     (\<lambda>(c, st).
        heap_retire s (heap_reopen s
          (c, st(s := (st s)\<lparr>sp_bitmap := BITMAP_CLEAR (sp_bitmap (st s)) k,
                             free_count := free_count (st s) + 1\<rparr>))))"

definition kfree_slab :: "u64 \<Rightarrow> u64 \<Rightarrow> heap_state \<Rightarrow> heap_state option" where
  "kfree_slab ptr page_base s =
     (let sl = hpages s page_base;
          i = sp_cache sl;
          offset = ptr - (page_base + HEAP_SLAB_HDR);
          idx = (ucast (offset div h_obj_size (caches s ! i)) :: u32) in
      if idx \<ge> 128 then None
      else if \<not> BITMAP_TEST (sp_bitmap sl) (unat idx) then Some s
      else
        (let (c, st) = heap_unclaim page_base (unat idx) (caches s ! i, hpages s)
         in Some (put_hcache i c (s\<lparr>hpages := st\<rparr>))))"

definition kfree_big :: "u64 \<Rightarrow> heap_state \<Rightarrow> heap_state option" where
  "kfree_big page_base s = do {
     let (h, st) = list_remove (big_alloc_head s) page_base (hpages s);
     let s = s\<lparr>hpages := st, big_alloc_head := h\<rparr>;
     let pages = big_pages (hpages s page_base);
     let pml4 = vmm_get_active_pml4 (hvmm s);
     let phys_addr = vmm_virt_to_phys (hvmm s) pml4 page_base;
     let v = fold (\<lambda>i. vmm_unmap_page pml4 (page_base + of_nat i * 4096)) [0..<unat pages] (hvmm s);
     v \<leftarrow> free_blocks (unat phys_addr) pages v;
     Some (s\<lparr>hvmm := v\<rparr>)
   }"

definition kfree :: "u64 \<Rightarrow> heap_state \<Rightarrow> heap_state option" where
  "kfree ptr s =
     (if ptr = 0 then Some s
      else
        (let page_base = ptr AND NOT 0xFFF; magic_check = sp_magic (hpages s page_base) in
         if \<not> page_present (hvmm s) page_base then None
         else if magic_check = SLAB_MAGIC then kfree_slab ptr page_base s
         else if magic_check = BIG_MAGIC then kfree_big page_base s
         else Some s))"

section \<open>Cleared and resized memory\<close>

definition kcalloc :: "u64 \<Rightarrow> u64 \<Rightarrow> heap_state \<Rightarrow> (u64 \<times> heap_state) option" where
  "kcalloc num sz s = do {
     let total_size = num * sz;
     (ptr, s) \<leftarrow> kmalloc total_size s;
     Some (ptr, if ptr \<noteq> 0 then s\<lparr>hmem := memset (hmem s) (unat ptr) 0 (unat total_size)\<rparr> else s)
   }"

text \<open>The size of the object or block at an address; the inner \<open>None\<close> is an invalid pointer.\<close>

definition old_size_of :: "u64 \<Rightarrow> heap_state \<Rightarrow> u64 option option" where
  "old_size_of ptr s =
     (let page_base = ptr AND NOT 0xFFF; magic_check = sp_magic (hpages s page_base) in
      if \<not> page_present (hvmm s) page_base then None
      else if magic_check = SLAB_MAGIC then Some (Some (h_obj_size (caches s ! sp_cache (hpages s page_base))))
      else if magic_check = BIG_MAGIC then Some (Some (big_pages (hpages s page_base) * 4096 - BIG_HDR))
      else Some None)"

definition krealloc :: "u64 \<Rightarrow> u64 \<Rightarrow> heap_state \<Rightarrow> (u64 \<times> heap_state) option" where
  "krealloc ptr new_size s =
     (if ptr = 0 then kmalloc new_size s
      else if new_size = 0 then do { s \<leftarrow> kfree ptr s; Some (0, s) }
      else do {
        r \<leftarrow> old_size_of ptr s;
        case r of
          None \<Rightarrow> Some (0, s)
        | Some old_size \<Rightarrow>
            if new_size \<le> old_size then Some (ptr, s)
            else do {
              (new_ptr, s) \<leftarrow> kmalloc new_size s;
              if new_ptr \<noteq> 0 then do {
                let s = s\<lparr>hmem := memcpy (hmem s) (unat new_ptr) (unat ptr) (unat old_size)\<rparr>;
                s \<leftarrow> kfree ptr s;
                Some (new_ptr, s)
              } else Some (new_ptr, s)
            } })"

section \<open>Statistics\<close>

text \<open>
  The text is built as a string; \<^verbatim>\<open>strcat\<close> on the buffer is the append of strings.
\<close>

function u64_digits :: "u64 \<Rightarrow> string \<Rightarrow> string" where
  "u64_digits val temp = (if val > 0 then u64_digits (val div 10) (temp @ [char_of (unat (val mod 10) + 48)]) else temp)"
  by pat_completeness auto
termination
  by (relation "measure (\<lambda>(val, temp). unat val)") (auto simp: unat_div word_less_nat_alt)

declare u64_digits.simps [simp del]

definition heap_u64_to_str :: "u64 \<Rightarrow> string" where
  "heap_u64_to_str val = (if val = 0 then ''0'' else rev (u64_digits val []))"

partial_function (option) count_slabs ::
  "(u64 \<Rightarrow> heap_page) \<Rightarrow> u64 \<Rightarrow> u32 \<times> u32 \<times> u32 \<Rightarrow> (u32 \<times> u32 \<times> u32) option" where
  "count_slabs st s n =
     (if s \<noteq> 0 then
        count_slabs st (sl_next (st s)) (case n of (slab_num, obj_num, free_num) \<Rightarrow>
          (slab_num + 1, obj_num + total_count (st s), free_num + free_count (st s)))
      else Some n)"

definition cache_stats :: "heap_state \<Rightarrow> slab_cache \<Rightarrow> (u32 \<times> u32 \<times> u32) option" where
  "cache_stats s c = do {
     n \<leftarrow> count_slabs (hpages s) (slabs_partial c) (0, 0, 0);
     n \<leftarrow> count_slabs (hpages s) (slabs_full c) n;
     count_slabs (hpages s) (slabs_free c) n
   }"

definition padded :: "nat \<Rightarrow> u64 \<Rightarrow> string" where
  "padded width n = (let num_buf = heap_u64_to_str n in num_buf @ replicate (width - length num_buf) CHR '' '')"

definition cache_line :: "slab_cache \<Rightarrow> u32 \<times> u32 \<times> u32 \<Rightarrow> string" where
  "cache_line c = (\<lambda>(slab_num, obj_num, free_num).
     ''  '' @ padded 5 (h_obj_size c) @ ''| '' @ padded 12 (ucast slab_num) @ ''| '' @
     padded 11 (ucast obj_num) @ ''| '' @ heap_u64_to_str (ucast free_num) @ [CHR 0x0A])"

partial_function (option) count_big :: "(u64 \<Rightarrow> heap_page) \<Rightarrow> u64 \<Rightarrow> u32 \<times> u64 \<Rightarrow> (u32 \<times> u64) option" where
  "count_big st b n =
     (if b \<noteq> 0 then
        count_big st (sl_next (st b)) (case n of (big_count, total_pages) \<Rightarrow> (big_count + 1, total_pages + big_pages (st b)))
      else Some n)"

fun cache_lines :: "heap_state \<Rightarrow> slab_cache list \<Rightarrow> string option" where
  "cache_lines s [] = Some []"
| "cache_lines s (c # cs) = do {
     n \<leftarrow> cache_stats s c;
     r \<leftarrow> cache_lines s cs;
     Some (cache_line c n @ r)
   }"

definition heap_get_info :: "heap_state \<Rightarrow> string option" where
  "heap_get_info s = do {
     let nl = [CHR 0x0A];
     let head = ''Slab Statistics:'' @ nl @ ''  Size | Total Slabs | Total Objs | Free Objs'' @ nl @
                ''-------|-------------|------------|-----------'' @ nl;
     rows \<leftarrow> cache_lines s (caches s);
     (big_count, total_pages) \<leftarrow> count_big (hpages s) (big_alloc_head s) (0, 0);
     Some (head @ rows @ nl @ ''Big Allocations:'' @ nl @
       ''  Count: '' @ heap_u64_to_str (ucast big_count) @ nl @
       ''  Total Pages: '' @ heap_u64_to_str total_pages @ nl @
       ''  Total Size: '' @ heap_u64_to_str (total_pages * 4096 div 1024) @ '' kB'' @ nl)
   }"

declare count_slabs.simps [code] count_big.simps [code]

end
