(* ===== verification/Pmm_Invariant.thy ===== *)
theory Pmm_Invariant
  imports Pmm
begin

unbundle bit_operations_syntax

text \<open>
  The invariant of the page allocator and the four moves its operations are made of: take a
  block off its list, put a block on a list, mark pages used, mark pages free.
\<close>

section \<open>Page sets\<close>

definition pages :: "nat \<Rightarrow> nat \<Rightarrow> nat set" where
  "pages order p = {p..<p + 2 ^ order}"

definition page_used :: "pmm_state \<Rightarrow> nat \<Rightarrow> bool" where
  "page_used s q \<longleftrightarrow> bitmap_test (bitmap s) (q - lowest_page s)"

definition page_managed :: "pmm_state \<Rightarrow> nat \<Rightarrow> bool" where
  "page_managed s q \<longleftrightarrow> bitmap_test (managed_bitmap s) (q - lowest_page s)"

definition in_bounds :: "pmm_state \<Rightarrow> nat \<Rightarrow> bool" where
  "in_bounds s q \<longleftrightarrow> lowest_page s \<le> q \<and> q < highest_page s"

text \<open>The free pages, as the bitmap has them.\<close>

definition free_set :: "pmm_state \<Rightarrow> nat set" where
  "free_set s = {q. in_bounds s q \<and> \<not> page_used s q}"

section \<open>The invariant\<close>

text \<open>Sizes and addresses fit: no wrap-around, and the list heads lie outside the page map.\<close>

definition pmm_geometry :: "pmm_state \<Rightarrow> bool" where
  "pmm_geometry s \<longleftrightarrow>
     HIGHER_HALF \<le> physical_memory_offset s \<and>
     physical_memory_offset s + highest_page s * PAGE_SIZE \<le> zone s \<and>
     zone s + 16 * MAX_ORDER \<le> 2 ^ 64 \<and>
     0 < lowest_page s \<and>
     highest_page s - lowest_page s \<le> 8 * length (bitmap s) \<and>
     highest_page s - lowest_page s \<le> 8 * length (managed_bitmap s) \<and>
     highest_page s - lowest_page s \<le> length (refcounts s)"

definition block_addr :: "pmm_state \<Rightarrow> nat \<Rightarrow> nat" where
  "block_addr s p = p * PAGE_SIZE + physical_memory_offset s"

definition block_ok :: "pmm_state \<Rightarrow> nat \<Rightarrow> nat \<Rightarrow> bool" where
  "block_ok s order p \<longleftrightarrow> lowest_page s \<le> p \<and> p + 2 ^ order \<le> highest_page s \<and> 2 ^ order dvd p"

text \<open>
  The free lists hold the blocks \<open>L\<close> (by order, as page numbers). Every block is aligned and
  inside the bounds and carries its order, blocks are disjoint, and a page is marked free exactly
  if it lies in a block or in the set \<open>X\<close> of free pages that an operation holds in hand.
\<close>

definition listed :: "(nat \<Rightarrow> nat list) \<Rightarrow> (nat \<times> nat) set" where
  "listed L = {(k, p). k < MAX_ORDER \<and> p \<in> set (L k)}"

definition listed_pages :: "(nat \<Rightarrow> nat list) \<Rightarrow> nat set" where
  "listed_pages L = (\<Union>(k, p)\<in>listed L. pages k p)"

definition pmm_core :: "pmm_state \<Rightarrow> (nat \<Rightarrow> nat list) \<Rightarrow> nat set \<Rightarrow> bool" where
  "pmm_core s L X \<longleftrightarrow>
     pmm_geometry s \<and>
     list_family (store s) MAX_ORDER (free_list s) (\<lambda>k. map (block_addr s) (L k)) \<and>
     (\<forall>(k, p)\<in>listed L. block_ok s k p \<and> block_order s (block_addr s p) = k) \<and>
     (\<forall>(k, p)\<in>listed L. \<forall>(k', p')\<in>listed L. (k, p) \<noteq> (k', p') \<longrightarrow> pages k p \<inter> pages k' p' = {}) \<and>
     X \<inter> listed_pages L = {} \<and>
     free_set s = listed_pages L \<union> X \<and>
     (\<forall>q\<in>free_set s. page_managed s q)"

definition pmm_inv :: "pmm_state \<Rightarrow> bool" where
  "pmm_inv s \<longleftrightarrow> (\<exists>L. pmm_core s L {})"

lemma pages_simps: "q \<in> pages order p \<longleftrightarrow> p \<le> q \<and> q < p + 2 ^ order" "p \<in> pages order p"
  by (simp_all add: pages_def)

lemma pmm_coreI:
  assumes "pmm_geometry s"
    "list_family (store s) MAX_ORDER (free_list s) (\<lambda>k. map (block_addr s) (L k))"
    "\<And>k p. (k, p) \<in> listed L \<Longrightarrow> block_ok s k p"
    "\<And>k p. (k, p) \<in> listed L \<Longrightarrow> block_order s (block_addr s p) = k"
    "\<And>k p k' p'. (k, p) \<in> listed L \<Longrightarrow> (k', p') \<in> listed L \<Longrightarrow> (k, p) \<noteq> (k', p') \<Longrightarrow> pages k p \<inter> pages k' p' = {}"
    "X \<inter> listed_pages L = {}" "free_set s = listed_pages L \<union> X"
    "\<And>q. q \<in> free_set s \<Longrightarrow> page_managed s q"
  shows "pmm_core s L X"
  unfolding pmm_core_def using assms by blast

lemma pmm_core_elims:
  assumes "pmm_core s L X"
  shows "pmm_geometry s"
    "list_family (store s) MAX_ORDER (free_list s) (\<lambda>k. map (block_addr s) (L k))"
    "(k, p) \<in> listed L \<Longrightarrow> block_ok s k p"
    "(k, p) \<in> listed L \<Longrightarrow> block_order s (block_addr s p) = k"
    "(k, p) \<in> listed L \<Longrightarrow> (k', p') \<in> listed L \<Longrightarrow> (k, p) \<noteq> (k', p') \<Longrightarrow> pages k p \<inter> pages k' p' = {}"
    "X \<inter> listed_pages L = {}" "free_set s = listed_pages L \<union> X"
    "q \<in> free_set s \<Longrightarrow> page_managed s q"
  using assms unfolding pmm_core_def by blast+

text \<open>Page numbers and block addresses determine each other.\<close>

lemma block_addr_inj: "block_addr s p = block_addr s q \<longleftrightarrow> p = q"
  by (simp add: block_addr_def PAGE_SIZE_def)

lemma remove1_map_block: "remove1 (block_addr s p) (map (block_addr s) xs) = map (block_addr s) (remove1 p xs)"
  by (induction xs) (auto simp: block_addr_inj)

lemma virt_to_buddy_addr:
  assumes "pmm_geometry s" "p < highest_page s"
  shows "virt_to_buddy s (p * PAGE_SIZE) = block_addr s p"
    "buddy_to_phys s (block_addr s p) = p * PAGE_SIZE"
    "HIGHER_HALF \<le> block_addr s p"
proof -
  have "p * PAGE_SIZE + PAGE_SIZE \<le> highest_page s * PAGE_SIZE"
    using assms(2) by (metis Suc_leI add.commute mult_Suc mult_le_mono1)
  then have b: "p * PAGE_SIZE + physical_memory_offset s < 2 ^ 64" "physical_memory_offset s < 2 ^ 64"
    using assms(1) by (auto simp: pmm_geometry_def PAGE_SIZE_def MAX_ORDER_def)
  show "virt_to_buddy s (p * PAGE_SIZE) = block_addr s p"
    using b by (simp add: virt_to_buddy_def block_addr_def)
  have "block_addr s p + (2 ^ 64 - physical_memory_offset s) = p * PAGE_SIZE + 2 ^ 64"
    using b by (simp add: block_addr_def)
  then show "buddy_to_phys s (block_addr s p) = p * PAGE_SIZE"
    using b by (simp add: buddy_to_phys_def)
  show "HIGHER_HALF \<le> block_addr s p" using assms(1) by (simp add: pmm_geometry_def block_addr_def)
qed

lemma block_addr_not_head:
  assumes "pmm_geometry s" "p < highest_page s"
  shows "block_addr s p \<noteq> free_list s k"
proof -
  have "p * PAGE_SIZE + PAGE_SIZE \<le> highest_page s * PAGE_SIZE"
    using assms(2) by (metis Suc_leI add.commute mult_Suc mult_le_mono1)
  then show ?thesis using assms(1) by (auto simp: pmm_geometry_def block_addr_def free_list_def PAGE_SIZE_def)
qed

section \<open>The four moves\<close>

lemma core_take:
  assumes c: "pmm_core s L X" and k: "k < MAX_ORDER" and p: "p \<in> set (L k)"
  shows "pmm_core (unlink_block s (block_addr s p)) (L(k := remove1 p (L k))) (X \<union> pages k p)"
proof -
  let ?s = "unlink_block s (block_addr s p)" and ?L = "L(k := remove1 p (L k))"
  note e = pmm_core_elims[OF c]
  have fields: "free_list ?s = free_list s" "block_addr ?s = block_addr s" "pmm_geometry ?s = pmm_geometry s"
    "block_ok ?s = block_ok s" "block_order ?s = block_order s" "free_set ?s = free_set s" "page_managed ?s = page_managed s"
    by (auto simp: unlink_block_def fun_eq_iff free_list_def block_addr_def pmm_geometry_def block_ok_def
        free_set_def in_bounds_def page_used_def page_managed_def)
  have dist: "distinct (map (block_addr s) (L k))"
    using e(2) k unfolding list_family_def dlist_def by auto
  then have dL: "distinct (L k)" by (simp add: distinct_map)
  have rem: "remove1 (block_addr s p) (map (block_addr s) (L k)) = map (block_addr s) (remove1 p (L k))"
    by (rule remove1_map_block)
  have fam: "list_family (store ?s) MAX_ORDER (free_list s) (\<lambda>i. map (block_addr s) (?L i))"
  proof -
    have "list_family (list_del (store s) (block_addr s p)) MAX_ORDER (free_list s)
        ((\<lambda>i. map (block_addr s) (L i))(k := remove1 (block_addr s p) (map (block_addr s) (L k))))"
      by (rule list_family_del[OF e(2) k]) (use p in simp)
    moreover have "(\<lambda>i. map (block_addr s) (?L i)) =
        (\<lambda>i. map (block_addr s) (L i))(k := remove1 (block_addr s p) (map (block_addr s) (L k)))"
      by (auto simp: rem)
    ultimately show ?thesis by (simp add: unlink_block_def)
  qed
  have lst: "listed ?L = listed L - {(k, p)}" using dL k by (auto simp: listed_def split: if_splits)
  have pin: "(k, p) \<in> listed L" using k p by (simp add: listed_def)
  have lp: "listed_pages L = listed_pages ?L \<union> pages k p" "listed_pages ?L \<inter> pages k p = {}"
    using e(5)[OF pin] pin unfolding listed_pages_def lst by blast+
  show ?thesis
  proof (rule pmm_coreI)
    show "list_family (store ?s) MAX_ORDER (free_list ?s) (\<lambda>i. map (block_addr ?s) (?L i))"
      unfolding fields by (rule fam)
    show "(X \<union> pages k p) \<inter> listed_pages ?L = {}" "free_set ?s = listed_pages ?L \<union> (X \<union> pages k p)"
      using e(6,7) lp unfolding fields by blast+
  qed (use e(1,3,4,5,8) in \<open>auto simp: fields lst\<close>)
qed

lemma core_put:
  assumes c: "pmm_core s L X" and k: "k < MAX_ORDER" and b: "block_ok s k p" and X: "pages k p \<subseteq> X"
  shows "pmm_core (link_block s (p * PAGE_SIZE) k) (L(k := L k @ [p])) (X - pages k p)"
proof -
  let ?s = "link_block s (p * PAGE_SIZE) k" and ?L = "L(k := L k @ [p])"
  note e = pmm_core_elims[OF c]
  have hi: "p < highest_page s" using b by (auto simp: block_ok_def intro: less_le_trans[of _ "p + 2 ^ k"])
  note va = virt_to_buddy_addr[OF e(1) hi]
  have link: "?s = s\<lparr>block_order := (block_order s)(block_addr s p := k),
      store := list_add_tail (store s) (block_addr s p) (free_list s k)\<rparr>"
    by (simp add: link_block_def va(1) Let_def)
  have fields: "free_list ?s = free_list s" "block_addr ?s = block_addr s" "pmm_geometry ?s = pmm_geometry s"
    "block_ok ?s = block_ok s" "free_set ?s = free_set s" "page_managed ?s = page_managed s"
    by (auto simp: link fun_eq_iff free_list_def block_addr_def pmm_geometry_def block_ok_def
        free_set_def in_bounds_def page_used_def page_managed_def)
  have new: "(j, p) \<notin> listed L" for j
    using X e(6) pages_simps(2)[of p k] pages_simps(2)[of p j] by (force simp: listed_pages_def)
  have fam: "list_family (store ?s) MAX_ORDER (free_list s) (\<lambda>i. map (block_addr s) (?L i))"
  proof -
    have "list_family (list_add_tail (store s) (block_addr s p) (free_list s k)) MAX_ORDER (free_list s)
        ((\<lambda>i. map (block_addr s) (L i))(k := map (block_addr s) (L k) @ [block_addr s p]))"
    proof (rule list_family_add_tail[OF e(2) k _ va(3)], intro allI impI)
      fix j assume "j < MAX_ORDER"
      then show "block_addr s p \<notin> set (free_list s j # map (block_addr s) (L j))"
        using block_addr_not_head[OF e(1) hi] new[of j] by (auto simp: listed_def block_addr_inj)
    qed
    moreover have "(\<lambda>i. map (block_addr s) (?L i)) =
        (\<lambda>i. map (block_addr s) (L i))(k := map (block_addr s) (L k) @ [block_addr s p])" by auto
    ultimately show ?thesis by (simp add: link)
  qed
  have lst: "listed ?L = insert (k, p) (listed L)" using k by (auto simp: listed_def split: if_splits)
  have lp: "listed_pages ?L = listed_pages L \<union> pages k p" unfolding listed_pages_def lst by blast
  show ?thesis
  proof (rule pmm_coreI)
    show "list_family (store ?s) MAX_ORDER (free_list ?s) (\<lambda>i. map (block_addr ?s) (?L i))"
      unfolding fields by (rule fam)
    show "(X - pages k p) \<inter> listed_pages ?L = {}" "free_set ?s = listed_pages ?L \<union> (X - pages k p)"
      using e(6,7) lp X unfolding fields by blast+
    show "block_order ?s (block_addr ?s j) = i" if "(i, j) \<in> listed ?L" for i j
      using that e(4) new[of i] unfolding fields lst by (auto simp: link block_addr_inj)
    show "pages i j \<inter> pages i' j' = {}"
      if "(i, j) \<in> listed ?L" "(i', j') \<in> listed ?L" "(i, j) \<noteq> (i', j')" for i j i' j'
    proof -
      have "pages k p \<inter> pages a b = {}" if "(a, b) \<in> listed L" for a b
        using that X e(6) unfolding listed_pages_def by blast
      then show ?thesis using that e(5) unfolding lst by blast
    qed
  qed (use e(1,3,8) b in \<open>auto simp: fields lst\<close>)
qed

text \<open>Frame: the invariant looks at the reference counts only through their number.\<close>

lemma core_frame:
  assumes "pmm_core s L X" "zone s' = zone s" "store s' = store s" "block_order s' = block_order s"
    "bitmap s' = bitmap s" "managed_bitmap s' = managed_bitmap s" "length (refcounts s') = length (refcounts s)"
    "lowest_page s' = lowest_page s" "highest_page s' = highest_page s"
    "physical_memory_offset s' = physical_memory_offset s"
  shows "pmm_core s' L X"
proof -
  have "free_list s' = free_list s" "block_addr s' = block_addr s" "pmm_geometry s' = pmm_geometry s"
    "block_ok s' = block_ok s" "free_set s' = free_set s" "page_managed s' = page_managed s"
    using assms(2-)
    by (auto simp: fun_eq_iff free_list_def block_addr_def pmm_geometry_def block_ok_def
        free_set_def in_bounds_def page_used_def page_managed_def)
  then show ?thesis using assms unfolding pmm_core_def by simp
qed

text \<open>The bits of the pages after a range operation on one block.\<close>

lemma mark_bits:
  assumes g: "pmm_geometry s" and b: "block_ok s k p" and q: "in_bounds s q"
  shows "page_used (mark_used s p (2 ^ k)) q \<longleftrightarrow> q \<in> pages k p \<or> page_used s q"
    "page_used (mark_free s p (2 ^ k)) q \<longleftrightarrow> q \<notin> pages k p \<and> page_used s q"
    "page_managed (mark_managed s p (2 ^ k)) q \<longleftrightarrow> q \<in> pages k p \<or> page_managed s q"
    "length (bitmap (mark_used s p (2 ^ k))) = length (bitmap s)"
    "length (bitmap (mark_free s p (2 ^ k))) = length (bitmap s)"
    "length (managed_bitmap (mark_managed s p (2 ^ k))) = length (managed_bitmap s)"
proof -
  have h: "highest_page s < 2 ^ 64" "lowest_page s \<le> p" "p + 2 ^ k \<le> highest_page s"
    using g b by (auto simp: pmm_geometry_def block_ok_def PAGE_SIZE_def MAX_ORDER_def)
  have l: "highest_page s - lowest_page s \<le> 8 * length (bitmap s)"
    "highest_page s - lowest_page s \<le> 8 * length (managed_bitmap s)"
    using g by (simp_all add: pmm_geometry_def)
  have j: "q - lowest_page s < 8 * length (bitmap s)" "q - lowest_page s < 8 * length (managed_bitmap s)"
    using q l by (auto simp: in_bounds_def)
  have in_p: "q \<in> pages k p \<longleftrightarrow> p - lowest_page s \<le> q - lowest_page s \<and> q - lowest_page s < p - lowest_page s + 2 ^ k"
    using h(2) q by (auto simp: pages_simps in_bounds_def)
  note r = bitmap_range_spec[OF h(2,3,1)]
  show "page_used (mark_used s p (2 ^ k)) q \<longleftrightarrow> q \<in> pages k p \<or> page_used s q"
    "page_used (mark_free s p (2 ^ k)) q \<longleftrightarrow> q \<notin> pages k p \<and> page_used s q"
    "page_managed (mark_managed s p (2 ^ k)) q \<longleftrightarrow> q \<in> pages k p \<or> page_managed s q"
    "length (bitmap (mark_used s p (2 ^ k))) = length (bitmap s)"
    "length (bitmap (mark_free s p (2 ^ k))) = length (bitmap s)"
    "length (managed_bitmap (mark_managed s p (2 ^ k))) = length (managed_bitmap s)"
    using r[OF l(1) _ j(1)] r[OF l(2) _ j(2)]
    by (simp_all add: page_used_def page_managed_def mark_used_def mark_free_def mark_managed_def in_p)
qed

lemma block_in_bounds: "block_ok s k p \<Longrightarrow> q \<in> pages k p \<Longrightarrow> in_bounds s q"
  by (auto simp: block_ok_def pages_simps in_bounds_def)

lemma core_use:
  assumes c: "pmm_core s L X" and b: "block_ok s k p" and X: "pages k p \<subseteq> X"
  shows "pmm_core (mark_used s p (2 ^ k)) L (X - pages k p)"
    "free_set (mark_used s p (2 ^ k)) = free_set s - pages k p"
proof -
  let ?s = "mark_used s p (2 ^ k)"
  note e = pmm_core_elims[OF c] and m = mark_bits[OF pmm_core_elims(1)[OF c] b]
  have ib: "in_bounds s p" using block_in_bounds[OF b] pages_simps(2) by blast
  have fields: "free_list ?s = free_list s" "block_addr ?s = block_addr s" "store ?s = store s"
    "block_ok ?s = block_ok s" "block_order ?s = block_order s" "page_managed ?s = page_managed s" "in_bounds ?s = in_bounds s"
    by (auto simp: mark_used_def fun_eq_iff free_list_def block_addr_def block_ok_def in_bounds_def page_managed_def)
  show fs: "free_set ?s = free_set s - pages k p" using m(1) by (auto simp: free_set_def fields)
  have "pmm_geometry ?s" using e(1) m(4)[OF ib] by (simp add: pmm_geometry_def mark_used_def)
  then show "pmm_core ?s L (X - pages k p)"
  proof (rule pmm_coreI)
    show "free_set ?s = listed_pages L \<union> (X - pages k p)" using fs e(6,7) X by blast
    show "(X - pages k p) \<inter> listed_pages L = {}" using e(6) by blast
  qed (use e(2-5,8) fs in \<open>auto simp: fields\<close>)
qed

lemma core_free:
  assumes c: "pmm_core s L X" and b: "block_ok s k p"
    and u: "\<forall>q\<in>pages k p. page_used s q \<and> page_managed s q"
  shows "pmm_core (mark_free s p (2 ^ k)) L (X \<union> pages k p)"
    "free_set (mark_free s p (2 ^ k)) = free_set s \<union> pages k p"
proof -
  let ?s = "mark_free s p (2 ^ k)"
  note e = pmm_core_elims[OF c] and m = mark_bits[OF pmm_core_elims(1)[OF c] b]
  have ib: "in_bounds s p" using block_in_bounds[OF b] pages_simps(2) by blast
  have fields: "free_list ?s = free_list s" "block_addr ?s = block_addr s" "store ?s = store s"
    "block_ok ?s = block_ok s" "block_order ?s = block_order s" "page_managed ?s = page_managed s" "in_bounds ?s = in_bounds s"
    by (auto simp: mark_free_def fun_eq_iff free_list_def block_addr_def block_ok_def in_bounds_def page_managed_def)
  show fs: "free_set ?s = free_set s \<union> pages k p"
    using m(2) block_in_bounds[OF b] by (auto simp: free_set_def fields)
  have dis: "free_set s \<inter> pages k p = {}" using u by (auto simp: free_set_def)
  have "pmm_geometry ?s" using e(1) m(5)[OF ib] by (simp add: pmm_geometry_def mark_free_def)
  then show "pmm_core ?s L (X \<union> pages k p)"
  proof (rule pmm_coreI)
    show "free_set ?s = listed_pages L \<union> (X \<union> pages k p)" using fs e(7) by blast
    show "(X \<union> pages k p) \<inter> listed_pages L = {}" using e(6,7) dis by blast
    show "page_managed ?s q" if "q \<in> free_set ?s" for q using that fs e(8) u by (auto simp: fields)
  qed (use e(2-5) in \<open>auto simp: fields\<close>)
qed

section \<open>Buddies\<close>

lemma unset_bit_nat_eq:
  fixes p :: nat
  assumes "bit p k"
  shows "unset_bit k p = p - 2 ^ k"
proof -
  have "set_bit k (unset_bit k p) = p"
    by (rule bit_eqI) (use assms in \<open>auto simp: bit_simps\<close>)
  moreover have "set_bit k (unset_bit k p) = unset_bit k p + 2 ^ k"
    unfolding set_bit_eq by (simp add: bit_simps)
  ultimately show ?thesis by linarith
qed

lemma buddy_pfn:
  fixes p :: nat
  assumes "2 ^ k dvd p"
  defines "b \<equiv> p XOR 2 ^ k" and "lo \<equiv> (if p < p XOR 2 ^ k then p else p XOR 2 ^ k)"
  shows "2 ^ k dvd b" "2 ^ (k + 1) dvd lo" "pages k p \<inter> pages k b = {}"
    "pages (k + 1) lo = pages k p \<union> pages k b" "if p < b then b = p + 2 ^ k else p = b + 2 ^ k"
proof -
  obtain m where m: "p = 2 ^ k * m" using assms(1) by (auto elim: dvdE)
  have bit: "bit p k \<longleftrightarrow> odd m" by (simp add: m bit_iff_odd)
  have b: "b = (if odd m then p - 2 ^ k else p + 2 ^ k)"
    using bit flip_bit_eq_xor[of k p] unset_bit_nat_eq[of p k] unfolding b_def
    by (auto simp: flip_bit_eq_if set_bit_eq)
  obtain n where n: "m = 2 * n \<or> m = 2 * n + 1" by (metis oddE evenE)
  have e: "b = 2 ^ k * (if odd m then 2 * n else 2 * n + 1)" "lo = 2 ^ (k + 1) * n"
    using n b unfolding lo_def b_def[symmetric] by (auto simp: m algebra_simps)
  show "2 ^ k dvd b" "2 ^ (k + 1) dvd lo" unfolding e by simp_all
  show "pages k p \<inter> pages k b = {}" "pages (k + 1) lo = pages k p \<union> pages k b"
    unfolding e using n by (auto simp: m pages_def algebra_simps)
  show "if p < b then b = p + 2 ^ k else p = b + 2 ^ k"
    unfolding e using n by (auto simp: m algebra_simps)
qed

lemma aligned_in_pages:
  assumes "2 ^ k dvd b" "2 ^ j dvd r" "b \<in> pages j r"
  shows "j \<le> k \<Longrightarrow> r = b" "k \<le> j \<Longrightarrow> pages k b \<subseteq> pages j r"
proof -
  obtain x y where xy: "b = 2 ^ k * x" "r = 2 ^ j * y" using assms by (auto elim!: dvdE)
  have r: "r \<le> b" "b < r + 2 ^ j" using assms(3) by (auto simp: pages_simps)
  show "r = b" if "j \<le> k"
  proof -
    have "2 ^ j dvd b" using assms(1) that by (meson dvd_trans le_imp_power_dvd)
    then obtain z where z: "b = 2 ^ j * z" by (auto elim: dvdE)
    then have "2 ^ j * y \<le> 2 ^ j * z" "2 ^ j * z < 2 ^ j * (y + 1)" using r xy(2) by (simp_all add: algebra_simps)
    then have "y \<le> z" "z < y + 1" by (metis mult_le_cancel1 nat_zero_less_power_iff zero_less_numeral, metis mult_less_cancel1)
    then show ?thesis using z xy by simp
  qed
  show "pages k b \<subseteq> pages j r" if "k \<le> j"
  proof -
    have "2 ^ k dvd r" using assms(2) that by (meson dvd_trans le_imp_power_dvd)
    have "2 ^ k dvd r + 2 ^ j" using \<open>2 ^ k dvd r\<close> that by (simp add: le_imp_power_dvd)
    then obtain w where w: "r + 2 ^ j = 2 ^ k * w" by (auto elim: dvdE)
    then have "2 ^ k * x < 2 ^ k * w" using r xy by simp
    then have "x < w" by (metis mult_less_cancel1)
    then have "2 ^ k * (x + 1) \<le> 2 ^ k * w" by (metis Suc_eq_plus1 Suc_leI mult_le_mono2)
    then show ?thesis using r w xy by (auto simp: pages_simps algebra_simps)
  qed
qed

section \<open>Coalescing\<close>

text \<open>The state of an operation may differ from the state it began in only in the free lists.\<close>

definition same_but_lists :: "pmm_state \<Rightarrow> pmm_state \<Rightarrow> bool" where
  "same_but_lists s s' \<longleftrightarrow> s' = s\<lparr>store := store s', block_order := block_order s'\<rparr>"

lemma same_but_lists_trans [trans]: "same_but_lists s s1 \<Longrightarrow> same_but_lists s1 s2 \<Longrightarrow> same_but_lists s s2"
  unfolding same_but_lists_def by (metis pmm_state.select_convs pmm_state.surjective pmm_state.update_convs(2,3))

lemma same_but_lists_unlink [simp]: "same_but_lists s (unlink_block s a)"
  by (simp add: same_but_lists_def unlink_block_def)

lemma same_but_lists_link [simp]: "same_but_lists s (link_block s a k)"
  by (simp add: same_but_lists_def link_block_def Let_def)

lemma same_but_lists_fields:
  assumes "same_but_lists s s'"
  shows "block_ok s' = block_ok s" "free_set s' = free_set s" "page_managed s' = page_managed s"
    "block_addr s' = block_addr s" "refcounts s' = refcounts s" "lowest_page s' = lowest_page s"
    "highest_page s' = highest_page s" "usable_memory s' = usable_memory s" "page_used s' = page_used s"
  by (subst assms[unfolded same_but_lists_def];
      auto simp: fun_eq_iff block_ok_def free_set_def in_bounds_def page_used_def page_managed_def block_addr_def)+

lemma buddy_listed:
  assumes c: "pmm_core s L X" and X: "pages k p \<subseteq> X" "2 ^ k dvd p"
    and b: "in_bounds s (p XOR 2 ^ k)" "\<not> page_used s (p XOR 2 ^ k)" "p XOR 2 ^ k \<notin> X"
    and k: "block_order s (block_addr s (p XOR 2 ^ k)) = k"
  shows "(k, p XOR 2 ^ k) \<in> listed L"
proof -
  let ?b = "p XOR 2 ^ k"
  note e = pmm_core_elims[OF c] and bp = buddy_pfn[OF X(2)]
  have "?b \<in> listed_pages L" using e(7) b by (auto simp: free_set_def)
  then obtain j r where j: "(j, r) \<in> listed L" "?b \<in> pages j r" by (auto simp: listed_pages_def)
  have al: "2 ^ j dvd r" using e(3)[OF j(1)] by (simp add: block_ok_def)
  show ?thesis
  proof (cases "j \<le> k")
    case True
    then have "r = ?b" using aligned_in_pages(1)[OF bp(1) al j(2)] by simp
    then show ?thesis using e(4)[OF j(1)] j(1) k by simp
  next
    case False
    let ?lo = "if p < ?b then p else ?b"
    have "?lo \<in> pages j r"
    proof (cases "p < ?b")
      case True
      have "r \<le> ?b" "?b < r + 2 ^ j" using j(2) by (auto simp: pages_simps)
      have "r \<le> p"
      proof (rule ccontr)
        assume "\<not> r \<le> p"
        then have "r \<in> pages (k + 1) ?lo"
          using True \<open>r \<le> ?b\<close> bp(4) pages_simps(2)[of ?b k] by (auto simp: pages_simps)
        then have "?lo = r" using aligned_in_pages(1)[of j r "k + 1" ?lo] al bp(2) False by auto
        then show False using \<open>\<not> r \<le> p\<close> True by simp
      qed
      then show ?thesis using True \<open>?b < r + 2 ^ j\<close> by (simp add: pages_simps)
    qed (use j(2) in simp)
    then have "pages (k + 1) ?lo \<subseteq> pages j r" using aligned_in_pages(2)[OF bp(2) al] False by simp
    then have "p \<in> pages j r" using bp(4) pages_simps(2)[of p k] by auto
    then have "p \<in> X \<inter> listed_pages L" using X(1) j(1) pages_simps(2)[of p k] by (auto simp: listed_pages_def)
    then show ?thesis using e(6) by auto
  qed
qed

lemma buddy_coalesce_spec:
  assumes "pmm_core s L (pages k p)" "block_ok s k p" "k < MAX_ORDER"
  shows "\<exists>s' p' k' L'. buddy_coalesce s p k = (s', p', k') \<and> pmm_core s' L' (pages k' p') \<and>
    block_ok s k' p' \<and> k' < MAX_ORDER \<and> same_but_lists s s'"
  using assms
proof (induction s p k arbitrary: L rule: buddy_coalesce.induct)
  case (1 s p k)
  let ?b = "p XOR 2 ^ k" and ?lo = "if p < p XOR 2 ^ k then p else p XOR 2 ^ k"
  let ?stop = "?b < lowest_page s \<or> ?b \<ge> highest_page s \<or> \<not> pmm_is_managed s (?b * PAGE_SIZE) \<or>
      bitmap_test (bitmap s) (?b - lowest_page s)"
  let ?buddy = "virt_to_buddy s (?b * PAGE_SIZE)"
  let ?go = "block_order s ?buddy = k \<and> lnext (store s) ?buddy \<noteq> 0 \<and> lprev (store s) ?buddy \<noteq> 0"
  show ?case
  proof (cases "k < MAX_ORDER - 1 \<and> \<not> ?stop \<and> ?go")
    case False
    then have "buddy_coalesce s p k = (s, p, k)"
      by (subst buddy_coalesce.simps) (auto simp: Let_def)
    then show ?thesis using "1.prems" by (auto simp: same_but_lists_def)
  next
    case True
    then have k: "k < MAX_ORDER - 1" and ns: "\<not> ?stop" and go: ?go by blast+
    note e = pmm_core_elims[OF "1.prems"(1)]
    have al: "2 ^ k dvd p" using "1.prems"(2) by (simp add: block_ok_def)
    note bp = buddy_pfn[OF al]
    have hb: "?b < highest_page s" using ns by simp
    have ba: "?buddy = block_addr s ?b" using virt_to_buddy_addr(1)[OF e(1) hb] .
    have bl: "(k, ?b) \<in> listed L"
    proof (rule buddy_listed[OF "1.prems"(1) order_refl al])
      show "?b \<notin> pages k p" using bp(3) pages_simps(2)[of ?b k] by blast
    qed (use ns go ba in \<open>auto simp: in_bounds_def page_used_def\<close>)
    then have kb: "k < MAX_ORDER" "?b \<in> set (L k)" by (auto simp: listed_def)
    let ?s1 = "unlink_block s ?buddy"
    have c1: "pmm_core ?s1 (L(k := remove1 ?b (L k))) (pages (k + 1) ?lo)"
      using core_take[OF "1.prems"(1) kb] bp(4) by (simp add: ba)
    have b1: "block_ok s (k + 1) ?lo"
      using "1.prems"(2) e(3)[OF bl] bp(2,5) by (auto simp: block_ok_def split: if_splits)
    then have b1': "block_ok ?s1 (k + 1) ?lo" by (simp add: unlink_block_def block_ok_def)
    have k1: "k + 1 < MAX_ORDER" using k by simp
    from "1.IH"[OF k refl ns refl go c1 b1' k1] obtain s' p' k' L' where
      r: "buddy_coalesce ?s1 ?lo (k + 1) = (s', p', k')" "pmm_core s' L' (pages k' p')"
      "block_ok ?s1 k' p'" "k' < MAX_ORDER" "same_but_lists ?s1 s'" by blast
    have "buddy_coalesce s p k = (s', p', k')"
      using k ns go r(1) by (subst buddy_coalesce.simps) (simp add: Let_def)
    moreover have "block_ok s k' p'" using r(3) by (simp add: unlink_block_def block_ok_def)
    ultimately show ?thesis using r(2,4) same_but_lists_trans[OF same_but_lists_unlink r(5)] by blast
  qed
qed

end
