(* ===== verification/Pmm_Correct.thy ===== *)
theory Pmm_Correct
  imports Pmm_Invariant
begin

text \<open>
  The correctness of the page allocator: its operations keep the invariant, hand out free pages
  only, and take them back.
\<close>

section \<open>Orders\<close>

lemma get_order_loop_spec:
  assumes "count \<le> 2 ^ n" "k \<le> n" "n < 64" "k = 0 \<or> 2 ^ (k - 1) < count"
  shows "\<exists>r. get_order_loop count (2 ^ k) k = Some r \<and> r \<le> n \<and> count \<le> 2 ^ r \<and> (r = 0 \<or> 2 ^ (r - 1) < count)"
  using assms
proof (induction "n - k" arbitrary: k)
  case 0
  then show ?case by (subst get_order_loop.simps) auto
next
  case (Suc d)
  show ?case
  proof (cases "2 ^ k < count")
    case True
    have "(2 ^ k * 2 :: nat) < 2 ^ 64"
    proof -
      have "(2 :: nat) ^ Suc k < 2 ^ 64" by (rule power_strict_increasing) (use Suc.hyps(2) Suc.prems in auto)
      then show ?thesis by (simp add: mult.commute)
    qed
    then have e: "get_order_loop count (2 ^ k) k = get_order_loop count (2 ^ Suc k) (Suc k)"
      using True by (subst get_order_loop.simps) (simp add: mult.commute)
    show ?thesis unfolding e by (rule Suc.hyps(1)) (use Suc.hyps(2) Suc.prems True in auto)
  next
    case False
    then show ?thesis using Suc.prems by (subst get_order_loop.simps) auto
  qed
qed

lemma get_order_spec:
  assumes "0 < count" "count \<le> 2 ^ 63"
  obtains r where "get_order count = Some r" "count \<le> 2 ^ r" "r = 0 \<or> 2 ^ (r - 1) < count"
  using get_order_loop_spec[of count 63 0] assms by (auto simp: get_order_def)

section \<open>Freeing\<close>

lemma pmm_inv_geometry: "pmm_inv s \<Longrightarrow> pmm_geometry s"
  by (auto simp: pmm_inv_def pmm_core_def)

lemma buddy_free_internal_spec:
  assumes i: "pmm_inv s" and b: "block_ok s k p" "k < MAX_ORDER" and phys: "phys div PAGE_SIZE = p"
    and u: "\<forall>q\<in>pages k p. page_used s q \<and> page_managed s q"
  shows "pmm_inv (buddy_free_internal s phys k)"
    "free_set (buddy_free_internal s phys k) = free_set s \<union> pages k p"
    "refcounts (buddy_free_internal s phys k) = refcounts s"
    "page_managed (buddy_free_internal s phys k) = page_managed s"
    "usable_memory (buddy_free_internal s phys k) = usable_memory s"
    "lowest_page (buddy_free_internal s phys k) = lowest_page s"
    "highest_page (buddy_free_internal s phys k) = highest_page s"
proof -
  obtain L where c: "pmm_core s L {}" using i by (auto simp: pmm_inv_def)
  let ?s1 = "mark_free s p (2 ^ k)"
  have c1: "pmm_core ?s1 L (pages k p)" "free_set ?s1 = free_set s \<union> pages k p"
    using core_free[OF c b(1) u] by auto
  have b1: "block_ok ?s1 k p" using b(1) by (simp add: block_ok_def mark_free_def)
  obtain s2 p' k' L' where r: "buddy_coalesce ?s1 p k = (s2, p', k')" "pmm_core s2 L' (pages k' p')"
    "block_ok ?s1 k' p'" "k' < MAX_ORDER" "same_but_lists ?s1 s2"
    using buddy_coalesce_spec[OF c1(1) b1 b(2)] by blast
  have b2: "block_ok s2 k' p'" using r(3) same_but_lists_fields(1)[OF r(5)] by simp
  let ?s3 = "link_block s2 (p' * PAGE_SIZE) k'"
  have eq: "buddy_free_internal s phys k = ?s3" by (simp add: buddy_free_internal_def phys r(1) Let_def)
  have "pmm_core ?s3 (L'(k' := L' k' @ [p'])) {}" using core_put[OF r(2,4) b2 order_refl] by simp
  then show "pmm_inv (buddy_free_internal s phys k)" unfolding eq pmm_inv_def by blast
  note f = same_but_lists_fields[OF same_but_lists_trans[OF r(5) same_but_lists_link[of s2 "p' * PAGE_SIZE" k']]]
  show "free_set (buddy_free_internal s phys k) = free_set s \<union> pages k p" unfolding eq f(2) c1(2) ..
  show "refcounts (buddy_free_internal s phys k) = refcounts s"
    "page_managed (buddy_free_internal s phys k) = page_managed s"
    "usable_memory (buddy_free_internal s phys k) = usable_memory s"
    "lowest_page (buddy_free_internal s phys k) = lowest_page s"
    "highest_page (buddy_free_internal s phys k) = highest_page s"
    unfolding eq f by (simp_all add: mark_free_def page_managed_def fun_eq_iff)
qed

section \<open>Splitting\<close>

lemma split_down_spec:
  assumes "pmm_core s L (pages cur p)" "block_ok s cur p" "cur < MAX_ORDER" "order \<le> cur"
  shows "\<exists>L'. pmm_core (split_down s p cur order) L' (pages order p) \<and> same_but_lists s (split_down s p cur order)"
  using assms
proof (induction s p cur order arbitrary: L rule: split_down.induct)
  case (1 s p order)
  then show ?case by (auto simp: same_but_lists_def)
next
  case (2 s p c order)
  show ?case
  proof (cases "Suc c > order")
    case True
    let ?q = "p + 2 ^ c" let ?s1 = "link_block s (?q * PAGE_SIZE) c"
    have bq: "block_ok s c ?q" "block_ok s c p"
      using "2.prems"(2) by (auto simp: block_ok_def dvd_mult_right)
    have sub: "pages c ?q \<subseteq> pages (Suc c) p" "pages (Suc c) p - pages c ?q = pages c p"
      by (auto simp: pages_def)
    have c1: "pmm_core ?s1 (L(c := L c @ [?q])) (pages c p)"
      using core_put[OF "2.prems"(1) _ bq(1) sub(1)] "2.prems"(3) sub(2) by simp
    have b1: "block_ok ?s1 c p" using bq(2) same_but_lists_fields(1)[OF same_but_lists_link] by metis
    obtain L' where "pmm_core (split_down ?s1 p c order) L' (pages order p)" "same_but_lists ?s1 (split_down ?s1 p c order)"
      using "2.IH"[OF True c1 b1] "2.prems"(3) True by auto
    then show ?thesis using True same_but_lists_trans[OF same_but_lists_link] by auto
  next
    case False
    then have "order = Suc c" using "2.prems"(4) by simp
    then show ?thesis using "2.prems"(1) by (auto simp: same_but_lists_def)
  qed
qed

section \<open>Reference counts\<close>

lemma dec_ref_zero: "dec_ref r = 0 \<longleftrightarrow> r \<le> 1"
proof -
  have "r \<le> 1 \<longleftrightarrow> r = 0 \<or> r = 1"
    by unat_arith
  then show ?thesis by (auto simp: dec_ref_def word_gt_0)
qed

lemma map_refs_fields [simp]:
  "zone (map_refs s f p n) = zone s" "store (map_refs s f p n) = store s"
  "block_order (map_refs s f p n) = block_order s" "bitmap (map_refs s f p n) = bitmap s"
  "managed_bitmap (map_refs s f p n) = managed_bitmap s" "lowest_page (map_refs s f p n) = lowest_page s"
  "highest_page (map_refs s f p n) = highest_page s" "usable_memory (map_refs s f p n) = usable_memory s"
  "physical_memory_offset (map_refs s f p n) = physical_memory_offset s"
  "free_set (map_refs s f p n) = free_set s" "page_managed (map_refs s f p n) = page_managed s"
  "page_used (map_refs s f p n) = page_used s" "block_ok (map_refs s f p n) = block_ok s"
  by (auto simp: map_refs_def free_set_def in_bounds_def page_used_def page_managed_def block_ok_def fun_eq_iff)

lemma map_refs_spec:
  assumes "lowest_page s \<le> p" "p + n \<le> highest_page s" "highest_page s - lowest_page s \<le> length (refcounts s)"
  shows "length (refcounts (map_refs s f p n)) = length (refcounts s)"
    "lowest_page s \<le> q \<Longrightarrow> page_ref (map_refs s f p n) q = (if p \<le> q \<and> q < p + n then f (page_ref s q) else page_ref s q)"
  using assms(2)
proof (induction n)
  case (Suc n)
  have step: "refcounts (map_refs s f p (Suc n)) =
      (refcounts (map_refs s f p n))[p + n - lowest_page s := f (refcounts (map_refs s f p n) ! (p + n - lowest_page s))]"
    by (simp add: map_refs_def)
  { case 1 then show ?case using Suc.IH(1) by (simp add: step) }
  { case 2
    have l: "p + n - lowest_page s < length (refcounts (map_refs s f p n))"
      using Suc.IH(1) 2 assms(1,3) by auto
    have ih: "page_ref (map_refs s f p n) q = (if p \<le> q \<and> q < p + n then f (page_ref s q) else page_ref s q)"
      using Suc.IH(2) 2 by simp
    have "page_ref (map_refs s f p (Suc n)) q =
        (if q = p + n then f (page_ref (map_refs s f p n) q) else page_ref (map_refs s f p n) q)"
      using l 2 assms(1) unfolding page_ref_def step by (auto simp: nth_list_update)
    then show ?case using ih by auto }
qed (auto simp: map_refs_def page_ref_def)

lemma core_map_refs:
  assumes "pmm_core s L X" "block_ok s k p"
  shows "pmm_core (map_refs s f p (2 ^ k)) L X"
proof (rule core_frame[OF assms(1)])
  have "highest_page s - lowest_page s \<le> length (refcounts s)"
    using pmm_core_elims(1)[OF assms(1)] by (simp add: pmm_geometry_def)
  then show "length (refcounts (map_refs s f p (2 ^ k))) = length (refcounts s)"
    using map_refs_spec(1)[of s p "2 ^ k"] assms(2) by (simp add: block_ok_def)
qed simp_all

section \<open>Allocation\<close>

lemma first_nonempty_spec:
  assumes "k \<le> MAX_ORDER"
  shows "k \<le> first_nonempty s k \<and> first_nonempty s k \<le> MAX_ORDER \<and>
    (first_nonempty s k < MAX_ORDER \<longrightarrow> \<not> list_empty (store s) (free_list s (first_nonempty s k))) \<and>
    (\<forall>j. k \<le> j \<and> j < first_nonempty s k \<longrightarrow> list_empty (store s) (free_list s j))"
  using assms
proof (induction s k rule: first_nonempty.induct)
  case (1 s k)
  show ?case
  proof (cases "k < MAX_ORDER \<and> list_empty (store s) (free_list s k)")
    case True
    then have e: "first_nonempty s k = first_nonempty s (k + 1)" by (subst first_nonempty.simps) simp
    show ?thesis using "1.IH"[OF True] True unfolding e by (metis Suc_eq_plus1 Suc_leI le_eq_less_or_eq le_SucI not_less_eq_eq)
  next
    case False
    then have "first_nonempty s k = k" by (subst first_nonempty.simps) (rule if_not_P)
    then show ?thesis using False "1.prems" by auto
  qed
qed

lemma family_dlist: "pmm_core s L X \<Longrightarrow> k < MAX_ORDER \<Longrightarrow> dlist (store s) (free_list s k) (map (block_addr s) (L k))"
  using pmm_core_elims(2) by (auto simp: list_family_def)

text \<open>What an allocation of the block of \<open>2 ^ k\<close> pages at \<open>p\<close> does.\<close>

definition block_allocated :: "pmm_state \<Rightarrow> nat \<Rightarrow> nat \<Rightarrow> pmm_state \<Rightarrow> bool" where
  "block_allocated s k p s' \<longleftrightarrow>
     pmm_inv s' \<and> block_ok s k p \<and> pages k p \<subseteq> free_set s \<and> (\<forall>q\<in>pages k p. page_managed s q) \<and>
     free_set s' = free_set s - pages k p \<and> page_managed s' = page_managed s \<and>
     lowest_page s' = lowest_page s \<and> highest_page s' = highest_page s \<and> usable_memory s' = usable_memory s"

lemma take_split_use:
  assumes c: "pmm_core s L {}" and k: "cur < MAX_ORDER" "order \<le> cur" and p: "p \<in> set (L cur)"
  defines "s' \<equiv> mark_used (split_down (unlink_block s (block_addr s p)) p cur order) p (2 ^ order)"
  shows "block_allocated s order p s'" "refcounts s' = refcounts s"
proof -
  note e = pmm_core_elims[OF c]
  have pin: "(cur, p) \<in> listed L" using k p by (simp add: listed_def)
  have b: "block_ok s cur p" using e(3)[OF pin] .
  let ?s1 = "unlink_block s (block_addr s p)" let ?s2 = "split_down ?s1 p cur order"
  have c1: "pmm_core ?s1 (L(cur := remove1 p (L cur))) (pages cur p)" using core_take[OF c k(1) p] by simp
  have b1: "block_ok ?s1 cur p" using b by (simp add: unlink_block_def block_ok_def)
  obtain L' where c2: "pmm_core ?s2 L' (pages order p)" "same_but_lists ?s1 ?s2"
    using split_down_spec[OF c1 b1 k] by blast
  have sl: "same_but_lists s ?s2" by (rule same_but_lists_trans[OF same_but_lists_unlink c2(2)])
  note f = same_but_lists_fields[OF sl]
  have pw: "(2 :: nat) ^ order dvd 2 ^ cur" "(2 :: nat) ^ order \<le> 2 ^ cur"
    using k(2) by (simp_all add: le_imp_power_dvd)
  have bo: "block_ok s order p"
    unfolding block_ok_def using b[unfolded block_ok_def] dvd_trans[OF pw(1)] add_left_mono[OF pw(2), of p] by (meson order_trans)
  have c3: "pmm_core s' L' {}" "free_set s' = free_set ?s2 - pages order p"
    using core_use[OF c2(1) _ order_refl] bo f(1) by (auto simp: s'_def)
  have "pages order p \<subseteq> pages cur p" using pw(2) unfolding pages_def by (simp add: ivl_subset)
  moreover have "pages cur p \<subseteq> listed_pages L" using pin unfolding listed_pages_def by blast
  ultimately have sub: "pages order p \<subseteq> free_set s" using e(7) by simp
  have rest: "page_managed s' = page_managed s" "lowest_page s' = lowest_page s" "highest_page s' = highest_page s"
    "usable_memory s' = usable_memory s" "refcounts s' = refcounts s"
    using f by (simp_all add: s'_def mark_used_def page_managed_def fun_eq_iff)
  show "block_allocated s order p s'"
    using c3 bo sub e(8) rest f(2) by (auto simp: block_allocated_def pmm_inv_def)
  show "refcounts s' = refcounts s" by (rule rest)
qed

lemma block_number:
  assumes "pmm_geometry s" "p < highest_page s"
  shows "buddy_to_phys s (block_addr s p) div PAGE_SIZE = p"
  using virt_to_buddy_addr(2)[OF assms] by (simp add: PAGE_SIZE_def)

lemma pmm_alloc_pages_spec:
  assumes i: "pmm_inv s" and count: "0 < count" "get_order count = Some k" "k < MAX_ORDER"
  shows "(\<exists>p s'. pmm_alloc_pages s count = Some (p * PAGE_SIZE, s') \<and> block_allocated s k p s' \<and>
            (\<forall>q. lowest_page s \<le> q \<longrightarrow> page_ref s' q = (if q \<in> pages k p then 1 else page_ref s q))) \<or>
         (pmm_alloc_pages s count = Some (0, s) \<and> (\<forall>L. pmm_core s L {} \<longrightarrow> (\<forall>j. k \<le> j \<and> j < MAX_ORDER \<longrightarrow> L j = [])))"
proof -
  obtain L where c: "pmm_core s L {}" using i by (auto simp: pmm_inv_def)
  note e = pmm_core_elims[OF c]
  let ?cur = "first_nonempty s k"
  note fn = first_nonempty_spec[of k s]
  have kM: "k \<le> MAX_ORDER" using count(3) by simp
  show ?thesis
  proof (cases "?cur = MAX_ORDER")
    case True
    have "L' j = []" if "pmm_core s L' {}" "k \<le> j" "j < MAX_ORDER" for L' j
      using list_empty_dlist[OF family_dlist[OF that(1,3)]] fn[OF kM] True that(2,3) by simp
    then show ?thesis using True count by (auto simp: pmm_alloc_pages_def Let_def)
  next
    case False
    then have cur: "?cur < MAX_ORDER" "k \<le> ?cur" and ne: "\<not> list_empty (store s) (free_list s ?cur)"
      using fn[OF kM] by auto
    note d = family_dlist[OF c cur(1)]
    obtain p ps where L: "L ?cur = p # ps" using list_empty_dlist[OF d] ne by (cases "L ?cur") auto
    have fe: "list_first_entry (store s) (free_list s ?cur) = block_addr s p"
      using list_first_entry_dlist[of "store s" "free_list s ?cur"] d L by simp
    have pin: "p \<in> set (L ?cur)" by (simp add: L)
    have "block_ok s ?cur p" using e(3) pin cur(1) by (simp add: listed_def)
    then have hi: "p < highest_page s" by (auto simp: block_ok_def intro: less_le_trans[of _ "p + 2 ^ ?cur"])
    let ?s3 = "mark_used (split_down (unlink_block s (block_addr s p)) p ?cur k) p (2 ^ k)"
    let ?s4 = "map_refs ?s3 (\<lambda>_. 1) p (2 ^ k)"
    have al: "pmm_alloc_pages s count = Some (p * PAGE_SIZE, ?s4)"
      using False count fe block_number[OF e(1) hi] by (simp add: pmm_alloc_pages_def Let_def)
    note t = take_split_use[OF c cur pin]
    have bk: "block_ok ?s3 k p" using t(1) by (simp add: block_allocated_def block_ok_def)
    have g3: "pmm_geometry ?s3" using t(1) pmm_inv_geometry by (simp add: block_allocated_def)
    have ba: "block_allocated s k p ?s4"
      using t(1) core_map_refs[OF _ bk] by (auto simp: block_allocated_def pmm_inv_def)
    have "page_ref ?s4 q = (if q \<in> pages k p then 1 else page_ref s q)" if "lowest_page s \<le> q" for q
      using map_refs_spec(2)[of ?s3 p "2 ^ k" q "\<lambda>_. 1"] bk g3 that t
      by (auto simp: block_ok_def pmm_geometry_def pages_simps page_ref_def block_allocated_def)
    then show ?thesis using al ba by blast
  qed
qed

section \<open>Constrained allocation\<close>

lemma find_SomeD: "find P xs = Some x \<Longrightarrow> P x \<and> x \<in> set xs"
  by (induction xs) (auto split: if_splits)

lemma find_block_spec:
  assumes "dlist h head xs"
  shows "find_block P h head (lnext h head) = Some (find P xs)"
proof -
  have "find_block P h head (lnext h p) = Some (find P ys)" if "dseg h p ys head" "head \<notin> set ys" for p ys
    using that by (induction ys arbitrary: p) (simp_all add: find_block.simps)
  then show ?thesis using assms by (simp add: dlist_def)
qed

lemma alloc_fitting_spec:
  assumes "pmm_inv s" "order \<le> cur"
  shows "(\<exists>p j s'. alloc_fitting fits s order cur = Some (p * PAGE_SIZE, s') \<and> block_allocated s order p s' \<and>
             refcounts s' = refcounts s \<and> order \<le> j \<and> fits (p * PAGE_SIZE) ((p + 2 ^ j) * PAGE_SIZE)) \<or>
         alloc_fitting fits s order cur = Some (0, s)"
  using assms
proof (induction fits s order cur rule: alloc_fitting.induct)
  case (1 fits s order cur)
  obtain L where c: "pmm_core s L {}" using "1.prems"(1) by (auto simp: pmm_inv_def)
  note e = pmm_core_elims[OF c]
  let ?fit = "\<lambda>block. let phys = buddy_to_phys s block in fits phys ((phys + 2 ^ cur * PAGE_SIZE) mod 2 ^ 64)"
  show ?case
  proof (cases "cur < MAX_ORDER")
    case False
    then show ?thesis by (subst (2) alloc_fitting.simps) simp
  next
    case cur: True
    note f = find_block_spec[OF family_dlist[OF c cur], of ?fit]
    show ?thesis
    proof (cases "find ?fit (map (block_addr s) (L cur))")
      case None
      then have "alloc_fitting fits s order cur = alloc_fitting fits s order (cur + 1)"
        using cur f by (subst alloc_fitting.simps) simp
      then show ?thesis using "1.IH"[OF cur] f None "1.prems" by simp
    next
      case (Some block)
      then have "block \<in> set (map (block_addr s) (L cur))" and fit: "?fit block" by (auto dest: find_SomeD)
      then obtain p where p: "p \<in> set (L cur)" "block = block_addr s p" by auto
      have b: "block_ok s cur p" using e(3) p(1) cur by (simp add: listed_def)
      then have hi: "p < highest_page s" by (auto simp: block_ok_def intro: less_le_trans[of _ "p + 2 ^ cur"])
      let ?s3 = "mark_used (split_down (unlink_block s (block_addr s p)) p cur order) p (2 ^ order)"
      have al: "alloc_fitting fits s order cur = Some (p * PAGE_SIZE, ?s3)"
        using cur f Some p(2) block_number[OF e(1) hi] by (subst alloc_fitting.simps) (simp add: Let_def)
      have "(p + 2 ^ cur) * PAGE_SIZE \<le> highest_page s * PAGE_SIZE" using b by (simp add: block_ok_def)
      also have "highest_page s * PAGE_SIZE < 2 ^ 64"
        using e(1) by (auto simp: pmm_geometry_def MAX_ORDER_def)
      finally have "(p + 2 ^ cur) * PAGE_SIZE < 2 ^ 64" .
      then have "fits (p * PAGE_SIZE) ((p + 2 ^ cur) * PAGE_SIZE)"
        using fit virt_to_buddy_addr(2)[OF e(1) hi] by (simp add: p(2) Let_def algebra_simps)
      then show ?thesis using al take_split_use[OF c cur "1.prems"(2) p(1)] "1.prems"(2) by blast
    qed
  qed
qed

section \<open>Freeing by the interface\<close>

lemma pmm_is_managed_page:
  assumes "pmm_geometry s" "in_bounds s q" "r < PAGE_SIZE"
  shows "pmm_is_managed s (q * PAGE_SIZE + r) = page_managed s q"
proof -
  have "managed_bitmap s \<noteq> []" using assms by (auto simp: pmm_geometry_def in_bounds_def)
  moreover have "(q * PAGE_SIZE + r) div PAGE_SIZE = q" using assms(3) by (simp add: PAGE_SIZE_def)
  ultimately show ?thesis using assms(2) by (auto simp: pmm_is_managed_def page_managed_def in_bounds_def Let_def)
qed

lemma pmm_free_pages_spec:
  assumes i: "pmm_inv s" and k: "0 < count" "get_order count = Some k" "k < MAX_ORDER"
    and b: "block_ok s k p" and u: "\<forall>q\<in>pages k p. page_used s q \<and> page_managed s q"
  obtains s' where "pmm_free_pages s (p * PAGE_SIZE) count = Some s'" "pmm_inv s'"
    "free_set s' = (if page_ref s p \<le> 1 then free_set s \<union> pages k p else free_set s)"
    "\<And>q. in_bounds s q \<Longrightarrow> page_ref s' q = (if q \<in> pages k p then dec_ref (page_ref s q) else page_ref s q)"
    "page_managed s' = page_managed s" "lowest_page s' = lowest_page s" "highest_page s' = highest_page s"
proof -
  obtain L where c: "pmm_core s L {}" using i by (auto simp: pmm_inv_def)
  have g: "pmm_geometry s" using pmm_inv_geometry[OF i] .
  let ?s1 = "map_refs s dec_ref p (2 ^ k)"
  have ib: "in_bounds s p" using block_in_bounds[OF b] pages_simps(2) by blast
  have i1: "pmm_inv ?s1" using core_map_refs[OF c b] by (auto simp: pmm_inv_def)
  have pp: "p * PAGE_SIZE \<noteq> 0" "p * PAGE_SIZE div PAGE_SIZE = p"
    using ib g by (auto simp: in_bounds_def pmm_geometry_def PAGE_SIZE_def)
  have refs: "page_ref ?s1 q = (if q \<in> pages k p then dec_ref (page_ref s q) else page_ref s q)" if "in_bounds s q" for q
    using map_refs_spec(2)[of s p "2 ^ k" q dec_ref] b g that
    by (auto simp: block_ok_def pmm_geometry_def pages_simps in_bounds_def)
  have zero: "page_ref ?s1 p = 0 \<longleftrightarrow> page_ref s p \<le> 1"
    using refs[OF ib] pages_simps(2)[of p k] by (simp add: dec_ref_zero)
  have pm: "page_used s p" "page_managed s p" using u pages_simps(2)[of p k] by auto
  let ?s2 = "if page_ref ?s1 p = 0 then buddy_free_internal ?s1 (p * PAGE_SIZE) k else ?s1"
  have r: "pmm_free_pages s (p * PAGE_SIZE) count = Some ?s2"
    using pp k ib pm by (auto simp: pmm_free_pages_def Let_def in_bounds_def page_used_def page_managed_def)
  have u1: "\<forall>q\<in>pages k p. page_used ?s1 q \<and> page_managed ?s1 q" using u by simp
  note bf = buddy_free_internal_spec[OF i1 _ k(3) pp(2) u1, simplified, OF b]
  show ?thesis
  proof (rule that[OF r])
    show "pmm_inv ?s2" using i1 bf(1) by simp
    show "free_set ?s2 = (if page_ref s p \<le> 1 then free_set s \<union> pages k p else free_set s)"
      using bf(2) zero by simp
    show "page_ref ?s2 q = (if q \<in> pages k p then dec_ref (page_ref s q) else page_ref s q)" if "in_bounds s q" for q
      using refs[OF that] bf(3,6) by (simp add: page_ref_def)
    show "page_managed ?s2 = page_managed s" "lowest_page ?s2 = lowest_page s" "highest_page ?s2 = highest_page s"
      using bf(4,6,7) by simp_all
  qed
qed

text \<open>Changing one reference count.\<close>

lemma set_ref_inv:
  assumes "pmm_inv s"
  shows "pmm_inv (s\<lparr>refcounts := (refcounts s)[i := v]\<rparr>)"
proof -
  obtain L where "pmm_core s L {}" using assms by (auto simp: pmm_inv_def)
  then have "pmm_core (s\<lparr>refcounts := (refcounts s)[i := v]\<rparr>) L {}" by (rule core_frame) simp_all
  then show ?thesis by (auto simp: pmm_inv_def)
qed

lemma set_ref_fields [simp]:
  "free_set (s\<lparr>refcounts := r\<rparr>) = free_set s" "page_used (s\<lparr>refcounts := r\<rparr>) = page_used s"
  "page_managed (s\<lparr>refcounts := r\<rparr>) = page_managed s" "block_ok (s\<lparr>refcounts := r\<rparr>) = block_ok s"
  by (auto simp: free_set_def in_bounds_def page_used_def page_managed_def block_ok_def fun_eq_iff)

lemma page_ref_set:
  assumes "pmm_geometry s" "in_bounds s q" "in_bounds s p"
  shows "page_ref (s\<lparr>refcounts := (refcounts s)[p - lowest_page s := v]\<rparr>) q = (if q = p then v else page_ref s q)"
proof -
  have "p - lowest_page s < length (refcounts s)" using assms by (auto simp: pmm_geometry_def in_bounds_def)
  moreover have "q - lowest_page s = p - lowest_page s \<longleftrightarrow> q = p" using assms by (auto simp: in_bounds_def)
  ultimately show ?thesis by (auto simp: page_ref_def nth_list_update)
qed

lemma pmm_decref_spec:
  assumes i: "pmm_inv s" and q: "in_bounds s p" "page_managed s p" "page_used s p" and r: "r < PAGE_SIZE"
  defines "s' \<equiv> pmm_decref s (p * PAGE_SIZE + r)"
  shows "pmm_inv s'" "free_set s' = (if page_ref s p = 1 then free_set s \<union> {p} else free_set s)"
    "in_bounds s x \<Longrightarrow> page_ref s' x = (if x = p then dec_ref (page_ref s p) else page_ref s x)"
    "page_managed s' = page_managed s" "lowest_page s' = lowest_page s" "highest_page s' = highest_page s"
proof -
  define a where "a = p * PAGE_SIZE + r"
  have g: "pmm_geometry s" using pmm_inv_geometry[OF i] .
  have pos: "a \<noteq> 0" "a div PAGE_SIZE = p"
    using q(1) g r by (auto simp: a_def in_bounds_def pmm_geometry_def PAGE_SIZE_def)
  have m: "pmm_is_managed s a" using pmm_is_managed_page[OF g q(1) r] q(2) by (simp add: a_def)
  let ?i = "p - lowest_page s" let ?s1 = "s\<lparr>refcounts := (refcounts s)[?i := page_ref s p - 1]\<rparr>"
  have i1: "pmm_inv ?s1" by (rule set_ref_inv[OF i])
  have ref1: "page_ref ?s1 x = (if x = p then page_ref s p - 1 else page_ref s x)" if "in_bounds s x" for x
    using page_ref_set[OF g that q(1)] .
  have s': "s' = (if page_ref s p > 0 then (if page_ref ?s1 p = 0 then buddy_free_internal ?s1 a 0 else ?s1) else s)"
    using pos m unfolding s'_def a_def[symmetric] by (simp add: pmm_decref_def Let_def page_ref_def)
  have b: "block_ok ?s1 0 p" using q(1) by (auto simp: block_ok_def in_bounds_def)
  have p0: "pages 0 p = {p}" by (auto simp: pages_def)
  have u: "\<forall>x\<in>pages 0 p. page_used ?s1 x \<and> page_managed ?s1 x" using q(2,3) by (simp add: p0)
  note bf = buddy_free_internal_spec[OF i1 b _ pos(2) u]
  have M: "0 < MAX_ORDER" by (simp add: MAX_ORDER_def)
  have one: "page_ref s p > 0 \<and> page_ref ?s1 p = 0 \<longleftrightarrow> page_ref s p = 1"
    using ref1[OF q(1)] by (auto simp: word_gt_0)
  show "pmm_inv s'" using i i1 bf(1)[OF M] by (simp add: s')
  show "free_set s' = (if page_ref s p = 1 then free_set s \<union> {p} else free_set s)"
  proof (cases "page_ref s p = 1")
    case True
    then have "s' = buddy_free_internal ?s1 a 0" using one unfolding s' by (simp only: if_True simp_thms)
    then show ?thesis using bf(2)[OF M] p0 True by simp
  next
    case False
    then have "s' = ?s1 \<or> s' = s" using one unfolding s' by presburger
    then show ?thesis using False by auto
  qed
  show "page_ref s' x = (if x = p then dec_ref (page_ref s p) else page_ref s x)" if "in_bounds s x"
  proof -
    have "page_ref (buddy_free_internal ?s1 a 0) x = page_ref ?s1 x"
      using bf(3,6)[OF M] by (simp add: page_ref_def)
    then show ?thesis using ref1[OF that] by (auto simp: s' dec_ref_def)
  qed
  show "page_managed s' = page_managed s" "lowest_page s' = lowest_page s" "highest_page s' = highest_page s"
    using bf(4,6,7)[OF M] by (simp_all add: s')
qed

lemma pmm_incref_spec:
  assumes i: "pmm_inv s" and q: "in_bounds s p" "page_managed s p" and r: "r < PAGE_SIZE"
  defines "s' \<equiv> pmm_incref s (p * PAGE_SIZE + r)"
  shows "pmm_inv s'" "free_set s' = free_set s" "page_managed s' = page_managed s"
    "in_bounds s x \<Longrightarrow> page_ref s' x = (if x = p then page_ref s p + 1 else page_ref s x)"
proof -
  define a where "a = p * PAGE_SIZE + r"
  have g: "pmm_geometry s" using pmm_inv_geometry[OF i] .
  have pos: "a \<noteq> 0" "a div PAGE_SIZE = p"
    using q(1) g r by (auto simp: a_def in_bounds_def pmm_geometry_def PAGE_SIZE_def)
  have m: "pmm_is_managed s a" using pmm_is_managed_page[OF g q(1) r] q(2) by (simp add: a_def)
  have s': "s' = s\<lparr>refcounts := (refcounts s)[p - lowest_page s := page_ref s p + 1]\<rparr>"
    using pos m unfolding s'_def a_def[symmetric] by (simp add: pmm_incref_def Let_def page_ref_def)
  show "pmm_inv s'" "free_set s' = free_set s" "page_managed s' = page_managed s"
    using set_ref_inv[OF i] by (simp_all add: s')
  show "page_ref s' x = (if x = p then page_ref s p + 1 else page_ref s x)" if "in_bounds s x"
    unfolding s' using page_ref_set[OF g that q(1)] .
qed

section \<open>Counting\<close>

lemma finite_pages [simp]: "finite (pages k p)" "card (pages k p) = 2 ^ k"
  by (simp_all add: pages_def)

lemma core_distinct: "pmm_core s L X \<Longrightarrow> k < MAX_ORDER \<Longrightarrow> distinct (L k)"
  using family_dlist[of s L X k] by (auto simp: dlist_def distinct_map)

lemma finite_listed [simp]: "finite (listed L)"
proof -
  have "listed L = (SIGMA k:{..<MAX_ORDER}. set (L k))" by (auto simp: listed_def)
  then show ?thesis by simp
qed

lemma card_listed_pages:
  assumes c: "pmm_core s L X"
  shows "card (listed_pages L) = (\<Sum>k<MAX_ORDER. length (L k) * 2 ^ k)"
proof -
  have "card (listed_pages L) = (\<Sum>(k, p)\<in>listed L. card (pages k p))"
    unfolding listed_pages_def split_def
    by (rule card_UN_disjoint) (use pmm_core_elims(5)[OF c] in \<open>auto simp: prod_eq_iff\<close>)
  also have "\<dots> = (\<Sum>(k, p)\<in>(SIGMA k:{..<MAX_ORDER}. set (L k)). 2 ^ k)"
    by (rule sum.cong) (auto simp: listed_def)
  also have "\<dots> = (\<Sum>k<MAX_ORDER. \<Sum>p\<in>set (L k). 2 ^ k)" by (rule sum.Sigma[symmetric]) auto
  also have "\<dots> = (\<Sum>k<MAX_ORDER. length (L k) * 2 ^ k)"
    by (rule sum.cong) (use core_distinct[OF c] in \<open>auto simp: distinct_card\<close>)
  finally show ?thesis .
qed

lemma pmm_get_free_pages_spec:
  assumes "pmm_inv s"
  shows "pmm_get_free_pages s = Some (card (free_set s))"
proof -
  obtain L where c: "pmm_core s L {}" using assms by (auto simp: pmm_inv_def)
  have "fold (\<lambda>order free_pages. Option.bind free_pages (\<lambda>n.
          Option.bind (list_nodes (store s) (free_list s order)) (\<lambda>nodes. Some (n + length nodes * 2 ^ order))))
        [0..<m] (Some 0) = Some (\<Sum>k<m. length (L k) * 2 ^ k)" if "m \<le> MAX_ORDER" for m
    using that
  proof (induction m)
    case (Suc m)
    then have "list_nodes (store s) (free_list s m) = Some (map (block_addr s) (L m))"
      by (intro list_nodes_dlist family_dlist[OF c]) simp
    then show ?case using Suc by simp
  qed simp
  from this[OF order_refl] show ?thesis
    using card_listed_pages[OF c] pmm_core_elims(7)[OF c] by (simp add: pmm_get_free_pages_def)
qed

end
