(* ===== verification/Pmm_Init.thy ===== *)
theory Pmm_Init
  imports Pmm_Correct
begin

text \<open>
  What \<^verbatim>\<open>pmm_init\<close> establishes from a memory map, and what \<^verbatim>\<open>pmm_reclaim_bootloader\<close> adds to it.
\<close>

section \<open>Carving one block\<close>

lemma core_managed:
  assumes c: "pmm_core s L X" and b: "block_ok s k p"
  shows "pmm_core (mark_managed s p (2 ^ k)) L X"
    "in_bounds s q \<Longrightarrow> page_managed (mark_managed s p (2 ^ k)) q \<longleftrightarrow> q \<in> pages k p \<or> page_managed s q"
proof -
  let ?s = "mark_managed s p (2 ^ k)"
  note e = pmm_core_elims[OF c] and m = mark_bits[OF pmm_core_elims(1)[OF c] b]
  have ib: "in_bounds s p" using block_in_bounds[OF b] pages_simps(2) by blast
  have fields: "free_list ?s = free_list s" "block_addr ?s = block_addr s" "store ?s = store s"
    "block_ok ?s = block_ok s" "block_order ?s = block_order s" "free_set ?s = free_set s"
    by (auto simp: mark_managed_def fun_eq_iff free_list_def block_addr_def block_ok_def in_bounds_def
        free_set_def page_used_def)
  have "pmm_geometry ?s" using e(1) m(6)[OF ib] by (simp add: pmm_geometry_def mark_managed_def)
  then show "pmm_core ?s L X"
  proof (rule pmm_coreI)
    show "page_managed ?s q" if "q \<in> free_set ?s" for q
      using that e(8)[of q] m(3)[of q] unfolding fields by (auto simp: free_set_def)
  qed (use e(2-7) in \<open>auto simp: fields\<close>)
  show "page_managed ?s q \<longleftrightarrow> q \<in> pages k p \<or> page_managed s q" if "in_bounds s q" using m(3)[OF that] .
qed

lemma carve_block_spec:
  assumes i: "pmm_inv s" and b: "block_ok s k p" "k < MAX_ORDER" and u: "\<forall>q\<in>pages k p. page_used s q"
  defines "s' \<equiv> carve_block s (p * PAGE_SIZE) k"
  shows "pmm_inv s'" "free_set s' = free_set s \<union> pages k p"
    "lowest_page s' = lowest_page s" "highest_page s' = highest_page s"
    "usable_memory s' = usable_memory s + 2 ^ k * PAGE_SIZE"
    "bitmap_size s' = bitmap_size s" "internal_memmap s' = internal_memmap s"
    "in_bounds s q \<Longrightarrow> page_managed s' q \<longleftrightarrow> q \<in> pages k p \<or> page_managed s q"
proof -
  obtain L where c: "pmm_core s L {}" using i by (auto simp: pmm_inv_def)
  have p: "p * PAGE_SIZE div PAGE_SIZE = p" by (simp add: PAGE_SIZE_def)
  let ?s1 = "mark_managed s p (2 ^ k)" let ?s2 = "mark_free ?s1 p (2 ^ k)"
  let ?s3 = "map_refs ?s2 (\<lambda>_. 0) p (2 ^ k)" let ?s4 = "link_block ?s3 (p * PAGE_SIZE) k"
  have s': "s' = ?s4\<lparr>usable_memory := usable_memory ?s4 + 2 ^ k * PAGE_SIZE\<rparr>"
    by (simp add: s'_def carve_block_def p Let_def)
  have c1: "pmm_core ?s1 L {}" and man: "\<And>q. in_bounds s q \<Longrightarrow> page_managed ?s1 q \<longleftrightarrow> q \<in> pages k p \<or> page_managed s q"
    using core_managed[OF c b(1)] by blast+
  have b1: "block_ok ?s1 k p" using b(1) by (simp add: mark_managed_def block_ok_def)
  have u1: "\<forall>q\<in>pages k p. page_used ?s1 q \<and> page_managed ?s1 q"
    using u man block_in_bounds[OF b(1)] by (auto simp: mark_managed_def page_used_def)
  note f = core_free[OF c1 b1 u1]
  have b3: "block_ok ?s2 k p" using b1 by (simp add: mark_free_def block_ok_def)
  have c3: "pmm_core ?s3 L (pages k p)" using core_map_refs[OF _ b3] f(1) by simp
  have "pmm_core ?s4 (L(k := L k @ [p])) {}" using core_put[OF c3 b(2) _ order_refl] b3 by simp
  then have "pmm_core s' (L(k := L k @ [p])) {}" unfolding s' by (rule core_frame) simp_all
  then show "pmm_inv s'" by (auto simp: pmm_inv_def)
  note g = same_but_lists_fields[OF same_but_lists_link[of ?s3 "p * PAGE_SIZE" k]]
  have "free_set s' = free_set ?s3" using g(2) by (simp add: s' free_set_def in_bounds_def page_used_def)
  then show "free_set s' = free_set s \<union> pages k p"
    using f(2) by (simp add: mark_managed_def free_set_def in_bounds_def page_used_def)
  show "lowest_page s' = lowest_page s" "highest_page s' = highest_page s"
    "usable_memory s' = usable_memory s + 2 ^ k * PAGE_SIZE"
    "bitmap_size s' = bitmap_size s" "internal_memmap s' = internal_memmap s"
    by (simp_all add: s' link_block_def map_refs_def mark_free_def mark_managed_def Let_def)
  show "page_managed s' q \<longleftrightarrow> q \<in> pages k p \<or> page_managed s q" if "in_bounds s q"
    using man[OF that] by (simp add: s' link_block_def map_refs_def mark_free_def page_managed_def Let_def)
qed

section \<open>Carving one entry\<close>

lemma carve_order_spec:
  assumes "k < MAX_ORDER" "p + 2 ^ k * PAGE_SIZE \<le> len" "2 ^ k * PAGE_SIZE dvd phys"
    "phys + 2 ^ k * PAGE_SIZE \<le> mbase \<or> mbase + msize \<le> phys"
  defines "r \<equiv> carve_order p phys len mbase msize k"
  shows "r < MAX_ORDER" "p + 2 ^ r * PAGE_SIZE \<le> len" "2 ^ r * PAGE_SIZE dvd phys"
    "phys + 2 ^ r * PAGE_SIZE \<le> mbase \<or> mbase + msize \<le> phys"
proof -
  have "r < MAX_ORDER \<and> p + 2 ^ r * PAGE_SIZE \<le> len \<and> 2 ^ r * PAGE_SIZE dvd phys \<and>
      (phys + 2 ^ r * PAGE_SIZE \<le> mbase \<or> mbase + msize \<le> phys)"
    using assms(1-4) unfolding r_def
  proof (induction p phys len mbase msize k rule: carve_order.induct)
    case (1 p phys len mbase msize k)
    let ?n = "2 ^ (k + 1) * PAGE_SIZE"
    show ?case
    proof (cases "k < MAX_ORDER - 1 \<and> p + ?n \<le> len \<and> phys mod ?n = 0 \<and> (phys + ?n \<le> mbase \<or> mbase + msize \<le> phys)")
      case True
      then have "carve_order p phys len mbase msize k = carve_order p phys len mbase msize (k + 1)"
        by (subst carve_order.simps) (auto simp: Let_def)
      moreover have "?n dvd phys" using True by (simp add: dvd_eq_mod_eq_0)
      ultimately show ?thesis using "1.IH"[OF _ refl] True by auto
    next
      case False
      then have "carve_order p phys len mbase msize k = k"
        by (subst carve_order.simps) (auto simp: Let_def)
      then show ?thesis using "1.prems" by simp
    qed
  qed
  then show "r < MAX_ORDER" "p + 2 ^ r * PAGE_SIZE \<le> len" "2 ^ r * PAGE_SIZE dvd phys"
    "phys + 2 ^ r * PAGE_SIZE \<le> mbase \<or> mbase + msize \<le> phys" by blast+
qed

text \<open>
  The pages of an entry of \<open>N\<close> pages at page \<open>B\<close>, from offset \<open>P\<close> on, that the loop carves:
  those above the first megabyte and outside the \<open>S\<close> metadata pages at \<open>M\<close>.
\<close>

definition carved :: "nat \<Rightarrow> nat \<Rightarrow> nat \<Rightarrow> nat \<Rightarrow> nat \<Rightarrow> nat set" where
  "carved B N M S P = {q. B + P \<le> q \<and> q < B + N \<and> 256 \<le> q \<and> \<not> (M \<le> q \<and> q < M + S)}"

lemma finite_carved [simp]: "finite (carved B N M S P)"
  by (rule finite_subset[of _ "{..<B + N}"]) (auto simp: carved_def)

text \<open>The outcome of the loop over a set \<open>T\<close> of pages.\<close>

definition carves :: "pmm_state \<Rightarrow> nat set \<Rightarrow> pmm_state \<Rightarrow> bool" where
  "carves s T s' \<longleftrightarrow> pmm_inv s' \<and> free_set s' = free_set s \<union> T \<and>
     lowest_page s' = lowest_page s \<and> highest_page s' = highest_page s \<and>
     usable_memory s' = usable_memory s + card T * PAGE_SIZE \<and>
     bitmap_size s' = bitmap_size s \<and> internal_memmap s' = internal_memmap s \<and>
     (\<forall>q. in_bounds s q \<longrightarrow> (page_managed s' q \<longleftrightarrow> q \<in> T \<or> page_managed s q))"

lemma carves_refl: "pmm_inv s \<Longrightarrow> carves s {} s"
  by (simp add: carves_def)

lemma carves_trans:
  assumes "carves s T s1" "carves s1 U s2" "T \<inter> U = {}" "finite T" "finite U"
  shows "carves s (T \<union> U) s2"
proof -
  have ib: "in_bounds s1 q = in_bounds s q" for q using assms(1) by (simp add: carves_def in_bounds_def)
  show ?thesis
    using assms ib by (auto simp: carves_def card_Un_disjoint algebra_simps)
qed

lemma init_carve_spec:
  assumes "pmm_inv s" "lowest_page s \<le> B" "B + N \<le> highest_page s"
    and "\<forall>q. B + P \<le> q \<and> q < B + N \<longrightarrow> page_used s q"
  shows "carves s (carved B N M S P)
    (init_carve s (B * PAGE_SIZE) (N * PAGE_SIZE) (M * PAGE_SIZE) (S * PAGE_SIZE) (P * PAGE_SIZE))"
  using assms
proof (induction "N - P" arbitrary: s P rule: less_induct)
  case less
  let ?c = "init_carve s (B * PAGE_SIZE) (N * PAGE_SIZE) (M * PAGE_SIZE) (S * PAGE_SIZE)"
  note u = init_carve.simps[of s "B * PAGE_SIZE" "N * PAGE_SIZE" "M * PAGE_SIZE" "S * PAGE_SIZE" "P * PAGE_SIZE"]
  have ps: "a * PAGE_SIZE < b * PAGE_SIZE \<longleftrightarrow> a < b" "a * PAGE_SIZE \<le> b * PAGE_SIZE \<longleftrightarrow> a \<le> b" for a b
    by (simp_all add: PAGE_SIZE_def)
  consider (stop) "N \<le> P" | (low) "P < N" "B + P < 256" | (meta) "P < N" "256 \<le> B + P" "M \<le> B + P" "B + P < M + S"
    | (go) "P < N" "256 \<le> B + P" "\<not> (M \<le> B + P \<and> B + P < M + S)" by linarith
  then show ?case
  proof cases
    case stop
    then have "?c (P * PAGE_SIZE) = s" by (subst u) (simp add: PAGE_SIZE_def)
    moreover have "carved B N M S P = {}" using stop by (auto simp: carved_def)
    ultimately show ?thesis using carves_refl[OF less.prems(1)] by simp
  next
    case low
    then have "?c (P * PAGE_SIZE) = ?c ((256 - B) * PAGE_SIZE)"
      by (subst u) (simp add: PAGE_SIZE_def diff_mult_distrib)
    moreover have "carved B N M S P = carved B N M S (256 - B)" using low by (auto simp: carved_def)
    moreover have "carves s (carved B N M S (256 - B)) (?c ((256 - B) * PAGE_SIZE))"
      by (rule less.hyps) (use low less.prems in auto)
    ultimately show ?thesis by simp
  next
    case meta
    then have "?c (P * PAGE_SIZE) = ?c ((M + S - B) * PAGE_SIZE)"
      by (subst u) (simp add: PAGE_SIZE_def diff_mult_distrib add_mult_distrib)
    moreover have "carved B N M S P = carved B N M S (M + S - B)" using meta by (auto simp: carved_def)
    moreover have "carves s (carved B N M S (M + S - B)) (?c ((M + S - B) * PAGE_SIZE))"
      by (rule less.hyps) (use meta less.prems in auto)
    ultimately show ?thesis by simp
  next
    case go
    define k where "k = carve_order (P * PAGE_SIZE) ((B + P) * PAGE_SIZE) (N * PAGE_SIZE) (M * PAGE_SIZE) (S * PAGE_SIZE) 0"
    have k: "k < MAX_ORDER" "P + 2 ^ k \<le> N" "2 ^ k dvd B + P" "B + P + 2 ^ k \<le> M \<or> M + S \<le> B + P"
    proof -
      have pre: "0 < MAX_ORDER" "P * PAGE_SIZE + 2 ^ 0 * PAGE_SIZE \<le> N * PAGE_SIZE"
        "2 ^ 0 * PAGE_SIZE dvd (B + P) * PAGE_SIZE"
        "(B + P) * PAGE_SIZE + 2 ^ 0 * PAGE_SIZE \<le> M * PAGE_SIZE \<or> M * PAGE_SIZE + S * PAGE_SIZE \<le> (B + P) * PAGE_SIZE"
        using go by (auto simp: MAX_ORDER_def PAGE_SIZE_def)
      note r = carve_order_spec[OF pre, folded k_def]
      show "k < MAX_ORDER" by (rule r)
      show "P + 2 ^ k \<le> N" using r(2) ps(2)[of "P + 2 ^ k" N] by (simp add: algebra_simps)
      show "2 ^ k dvd B + P" using r(3) unfolding PAGE_SIZE_def
        by (simp only: dvd_times_right_cancel_iff)
      show "B + P + 2 ^ k \<le> M \<or> M + S \<le> B + P"
        using r(4) ps(2)[of "B + P + 2 ^ k" M] ps(2)[of "M + S" "B + P"] by (simp add: algebra_simps)
    qed
    let ?s1 = "carve_block s ((B + P) * PAGE_SIZE) k"
    have b: "block_ok s k (B + P)" using k less.prems(2,3) by (auto simp: block_ok_def)
    have used: "\<forall>q\<in>pages k (B + P). page_used s q" using less.prems(4) k(2) by (auto simp: pages_simps)
    note cb = carve_block_spec[OF less.prems(1) b k(1) used]
    have one: "carves s (pages k (B + P)) ?s1" using cb by (auto simp: carves_def)
    have "?c (P * PAGE_SIZE) =
        init_carve ?s1 (B * PAGE_SIZE) (N * PAGE_SIZE) (M * PAGE_SIZE) (S * PAGE_SIZE) ((P + 2 ^ k) * PAGE_SIZE)"
    proof -
      have "P * PAGE_SIZE < N * PAGE_SIZE" "\<not> B * PAGE_SIZE + P * PAGE_SIZE < 0x100000"
        "\<not> (M * PAGE_SIZE \<le> B * PAGE_SIZE + P * PAGE_SIZE \<and> B * PAGE_SIZE + P * PAGE_SIZE < M * PAGE_SIZE + S * PAGE_SIZE)"
        using go unfolding PAGE_SIZE_def by auto
      then show ?thesis by (subst u) (auto simp: k_def add_mult_distrib Let_def)
    qed
    moreover have "carves ?s1 (carved B N M S (P + 2 ^ k))
        (init_carve ?s1 (B * PAGE_SIZE) (N * PAGE_SIZE) (M * PAGE_SIZE) (S * PAGE_SIZE) ((P + 2 ^ k) * PAGE_SIZE))"
    proof (rule less.hyps)
      show "N - (P + 2 ^ k) < N - P" using go by (intro diff_less_mono2) auto
      show "\<forall>q. B + (P + 2 ^ k) \<le> q \<and> q < B + N \<longrightarrow> page_used ?s1 q"
      proof (intro allI impI)
        fix q assume q: "B + (P + 2 ^ k) \<le> q \<and> q < B + N"
        then have "q \<notin> free_set ?s1" using less.prems(4) cb(2) by (auto simp: free_set_def pages_simps)
        then show "page_used ?s1 q" using q less.prems(2,3) cb(3,4) by (auto simp: free_set_def in_bounds_def)
      qed
    qed (use cb less.prems in auto)
    moreover have "carved B N M S P = pages k (B + P) \<union> carved B N M S (P + 2 ^ k)"
      "pages k (B + P) \<inter> carved B N M S (P + 2 ^ k) = {}"
      using k(2,4) go by (auto simp: carved_def pages_simps)
    ultimately show ?thesis using carves_trans[OF one, of "carved B N M S (P + 2 ^ k)"] by simp
  qed
qed

section \<open>The memory map\<close>

definition managed_entry :: "memmap_entry \<Rightarrow> bool" where
  "managed_entry e \<longleftrightarrow> me_type e = MEMMAP_USABLE \<or> me_type e = MEMMAP_BOOTLOADER_RECLAIMABLE"

definition entry_pages :: "memmap_entry \<Rightarrow> nat set" where
  "entry_pages e = {me_base e div PAGE_SIZE..<(me_base e + me_length e) div PAGE_SIZE}"

text \<open>
  What the boot protocol guarantees of the usable and reclaimable entries (page-aligned base and
  length, no overlap, nothing in the first page), and that the direct map at \<open>hhdm\<close> of all of them
  ends below \<open>top_addr\<close>.
\<close>

definition memmap_ok :: "nat \<Rightarrow> nat \<Rightarrow> memmap_entry list \<Rightarrow> bool" where
  "memmap_ok hhdm top_addr memmap \<longleftrightarrow>
     (\<forall>e\<in>set memmap. managed_entry e \<longrightarrow>
        PAGE_SIZE dvd me_base e \<and> PAGE_SIZE dvd me_length e \<and> PAGE_SIZE \<le> me_base e \<and>
        hhdm + me_base e + me_length e \<le> top_addr) \<and>
     sorted_wrt (\<lambda>e f. managed_entry e \<and> managed_entry f \<longrightarrow> entry_pages e \<inter> entry_pages f = {}) memmap"

lemma round_up_aligned:
  assumes "PAGE_SIZE dvd a"
  shows "(a + PAGE_SIZE - 1) div PAGE_SIZE = a div PAGE_SIZE"
proof -
  obtain m where "a = PAGE_SIZE * m" using assms by (auto elim: dvdE)
  then show ?thesis by (simp add: PAGE_SIZE_def)
qed

lemma init_scan_spec:
  assumes "\<forall>e\<in>set es. managed_entry e \<longrightarrow> PAGE_SIZE dvd me_base e \<and> PAGE_SIZE dvd me_length e"
  shows "(let s' = fold init_scan es s in
     lowest_page s' = Min (insert (lowest_page s) ((\<lambda>e. me_base e div PAGE_SIZE) ` {e \<in> set es. managed_entry e})) \<and>
     highest_page s' = Max (insert (highest_page s) ((\<lambda>e. (me_base e + me_length e) div PAGE_SIZE) ` {e \<in> set es. managed_entry e})) \<and>
     zone s' = zone s \<and> store s' = store s \<and> physical_memory_offset s' = physical_memory_offset s \<and>
     usable_memory s' = usable_memory s \<and> block_order s' = block_order s \<and> internal_memmap s' = internal_memmap s)"
  using assms
proof (induction es arbitrary: s)
  case (Cons e es)
  let ?s = "init_scan e s"
  have al: "managed_entry e \<Longrightarrow> (me_base e + me_length e + PAGE_SIZE - 1) div PAGE_SIZE = (me_base e + me_length e) div PAGE_SIZE"
    using Cons.prems round_up_aligned by auto
  have one: "lowest_page ?s = (if managed_entry e then min (lowest_page s) (me_base e div PAGE_SIZE) else lowest_page s)"
    "highest_page ?s = (if managed_entry e then max (highest_page s) ((me_base e + me_length e) div PAGE_SIZE) else highest_page s)"
    "zone ?s = zone s" "store ?s = store s" "physical_memory_offset ?s = physical_memory_offset s"
    "usable_memory ?s = usable_memory s" "block_order ?s = block_order s" "internal_memmap ?s = internal_memmap s"
    using al by (auto simp: init_scan_def managed_entry_def Let_def)
  have ins: "{x \<in> set (e # es). managed_entry x} =
      (if managed_entry e then insert e {x \<in> set es. managed_entry x} else {x \<in> set es. managed_entry x})" by auto
  have lo: "Min (insert (min a b) A) = Min (insert a (insert b A))" and hi: "Max (insert (max a b) A) = Max (insert a (insert b A))"
    if "finite A" for a b and A :: "nat set"
    using that by (cases "A = {}"; simp add: min.assoc max.assoc)+
  show ?case using Cons.IH[of ?s] Cons.prems unfolding ins by (auto simp: Let_def one lo hi)
qed simp

section \<open>Initialisation\<close>

text \<open>The pages handed to the buddy system: those of usable entries above 1 MB, without the metadata.\<close>

definition entry_carved :: "nat \<Rightarrow> nat \<Rightarrow> memmap_entry \<Rightarrow> nat set" where
  "entry_carved M S e = {q \<in> entry_pages e. 256 \<le> q \<and> \<not> (M \<le> q \<and> q < M + S)}"

definition usable_pages :: "nat \<Rightarrow> nat \<Rightarrow> memmap_entry list \<Rightarrow> nat set" where
  "usable_pages M S es = (\<Union>e\<in>{e \<in> set es. me_type e = MEMMAP_USABLE}. entry_carved M S e)"

lemma entry_numbers:
  assumes "PAGE_SIZE dvd me_base e" "PAGE_SIZE dvd me_length e"
  obtains B N where "me_base e = B * PAGE_SIZE" "me_length e = N * PAGE_SIZE" "entry_pages e = {B..<B + N}"
    "entry_carved M S e = carved B N M S 0"
proof -
  obtain B N where BN: "me_base e = B * PAGE_SIZE" "me_length e = N * PAGE_SIZE"
    using assms by (metis dvdE mult.commute)
  have "B * PAGE_SIZE div PAGE_SIZE = B" "(B * PAGE_SIZE + N * PAGE_SIZE) div PAGE_SIZE = B + N"
    by (simp_all add: PAGE_SIZE_def)
  then have "entry_pages e = {B..<B + N}" by (simp add: entry_pages_def BN)
  moreover from this have "entry_carved M S e = carved B N M S 0" by (auto simp: entry_carved_def carved_def)
  ultimately show ?thesis using that BN by blast
qed

lemma finite_usable_pages [simp]: "finite (usable_pages M S es)" "finite (entry_carved M S e)"
  by (auto simp: usable_pages_def entry_carved_def entry_pages_def)

lemma init_entries_spec:
  assumes "pmm_inv s"
    and "\<forall>e\<in>set es. me_type e = MEMMAP_USABLE \<longrightarrow> PAGE_SIZE dvd me_base e \<and> PAGE_SIZE dvd me_length e \<and>
           (\<forall>q\<in>entry_pages e. in_bounds s q \<and> page_used s q)"
    and "sorted_wrt (\<lambda>e f. managed_entry e \<and> managed_entry f \<longrightarrow> entry_pages e \<inter> entry_pages f = {}) es"
  shows "carves s (usable_pages M S es)
     (fold (\<lambda>e s. if me_type e = MEMMAP_USABLE
                  then init_carve s (me_base e) (me_length e) (M * PAGE_SIZE) (S * PAGE_SIZE) 0 else s) es s)"
  using assms
proof (induction es arbitrary: s)
  case Nil
  then show ?case by (simp add: usable_pages_def carves_refl)
next
  case (Cons e es)
  show ?case
  proof (cases "me_type e = MEMMAP_USABLE")
    case False
    then have "usable_pages M S (e # es) = usable_pages M S es" by (auto simp: usable_pages_def)
    then show ?thesis using Cons.IH[of s] Cons.prems False by simp
  next
    case True
    let ?s1 = "init_carve s (me_base e) (me_length e) (M * PAGE_SIZE) (S * PAGE_SIZE) 0"
    have al: "PAGE_SIZE dvd me_base e" "PAGE_SIZE dvd me_length e"
      and u: "\<forall>q\<in>entry_pages e. in_bounds s q \<and> page_used s q" using Cons.prems(2) True by auto
    obtain B N where BN: "me_base e = B * PAGE_SIZE" "me_length e = N * PAGE_SIZE" "entry_pages e = {B..<B + N}"
      "entry_carved M S e = carved B N M S 0" using entry_numbers[OF al(1,2)] by metis
    have used: "\<forall>q. B + 0 \<le> q \<and> q < B + N \<longrightarrow> page_used s q" using u BN(3) by auto
    have one: "carves s (entry_carved M S e) ?s1"
    proof (cases "N = 0")
      case True
      then have "carved B N M S 0 = {}" by (auto simp: carved_def)
      then show ?thesis using carves_refl[OF Cons.prems(1)] True unfolding BN
        by (subst init_carve.simps) simp
    next
      case False
      then have "B \<in> entry_pages e" "B + N - 1 \<in> entry_pages e" using BN(3) by auto
      then have bd: "lowest_page s \<le> B" "B + N \<le> highest_page s" using u False by (auto simp: in_bounds_def)
      show ?thesis using init_carve_spec[OF Cons.prems(1) bd used, of M S] unfolding BN by simp
    qed
    have dis: "entry_pages e \<inter> entry_pages f = {}" if "f \<in> set es" "me_type f = MEMMAP_USABLE" for f
      using Cons.prems(3) that True by (simp add: managed_entry_def)
    have rest: "carves ?s1 (usable_pages M S es)
      (fold (\<lambda>e s. if me_type e = MEMMAP_USABLE
                  then init_carve s (me_base e) (me_length e) (M * PAGE_SIZE) (S * PAGE_SIZE) 0 else s) es ?s1)"
    proof (rule Cons.IH)
      show "\<forall>f\<in>set es. me_type f = MEMMAP_USABLE \<longrightarrow> PAGE_SIZE dvd me_base f \<and> PAGE_SIZE dvd me_length f \<and>
           (\<forall>q\<in>entry_pages f. in_bounds ?s1 q \<and> page_used ?s1 q)"
      proof (intro ballI impI conjI)
        fix f q assume f: "f \<in> set es" "me_type f = MEMMAP_USABLE" and q: "q \<in> entry_pages f"
        have "in_bounds s q" "q \<notin> free_set s" using Cons.prems(2) f q by (auto simp: free_set_def)
        moreover have "q \<notin> entry_carved M S e" using dis[OF f] q by (auto simp: entry_carved_def)
        ultimately show "in_bounds ?s1 q" "page_used ?s1 q"
          using one by (auto simp: carves_def in_bounds_def free_set_def)
      qed (use Cons.prems(2) in auto)
    qed (use one Cons.prems(3) in \<open>auto simp: carves_def\<close>)
    have "usable_pages M S (e # es) = entry_carved M S e \<union> usable_pages M S es"
      using True by (auto simp: usable_pages_def)
    moreover have "entry_carved M S e \<inter> usable_pages M S es = {}"
      using dis unfolding usable_pages_def entry_carved_def by blast
    ultimately show ?thesis using carves_trans[OF one rest] True by simp
  qed
qed

lemma init_heads_family:
  assumes "HIGHER_HALF \<le> z"
  shows "list_family (fold (\<lambda>i h. INIT_LIST_HEAD h (z + 16 * i)) [0..<N] h) N (\<lambda>i. z + 16 * i) (\<lambda>_. [])"
proof -
  have "lnext (fold (\<lambda>i h. INIT_LIST_HEAD h (z + 16 * i)) [0..<n] h) (z + 16 * i) = z + 16 * i \<and>
        lprev (fold (\<lambda>i h. INIT_LIST_HEAD h (z + 16 * i)) [0..<n] h) (z + 16 * i) = z + 16 * i" if "i < n" for i n
    using that by (induction n) (auto simp: INIT_LIST_HEAD_def less_Suc_eq)
  then show ?thesis using assms by (auto simp: list_family_def dlist_def)
qed

lemma fresh_core:
  assumes g: "pmm_geometry s" and b: "bitmap s = replicate n 0xFF"
    and st: "store s = fold (\<lambda>i h. INIT_LIST_HEAD h (free_list s i)) [0..<MAX_ORDER] h"
  shows "pmm_inv s" "free_set s = {}"
proof -
  show fs: "free_set s = {}"
  proof -
    have "page_used s q" if "in_bounds s q" for q
    proof -
      have "(q - lowest_page s) div 8 < n"
        using that g b by (auto simp: in_bounds_def pmm_geometry_def)
      moreover have "bit (0xFF :: u8) m" if "m < 8" for m
        using mask_eq_exp_minus_1[of 8, where 'a = u8] bit_mask_iff[of 8 m, where 'a = u8] that by simp
      ultimately show ?thesis by (simp add: page_used_def bitmap_test_bit b)
    qed
    then show ?thesis by (auto simp: free_set_def)
  qed
  have z: "HIGHER_HALF \<le> zone s" using g by (simp add: pmm_geometry_def)
  have "pmm_core s (\<lambda>_. []) {}"
  proof (rule pmm_coreI[OF g])
    show "list_family (store s) MAX_ORDER (free_list s) (\<lambda>k. map (block_addr s) [])"
      using init_heads_family[OF z, of MAX_ORDER h] st by (simp add: free_list_def[abs_def])
  qed (auto simp: listed_def listed_pages_def fs)
  then show "pmm_inv s" by (auto simp: pmm_inv_def)
qed

text \<open>The bounds found by the first loop, for a map that satisfies the protocol.\<close>

lemma scanned_bounds:
  fixes s :: pmm_state
  assumes m: "memmap_ok hhdm z memmap" and hz: "hhdm \<le> z" "0 < lo"
  defines "s1 \<equiv> fold init_scan memmap (s\<lparr>highest_page := 0, lowest_page := lo\<rparr>)"
  shows "0 < lowest_page s1" "hhdm + highest_page s1 * PAGE_SIZE \<le> z"
    "e \<in> set memmap \<Longrightarrow> managed_entry e \<Longrightarrow> q \<in> entry_pages e \<Longrightarrow> lowest_page s1 \<le> q \<and> q < highest_page s1"
    "zone s1 = zone s" "store s1 = store s" "physical_memory_offset s1 = physical_memory_offset s"
    "usable_memory s1 = usable_memory s"
proof -
  have al: "\<forall>e\<in>set memmap. managed_entry e \<longrightarrow> PAGE_SIZE dvd me_base e \<and> PAGE_SIZE dvd me_length e"
    using m by (simp add: memmap_ok_def)
  let ?E = "{e \<in> set memmap. managed_entry e}"
  have sc: "lowest_page s1 = Min (insert lo ((\<lambda>e. me_base e div PAGE_SIZE) ` ?E))"
    "highest_page s1 = Max (insert 0 ((\<lambda>e. (me_base e + me_length e) div PAGE_SIZE) ` ?E))"
    and rest: "zone s1 = zone s" "store s1 = store s" "physical_memory_offset s1 = physical_memory_offset s"
    "usable_memory s1 = usable_memory s"
    using init_scan_spec[OF al, of "s\<lparr>highest_page := 0, lowest_page := lo\<rparr>"] by (simp_all add: s1_def Let_def)
  show "zone s1 = zone s" "store s1 = store s" "physical_memory_offset s1 = physical_memory_offset s"
    "usable_memory s1 = usable_memory s" by (fact rest)+
  have fin: "finite ?E" by simp
  have "\<forall>b\<in>(\<lambda>e. me_base e div PAGE_SIZE) ` ?E. 0 < b"
    using m by (auto simp: memmap_ok_def PAGE_SIZE_def div_greater_zero_iff)
  then show "0 < lowest_page s1" using hz(2) fin unfolding sc by (subst Min_gr_iff) auto
  have "b * PAGE_SIZE + hhdm \<le> z" if h: "b \<in> insert 0 ((\<lambda>e. (me_base e + me_length e) div PAGE_SIZE) ` ?E)" for b
  proof (cases "b = 0")
    case False
    then obtain e where e: "e \<in> ?E" "b = (me_base e + me_length e) div PAGE_SIZE" using h by auto
    have "b * PAGE_SIZE \<le> me_base e + me_length e" unfolding e(2) by (rule div_times_less_eq_dividend)
    then show ?thesis using m e(1) by (force simp: memmap_ok_def)
  qed (use hz in simp)
  moreover have "highest_page s1 \<in> insert 0 ((\<lambda>e. (me_base e + me_length e) div PAGE_SIZE) ` ?E)"
    unfolding sc by (rule Max_in) (use fin in auto)
  ultimately show "hhdm + highest_page s1 * PAGE_SIZE \<le> z" by (simp add: add.commute)
  show "lowest_page s1 \<le> q \<and> q < highest_page s1" if e: "e \<in> set memmap" "managed_entry e" "q \<in> entry_pages e"
  proof -
    have "lowest_page s1 \<le> me_base e div PAGE_SIZE" unfolding sc by (rule Min_le) (use e fin in auto)
    moreover have "(me_base e + me_length e) div PAGE_SIZE \<le> highest_page s1"
      unfolding sc by (rule Max_ge) (use e fin in auto)
    ultimately show ?thesis using e(3) by (auto simp: entry_pages_def)
  qed
qed

text \<open>The metadata size in pages: two bitmaps and two bytes per page, rounded up.\<close>

definition metadata_pages :: "nat \<Rightarrow> nat" where
  "metadata_pages n = ((n div 8 + (if n mod 8 \<noteq> 0 then 1 else 0)) * 2 + n * 2 + PAGE_SIZE - 1) div PAGE_SIZE"

lemma bitmap_bytes: "n \<le> 8 * (n div 8 + (if n mod 8 \<noteq> 0 then 1 else 0))" for n :: nat
  using div_mult_mod_eq[of n 8] mod_less_divisor[of 8 n] by (auto simp: algebra_simps)

lemma zero_bitmap: "i div 8 < n \<Longrightarrow> \<not> bitmap_test (replicate n 0) i"
  by (simp add: bitmap_test_bit)

lemma pmm_init_spec:
  assumes m: "memmap_ok hhdm (zone s0) memmap" and hz: "HIGHER_HALF \<le> hhdm" "hhdm \<le> zone s0" "zone s0 + 16 * MAX_ORDER \<le> 2 ^ 64"
    and r: "pmm_init memmap hhdm raw s0 = Some s"
  shows "\<exists>e\<in>set memmap. me_type e = MEMMAP_USABLE \<and>
     metadata_pages (highest_page s - lowest_page s) * PAGE_SIZE \<le> me_length e \<and> pmm_inv s \<and>
     free_set s = usable_pages (me_base e div PAGE_SIZE) (metadata_pages (highest_page s - lowest_page s)) memmap \<and>
     usable_memory s = usable_memory s0 + card (free_set s) * PAGE_SIZE \<and>
     (\<forall>q. in_bounds s q \<longrightarrow> (page_managed s q \<longleftrightarrow> q \<in> free_set s))"
proof -
  define s1 where "s1 = fold init_scan memmap ((s0\<lparr>physical_memory_offset := hhdm, internal_memmap := Some memmap\<rparr>)
     \<lparr>highest_page := 0, lowest_page := 0xFFFFFFFFFFFFFFFF\<rparr>)"
  note b = scanned_bounds[OF m hz(2), where lo = "0xFFFFFFFFFFFFFFFF" and
      s = "s0\<lparr>physical_memory_offset := hhdm, internal_memmap := Some memmap\<rparr>", folded s1_def, simplified]
  define n where "n = highest_page s1 - lowest_page s1"
  have n: "(if highest_page s1 > lowest_page s1 then highest_page s1 - lowest_page s1 else 0) = n"
    by (simp add: n_def)
  define bs where "bs = n div 8 + (if n mod 8 \<noteq> 0 then 1 else 0)"
  have S: "(bs * 2 + n * 2 + PAGE_SIZE - 1) div PAGE_SIZE = metadata_pages n"
    by (simp only: metadata_pages_def bs_def)
  define s2 where "s2 = s1\<lparr>page_count := n, bitmap_size := bs, bitmap := replicate bs 0xFF,
     managed_bitmap := replicate bs 0, refcounts := map raw [0..<n]\<rparr>"
  define s3 where "s3 = s2\<lparr>store := fold (\<lambda>i h. INIT_LIST_HEAD h (free_list s2 i)) [0..<MAX_ORDER] (store s2)\<rparr>"
  have eq: "pmm_init memmap hhdm raw s0 =
      (case find (\<lambda>e. me_type e = MEMMAP_USABLE \<and> me_length e \<ge> metadata_pages n * PAGE_SIZE) memmap of
         None \<Rightarrow> None
       | Some m \<Rightarrow> Some (fold (\<lambda>f s. if me_type f = MEMMAP_USABLE
           then init_carve s (me_base f) (me_length f) (me_base m) (metadata_pages n * PAGE_SIZE) 0 else s) memmap s3))"
    by (simp only: pmm_init_def Let_def s1_def[symmetric] n bs_def[symmetric] S s2_def[symmetric] s3_def[symmetric])
  obtain e where e: "find (\<lambda>e. me_type e = MEMMAP_USABLE \<and> me_length e \<ge> metadata_pages n * PAGE_SIZE) memmap = Some e"
    and s: "s = fold (\<lambda>f s. if me_type f = MEMMAP_USABLE
        then init_carve s (me_base f) (me_length f) (me_base e) (metadata_pages n * PAGE_SIZE) 0 else s) memmap s3"
    using r unfolding eq by (auto split: option.splits)
  have e1: "e \<in> set memmap" "me_type e = MEMMAP_USABLE" "metadata_pages n * PAGE_SIZE \<le> me_length e"
    using find_SomeD[OF e] by auto
  have f3: "lowest_page s3 = lowest_page s1" "highest_page s3 = highest_page s1" "zone s3 = zone s0"
    "physical_memory_offset s3 = hhdm" "usable_memory s3 = usable_memory s0" "free_list s3 = free_list s2"
    using b by (auto simp: s3_def s2_def free_list_def fun_eq_iff)
  have nb: "n \<le> 8 * bs" unfolding bs_def by (rule bitmap_bytes)
  have len: "length (bitmap s3) = bs" "length (managed_bitmap s3) = bs" "length (refcounts s3) = n"
    by (simp_all add: s3_def s2_def)
  have g: "pmm_geometry s3"
    using b(1,2) hz nb unfolding pmm_geometry_def f3 len n_def[symmetric] by simp
  have fresh: "pmm_inv s3" "free_set s3 = {}"
    using fresh_core[OF g, of bs "store s2"] f3(6) by (simp_all add: s3_def s2_def)
  have "PAGE_SIZE dvd me_base e" using m e1 by (simp add: memmap_ok_def managed_entry_def)
  then have mb: "me_base e = me_base e div PAGE_SIZE * PAGE_SIZE" by simp
  have c: "carves s3 (usable_pages (me_base e div PAGE_SIZE) (metadata_pages n) memmap) s"
    unfolding s
  proof (subst (2) mb, rule init_entries_spec[OF fresh(1)])
    show "\<forall>f\<in>set memmap. me_type f = MEMMAP_USABLE \<longrightarrow> PAGE_SIZE dvd me_base f \<and> PAGE_SIZE dvd me_length f \<and>
        (\<forall>q\<in>entry_pages f. in_bounds s3 q \<and> page_used s3 q)"
    proof (intro ballI impI conjI)
      fix f q assume f: "f \<in> set memmap" "me_type f = MEMMAP_USABLE" and q: "q \<in> entry_pages f"
      show ib: "in_bounds s3 q" using b(3)[OF f(1) _ q] f(2) f3 by (simp add: in_bounds_def managed_entry_def)
      then show "page_used s3 q" using fresh(2) by (auto simp: free_set_def)
    qed (use m in \<open>auto simp: memmap_ok_def managed_entry_def\<close>)
  qed (use m in \<open>simp add: memmap_ok_def\<close>)
  have n': "n = highest_page s - lowest_page s" using c f3 by (simp add: carves_def n_def)
  have man0: "\<not> page_managed s3 q" if "in_bounds s3 q" for q
  proof -
    have "(q - lowest_page s3) div 8 < bs"
      using that f3 nb by (auto simp: in_bounds_def n_def)
    then show ?thesis using zero_bitmap by (simp add: page_managed_def s3_def s2_def)
  qed
  have ib: "in_bounds s q = in_bounds s3 q" for q using c by (simp add: carves_def in_bounds_def)
  show ?thesis
    unfolding n'[symmetric]
    by (rule bexI[OF _ e1(1)]) (use c fresh(2) e1 f3(5) man0 ib in \<open>auto simp: carves_def\<close>)
qed

end
