(* ===== verification/Pmm_Reclaim.thy ===== *)
theory Pmm_Reclaim
  imports Pmm_Init
begin

text \<open>
  \<^verbatim>\<open>pmm_reclaim_bootloader\<close> of \<^verbatim>\<open>kernel/src/mm/pmm.c\<close>: the candidates it collects, and the
  candidates that are left after the test against the main bitmap.
\<close>

section \<open>Marking used pages again\<close>

lemma mark_used_bits:
  assumes g: "pmm_geometry s" and n: "p + n < 2 ^ 64" and q: "in_bounds s q"
  shows "page_used (mark_used s p n) q \<longleftrightarrow> lowest_page s \<le> p \<and> p \<le> q \<and> q < p + n \<or> page_used s q"
    "length (bitmap (mark_used s p n)) = length (bitmap s)"
proof -
  have l: "highest_page s - lowest_page s \<le> 8 * length (bitmap s)" using g by (simp add: pmm_geometry_def)
  have j: "q - lowest_page s < 8 * length (bitmap s)" using q l by (auto simp: in_bounds_def)
  show "page_used (mark_used s p n) q \<longleftrightarrow> lowest_page s \<le> p \<and> p \<le> q \<and> q < p + n \<or> page_used s q"
    "length (bitmap (mark_used s p n)) = length (bitmap s)"
    using bitmap_range_clipped(1,3)[OF n l j] q by (auto simp: page_used_def mark_used_def in_bounds_def)
qed

lemma core_mark_used_again:
  assumes c: "pmm_core s L X" and n: "p + n < 2 ^ 64" and u: "{p..<p + n} \<inter> free_set s = {}"
  shows "pmm_core (mark_used s p n) L X" "free_set (mark_used s p n) = free_set s"
proof -
  let ?s = "mark_used s p n"
  note e = pmm_core_elims[OF c]
  have fields: "free_list ?s = free_list s" "block_addr ?s = block_addr s" "store ?s = store s"
    "block_ok ?s = block_ok s" "block_order ?s = block_order s" "page_managed ?s = page_managed s"
    "in_bounds ?s = in_bounds s" "lowest_page ?s = lowest_page s" "highest_page ?s = highest_page s"
    by (auto simp: mark_used_def fun_eq_iff free_list_def block_addr_def block_ok_def in_bounds_def page_managed_def)
  have used: "page_used ?s q = page_used s q" if "in_bounds s q" for q
    using mark_used_bits(1)[OF e(1) n that] u that by (auto simp: free_set_def)
  then show fs: "free_set ?s = free_set s" by (auto simp: free_set_def fields)
  have len: "length (bitmap ?s) = length (bitmap s) \<or> highest_page s \<le> lowest_page s"
    using mark_used_bits(2)[OF e(1) n, of "lowest_page s"] by (auto simp: in_bounds_def)
  have "pmm_geometry ?s" using e(1) len by (auto simp: pmm_geometry_def mark_used_def)
  then show "pmm_core ?s L X"
    by (rule pmm_coreI) (use e(2-8) fs in \<open>auto simp: fields\<close>)
qed

definition table_pages :: "(nat \<times> nat) list \<Rightarrow> nat set" where
  "table_pages tables = (\<Union>(a, n)\<in>set tables. {a div PAGE_SIZE..<a div PAGE_SIZE + n})"

lemma protect_tables_core:
  assumes "pmm_core s L X" "\<forall>(a, n)\<in>set tables. a div PAGE_SIZE + n < 2 ^ 64" "table_pages tables \<inter> free_set s = {}"
  defines "s' \<equiv> fold (\<lambda>(a, n) s. pmm_mark_used s a n) tables s"
  shows "pmm_core s' L X \<and> free_set s' = free_set s \<and> usable_memory s' = usable_memory s \<and>
    lowest_page s' = lowest_page s \<and> highest_page s' = highest_page s \<and> refcounts s' = refcounts s \<and>
    managed_bitmap s' = managed_bitmap s \<and> bitmap_size s' = bitmap_size s"
  using assms(1-3) unfolding s'_def
proof (induction tables arbitrary: s)
  case (Cons t tables)
  obtain a n where t: "t = (a, n)" by fastforce
  let ?s1 = "pmm_mark_used s a n"
  have "pmm_core ?s1 L X \<and> free_set ?s1 = free_set s"
    using core_mark_used_again[OF Cons.prems(1), of "a div PAGE_SIZE" n] Cons.prems
    by (auto simp: pmm_mark_used_def t table_pages_def)
  moreover have "usable_memory ?s1 = usable_memory s" "lowest_page ?s1 = lowest_page s"
    "highest_page ?s1 = highest_page s" "refcounts ?s1 = refcounts s" "managed_bitmap ?s1 = managed_bitmap s" "bitmap_size ?s1 = bitmap_size s"
    by (auto simp: pmm_mark_used_def mark_used_def)
  ultimately show ?case using Cons.IH[of ?s1] Cons.prems by (simp add: t table_pages_def Int_Un_distrib2)
qed simp

section \<open>The candidates\<close>

definition reclaim_entry :: "memmap_entry \<Rightarrow> bool" where
  "reclaim_entry e \<longleftrightarrow> me_type e = MEMMAP_BOOTLOADER_RECLAIMABLE \<or> me_type e = MEMMAP_EXECUTABLE_AND_MODULES"

lemma reclaim_mark_spec:
  assumes g: "highest_page s - lowest_page s \<le> 8 * length temp" and j: "j < 8 * length temp"
    and a: "me_base e + me_length e < 2 ^ 64"
  shows "length (reclaim_mark s k e temp) = length temp"
    "bitmap_test (reclaim_mark s k e temp) j \<Longrightarrow>
       bitmap_test temp j \<or> reclaim_entry e \<and> lowest_page s + j \<in> entry_pages e \<and> in_bounds s (lowest_page s + j)"
proof -
  have r: "length (bitmap_set_range (lowest_page s) (highest_page s) temp st n) = length temp"
    "bitmap_test (bitmap_set_range (lowest_page s) (highest_page s) temp st n) j \<longleftrightarrow>
       (lowest_page s \<le> st \<and> st < highest_page s \<and> st \<le> lowest_page s + j \<and> lowest_page s + j < min (st + n) (highest_page s)) \<or>
       bitmap_test temp j" if "st + n < 2 ^ 64" for st n
    using bitmap_range_clipped(1,3)[OF that g j] by auto
  have add_div: "x div PAGE_SIZE + y div PAGE_SIZE \<le> (x + y) div PAGE_SIZE" for x y
    using div_times_less_eq_dividend[of x PAGE_SIZE] div_times_less_eq_dividend[of y PAGE_SIZE]
    by (subst less_eq_div_iff_mult_less_eq) (simp_all add: PAGE_SIZE_def)
  have w1: "me_base e div PAGE_SIZE + me_length e div PAGE_SIZE < 2 ^ 64"
    using add_div[of "me_base e" "me_length e"] a by (meson div_le_dividend le_less_trans)
  show "length (reclaim_mark s k e temp) = length temp"
    using r(1) w1 a by (auto simp: reclaim_mark_def Let_def PAGE_SIZE_def)
  assume t: "bitmap_test (reclaim_mark s k e temp) j"
  show "bitmap_test temp j \<or> reclaim_entry e \<and> lowest_page s + j \<in> entry_pages e \<and> in_bounds s (lowest_page s + j)"
  proof (rule ccontr)
    assume n: "\<not> ?thesis"
    then have re: "reclaim_entry e"
      using t by (auto simp: reclaim_mark_def reclaim_entry_def Let_def split: if_splits)
    show False
    proof (cases "me_base e < 0x100000")
      case True
      let ?d = "0x100000 - me_base e"
      have d: "\<not> me_length e \<le> ?d" using t n True by (auto simp: reclaim_mark_def Let_def split: if_splits)
      have e1: "0x100000 div PAGE_SIZE + (me_length e - ?d) div PAGE_SIZE \<le> (me_base e + me_length e) div PAGE_SIZE"
        using add_div[of "0x100000" "me_length e - ?d"] True d by (simp add: add.commute)
      have e0: "me_base e div PAGE_SIZE \<le> 0x100000 div PAGE_SIZE" using True by (intro div_le_mono) simp
      have w: "0x100000 div PAGE_SIZE + (me_length e - ?d) div PAGE_SIZE < 2 ^ 64"
        using e1 a by (meson div_le_dividend le_less_trans)
      show False using t n r(2)[OF w] True d e0 e1
        by (auto simp: reclaim_mark_def Let_def entry_pages_def in_bounds_def re split: if_splits)
    next
      case False
      show False using t n r(2)[OF w1] False add_div[of "me_base e" "me_length e"]
        by (auto simp: reclaim_mark_def Let_def entry_pages_def in_bounds_def re split: if_splits)
    qed
  qed
qed

lemma reclaim_marks_spec:
  assumes "highest_page s - lowest_page s \<le> 8 * length temp" "j < 8 * length temp"
    "\<forall>e\<in>set es. me_base e + me_length e < 2 ^ 64"
  shows "length (fold (reclaim_mark s k) es temp) = length temp \<and>
    (bitmap_test (fold (reclaim_mark s k) es temp) j \<longrightarrow> bitmap_test temp j \<or>
       (\<exists>e\<in>set es. reclaim_entry e \<and> lowest_page s + j \<in> entry_pages e \<and> in_bounds s (lowest_page s + j)))"
  using assms
proof (induction es arbitrary: temp)
  case (Cons e es)
  have e: "me_base e + me_length e < 2 ^ 64" using Cons.prems(3) by simp
  note m = reclaim_mark_spec[OF Cons.prems(1,2) e, of k]
  have ih: "length (fold (reclaim_mark s k) es (reclaim_mark s k e temp)) = length (reclaim_mark s k e temp)"
    "bitmap_test (fold (reclaim_mark s k) es (reclaim_mark s k e temp)) j \<longrightarrow> bitmap_test (reclaim_mark s k e temp) j \<or>
       (\<exists>e\<in>set es. reclaim_entry e \<and> lowest_page s + j \<in> entry_pages e \<and> in_bounds s (lowest_page s + j))"
    using Cons.IH[of "reclaim_mark s k e temp"] Cons.prems m(1) by auto
  show ?case using ih m by auto
qed simp

section \<open>The filter\<close>

lemma filter_bits:
  assumes "b * 8 + n \<le> 8 * length t" "n \<le> 8"
  shows "let t' = fold (\<lambda>i t. if bitmap_test t (b * 8 + i) \<and> bitmap_test main (b * 8 + i)
                 then bitmap_clear t (b * 8 + i) else t) [0..<n] t
    in length t' = length t \<and>
       (\<forall>j. bitmap_test t' j \<longleftrightarrow> bitmap_test t j \<and> \<not> (b * 8 \<le> j \<and> j < b * 8 + n \<and> bitmap_test main j))"
  using assms
proof (induction n)
  case (Suc n)
  then have "b * 8 + n < 8 * length t" by simp
  then have d: "(b * 8 + n) div 8 < length t" by auto
  let ?t = "fold (\<lambda>i t. if bitmap_test t (b * 8 + i) \<and> bitmap_test main (b * 8 + i)
                 then bitmap_clear t (b * 8 + i) else t) [0..<n] t"
  have ih: "length ?t = length t"
    "\<And>j. bitmap_test ?t j \<longleftrightarrow> bitmap_test t j \<and> \<not> (b * 8 \<le> j \<and> j < b * 8 + n \<and> bitmap_test main j)"
    using Suc by (auto simp: Let_def)
  show ?case using ih d by (auto simp: Let_def bitmap_test_clear less_Suc_eq)
qed simp

lemma zero_byte: "i < length t \<Longrightarrow> t ! i = 0 \<longleftrightarrow> (\<forall>j<8. \<not> bitmap_test t (i * 8 + j))"
  by (auto simp: bitmap_test_bit intro!: bit_eqI)

lemma reclaim_filter_spec:
  assumes "n \<le> length t"
  shows "length (reclaim_filter main n t) = length t \<and>
    (\<forall>j. bitmap_test (reclaim_filter main n t) j \<longleftrightarrow> bitmap_test t j \<and> \<not> (j < 8 * n \<and> bitmap_test main j))"
  using assms
proof (induction n)
  case (Suc n)
  let ?t = "reclaim_filter main n t"
  let ?f = "fold (\<lambda>i t. if bitmap_test t (n * 8 + i) \<and> bitmap_test main (n * 8 + i)
                 then bitmap_clear t (n * 8 + i) else t) [0..<8] ?t"
  have ih: "length ?t = length t"
    "\<And>j. bitmap_test ?t j \<longleftrightarrow> bitmap_test t j \<and> \<not> (j < 8 * n \<and> bitmap_test main j)"
    using Suc by auto
  have step: "reclaim_filter main (Suc n) t = (if ?t ! n \<noteq> 0 then ?f else ?t)"
    by (simp add: reclaim_filter_def)
  have f: "length ?f = length t"
    "\<And>j. bitmap_test ?f j \<longleftrightarrow> bitmap_test ?t j \<and> \<not> (n * 8 \<le> j \<and> j < n * 8 + 8 \<and> bitmap_test main j)"
    using filter_bits[of n 8 ?t main] Suc.prems ih(1) by (auto simp: Let_def)
  show ?case
  proof (cases "?t ! n = 0")
    case True
    then have z: "\<not> bitmap_test ?t j" if "n * 8 \<le> j" "j < n * 8 + 8" for j
      using zero_byte[of n ?t] ih(1) Suc.prems that by (metis Suc_le_lessD add_less_cancel_left le_add_diff_inverse)
    have "bitmap_test ?t j \<longleftrightarrow> bitmap_test t j \<and> \<not> (j < 8 * Suc n \<and> bitmap_test main j)" for j
      using ih(2)[of j] z[of j] by (cases "j < 8 * n"; cases "j < 8 * Suc n") auto
    then show ?thesis using True step ih(1) by simp
  next
    case False
    have "bitmap_test ?f j \<longleftrightarrow> bitmap_test t j \<and> \<not> (j < 8 * Suc n \<and> bitmap_test main j)" for j
      using ih(2)[of j] f(2)[of j] by (cases "j < 8 * n"; cases "j < 8 * Suc n") auto
    then show ?thesis using False step f(1) by simp
  qed
qed (simp add: reclaim_filter_def)

lemma reclaim_free_nothing:
  assumes "\<forall>b<n. t ! b = 0"
  shows "reclaim_free n (s, t) = (s, t)"
  using assms by (induction n) (auto simp: reclaim_free_def)

section \<open>The whole operation\<close>

lemma split_down_bitmap_size [simp]: "bitmap_size (split_down s p cur order) = bitmap_size s"
  by (induction s p cur order rule: split_down.induct) (simp_all add: link_block_def Let_def)

lemma pmm_alloc_bitmap_size: "pmm_alloc_pages s n = Some (a, s1) \<Longrightarrow> bitmap_size s1 = bitmap_size s"
  by (auto simp: pmm_alloc_pages_def Let_def map_refs_def mark_used_def unlink_block_def
      bind_eq_Some_conv split: if_splits)

lemma pmm_free_usable:
  assumes "pmm_inv s" "0 < count" "get_order count = Some k" "k < MAX_ORDER" "block_ok s k p"
    "\<forall>q\<in>pages k p. page_used s q \<and> page_managed s q" "pmm_free_pages s (p * PAGE_SIZE) count = Some s'"
  shows "usable_memory s' = usable_memory s"
proof -
  obtain L where c: "pmm_core s L {}" using assms(1) by (auto simp: pmm_inv_def)
  let ?s1 = "map_refs s dec_ref p (2 ^ k)"
  have i1: "pmm_inv ?s1" using core_map_refs[OF c assms(5)] by (auto simp: pmm_inv_def)
  have pp: "p * PAGE_SIZE div PAGE_SIZE = p" by (simp add: PAGE_SIZE_def)
  have u1: "\<forall>q\<in>pages k p. page_used ?s1 q \<and> page_managed ?s1 q" using assms(6) by simp
  have "usable_memory (buddy_free_internal ?s1 (p * PAGE_SIZE) k) = usable_memory s"
    using buddy_free_internal_spec(5)[OF i1 _ assms(4) pp u1] assms(5) by simp
  then show ?thesis using assms(2,3,4,7) by (auto simp: pmm_free_pages_def Let_def split: if_splits)
qed

text \<open>
  A page is a candidate only if it belongs to a reclaimable entry; the bits of all such pages
  have been set since \<^verbatim>\<open>pmm_init\<close> filled the bitmap, so the filter drops every candidate.
\<close>

lemma no_candidate_left:
  assumes g: "pmm_geometry s" and size: "highest_page s - lowest_page s \<le> 8 * n"
    and es: "\<forall>e\<in>set es. me_base e + me_length e < 2 ^ 64" "\<forall>e\<in>set es. reclaim_entry e \<longrightarrow> entry_pages e \<inter> free_set s = {}"
  shows "reclaim_free n (s, reclaim_filter (bitmap s) n (fold (reclaim_mark s k) es (replicate n 0))) =
    (s, reclaim_filter (bitmap s) n (fold (reclaim_mark s k) es (replicate n 0)))"
proof (rule reclaim_free_nothing, intro allI impI)
  fix b assume b: "b < n"
  let ?t1 = "fold (reclaim_mark s k) es (replicate n 0)"
  have l: "highest_page s - lowest_page s \<le> 8 * length (replicate n (0 :: u8))" using size by simp
  have m: "length ?t1 = n" "\<And>j. j < 8 * n \<Longrightarrow> bitmap_test ?t1 j \<Longrightarrow> bitmap_test (bitmap s) j"
  proof -
    show "length ?t1 = n" using reclaim_marks_spec[OF l _ es(1), of "b * 8"] b by simp
    fix j assume j: "j < 8 * n" "bitmap_test ?t1 j"
    have "\<not> bitmap_test (replicate n 0) j" by (rule zero_bitmap) (use j in auto)
    then obtain e where e: "e \<in> set es" "reclaim_entry e" "lowest_page s + j \<in> entry_pages e" "in_bounds s (lowest_page s + j)"
      using reclaim_marks_spec[OF l _ es(1), of j k] j by auto
    then have "lowest_page s + j \<notin> free_set s" using es(2) by auto
    then show "bitmap_test (bitmap s) j" using e(4) by (simp add: free_set_def page_used_def)
  qed
  have f: "length (reclaim_filter (bitmap s) n ?t1) = n"
    "\<forall>j. bitmap_test (reclaim_filter (bitmap s) n ?t1) j \<longleftrightarrow> bitmap_test ?t1 j \<and> \<not> (j < 8 * n \<and> bitmap_test (bitmap s) j)"
    using reclaim_filter_spec[of n ?t1 "bitmap s"] m(1) by auto
  show "reclaim_filter (bitmap s) n ?t1 ! b = 0"
    using zero_byte[of b "reclaim_filter (bitmap s) n ?t1"] f m(2) b by auto
qed

text \<open>The part of the operation after the temporary bitmap has been allocated at page \<open>p\<close>.\<close>

definition reclaim_tail :: "(nat \<times> nat) list \<Rightarrow> nat \<Rightarrow> memmap_entry list \<Rightarrow> pmm_state \<Rightarrow> nat \<Rightarrow> nat \<Rightarrow> pmm_state option" where
  "reclaim_tail tables kernel_phys_base es s1 temp_phys temp_count =
     (let temp1 = fold (reclaim_mark s1 kernel_phys_base) es (replicate (bitmap_size s1) 0);
          s2 = fold (\<lambda>(a, n) s. pmm_mark_used s a n) tables s1;
          temp2 = reclaim_filter (bitmap s2) (bitmap_size s2) temp1;
          (s3, _) = reclaim_free (bitmap_size s2) (s2, temp2);
          s4 = s3\<lparr>internal_memmap := None\<rparr>
      in pmm_free_pages s4 temp_phys temp_count)"

lemma reclaim_unfold:
  assumes "internal_memmap s = Some memmap"
    "pmm_alloc_pages s ((bitmap_size s + PAGE_SIZE - 1) div PAGE_SIZE) = Some (a, s1)" "a \<noteq> 0"
  shows "pmm_reclaim_bootloader tables k s =
    reclaim_tail tables k (take 128 memmap) s1 a ((bitmap_size s + PAGE_SIZE - 1) div PAGE_SIZE)"
  using assms by (simp add: pmm_reclaim_bootloader_def reclaim_tail_def Let_def)

lemma reclaim_tail_spec:
  assumes c1: "pmm_core s1 L {}" and b: "block_ok s1 k p" "page_ref s1 p = 1"
    and u: "\<forall>q\<in>pages k p. page_used s1 q \<and> page_managed s1 q"
    and n: "0 < n" "get_order n = Some k" "k < MAX_ORDER"
    and es: "\<forall>e\<in>set es. me_base e + me_length e < 2 ^ 64" "\<forall>e\<in>set es. reclaim_entry e \<longrightarrow> entry_pages e \<inter> free_set s1 = {}"
    and size: "highest_page s1 - lowest_page s1 \<le> 8 * bitmap_size s1"
    and tb: "\<forall>(a, n)\<in>set tables. a div PAGE_SIZE + n < 2 ^ 64" "table_pages tables \<inter> free_set s1 = {}"
  shows "\<exists>s'. reclaim_tail tables kb es s1 (p * PAGE_SIZE) n = Some s' \<and> pmm_inv s' \<and>
    free_set s' = free_set s1 \<union> pages k p \<and> usable_memory s' = usable_memory s1"
proof -
  define s2 where "s2 = fold (\<lambda>(a, n) s. pmm_mark_used s a n) tables s1"
  note c2 = protect_tables_core[OF c1 tb, folded s2_def]
  have f2: "pmm_core s2 L {}" "free_set s2 = free_set s1" "usable_memory s2 = usable_memory s1"
    "lowest_page s2 = lowest_page s1" "highest_page s2 = highest_page s1" "refcounts s2 = refcounts s1"
    "managed_bitmap s2 = managed_bitmap s1" "bitmap_size s2 = bitmap_size s1" using c2 by auto
  have mark: "reclaim_mark s1 kb = reclaim_mark s2 kb"
    by (intro ext) (simp only: reclaim_mark_def f2(4,5))
  have es2: "\<forall>e\<in>set es. reclaim_entry e \<longrightarrow> entry_pages e \<inter> free_set s2 = {}" using es(2) f2(2) by simp
  have sz2: "highest_page s2 - lowest_page s2 \<le> 8 * bitmap_size s1" using size f2(4,5) by simp
  note none = no_candidate_left[OF pmm_core_elims(1)[OF f2(1)] sz2 es(1) es2, of kb]
  let ?s4 = "s2\<lparr>internal_memmap := None\<rparr>"
  have i4: "pmm_inv ?s4" using core_frame[OF f2(1), of ?s4] by (auto simp: pmm_inv_def)
  have f4: "free_set ?s4 = free_set s1" "page_managed ?s4 = page_managed s1" "block_ok ?s4 = block_ok s1"
    "page_ref ?s4 p = 1" "in_bounds ?s4 = in_bounds s1"
    using f2 b(2)
    by (auto simp: free_set_def in_bounds_def page_used_def page_managed_def block_ok_def page_ref_def fun_eq_iff)
  have b4: "block_ok ?s4 k p" using b(1) f4(3) by simp
  have u4: "\<forall>q\<in>pages k p. page_used ?s4 q \<and> page_managed ?s4 q"
  proof
    fix q assume q: "q \<in> pages k p"
    have "in_bounds ?s4 q" "q \<notin> free_set ?s4"
      using block_in_bounds[OF b4 q] q u f4(1) by (auto simp: free_set_def)
    then show "page_used ?s4 q \<and> page_managed ?s4 q" using q u f4(2) by (auto simp: free_set_def)
  qed
  obtain s' where s': "pmm_free_pages ?s4 (p * PAGE_SIZE) n = Some s'" "pmm_inv s'"
    "free_set s' = (if page_ref ?s4 p \<le> 1 then free_set ?s4 \<union> pages k p else free_set ?s4)"
    using pmm_free_pages_spec[OF i4 n b4 u4] by metis
  have "reclaim_tail tables kb es s1 (p * PAGE_SIZE) n = Some s'"
    using s'(1) none by (simp add: reclaim_tail_def Let_def s2_def[symmetric] f2(8) mark)
  moreover have "usable_memory s' = usable_memory s1"
    using pmm_free_usable[OF i4 n b4 u4 s'(1)] f2(3) by simp
  ultimately show ?thesis using s'(2,3) f4(1,4) by auto
qed

lemma pmm_reclaim_nothing:
  assumes i: "pmm_inv s" and mm: "internal_memmap s = Some memmap"
    and es: "\<forall>e\<in>set memmap. me_base e + me_length e < 2 ^ 64 \<and> (reclaim_entry e \<longrightarrow> entry_pages e \<inter> free_set s = {})"
    and size: "highest_page s - lowest_page s \<le> 8 * bitmap_size s" "0 < bitmap_size s" "bitmap_size s \<le> 2 ^ 60"
    and tb: "\<forall>(a, n)\<in>set tables. a div PAGE_SIZE + n < 2 ^ 64" "table_pages tables \<inter> free_set s = {}"
  shows "\<exists>s'. pmm_reclaim_bootloader tables kernel_phys_base s = Some s' \<and> pmm_inv s' \<and>
    free_set s' = free_set s \<and> usable_memory s' = usable_memory s"
proof -
  let ?n = "(bitmap_size s + PAGE_SIZE - 1) div PAGE_SIZE"
  have n: "0 < ?n" "?n \<le> 2 ^ 63" using size(2,3) by (auto simp: PAGE_SIZE_def div_greater_zero_iff)
  obtain k where k: "get_order ?n = Some k" using get_order_spec[OF n] by metis
  have null: ?thesis if "pmm_alloc_pages s ?n = Some (0, s)"
    using that i mm by (auto simp: pmm_reclaim_bootloader_def Let_def)
  show ?thesis
  proof (cases "k < MAX_ORDER")
    case True
    from pmm_alloc_pages_spec[OF i n(1) k True] show ?thesis
    proof (elim disjE conjE exE)
      fix p s1
      assume a: "pmm_alloc_pages s ?n = Some (p * PAGE_SIZE, s1)" and ba: "block_allocated s k p s1"
        and refs: "\<forall>q. lowest_page s \<le> q \<longrightarrow> page_ref s1 q = (if q \<in> pages k p then 1 else page_ref s q)"
      note ba = ba[unfolded block_allocated_def]
      obtain L where c1: "pmm_core s1 L {}" using ba by (auto simp: pmm_inv_def)
      have b1: "block_ok s1 k p" using ba by (simp add: block_ok_def)
      have r1: "page_ref s1 p = 1" using refs ba pages_simps(2)[of p k] by (simp add: block_ok_def)
      have u1: "\<forall>q\<in>pages k p. page_used s1 q \<and> page_managed s1 q"
        using ba block_in_bounds[OF b1] by (auto simp: free_set_def)
      have p0: "p * PAGE_SIZE \<noteq> 0"
        using ba pmm_inv_geometry[OF i] by (auto simp: block_ok_def pmm_geometry_def PAGE_SIZE_def)
      have "\<exists>s'. reclaim_tail tables kernel_phys_base (take 128 memmap) s1 (p * PAGE_SIZE) ?n = Some s' \<and> pmm_inv s' \<and>
          free_set s' = free_set s1 \<union> pages k p \<and> usable_memory s' = usable_memory s1"
        by (rule reclaim_tail_spec[OF c1 b1 r1 u1 n(1) k True])
          (use es size(1) tb ba pmm_alloc_bitmap_size[OF a] in \<open>auto dest!: in_set_takeD\<close>)
      moreover have "free_set s1 \<union> pages k p = free_set s" using ba by auto
      ultimately show ?thesis using reclaim_unfold[OF mm a p0] ba by simp
    qed (use null in blast)
  next
    case False
    then show ?thesis using null k n(1) by (simp add: pmm_alloc_pages_def)
  qed
qed

end
