(* ===== verification/Pmm_Props.thy ===== *)
theory Pmm_Props
  imports Pmm_Reclaim "HOL-Library.Code_Target_Nat"
begin

text \<open>
  What the interface of \<^verbatim>\<open>kernel/src/mm/pmm.c\<close> guarantees, with instances on the memory map of a small
  machine.
\<close>

section \<open>Instances\<close>

text \<open>A machine with 32 usable pages at 1 MB, and its allocator after initialisation.\<close>

definition demo_memmap :: "memmap_entry list" where
  "demo_memmap =
     [\<lparr>me_base = 0x1000, me_length = 0x9E000, me_type = MEMMAP_BOOTLOADER_RECLAIMABLE\<rparr>,
      \<lparr>me_base = 0x100000, me_length = 0x20000, me_type = MEMMAP_USABLE\<rparr>,
      \<lparr>me_base = 0xE0000000, me_length = 0x1000, me_type = MEMMAP_FRAMEBUFFER\<rparr>]"

definition demo_boot :: pmm_state where
  "demo_boot = \<lparr>zone = 0xFFFFFFFF80000000, store = \<lparr>lnext = (\<lambda>_. 0), lprev = (\<lambda>_. 0)\<rparr>,
     block_order = (\<lambda>_. 0), bitmap = [], managed_bitmap = [], refcounts = [], bitmap_size = 0,
     lowest_page = 0xFFFFFFFFFFFFFFFF, highest_page = 0, page_count = 0, usable_memory = 0,
     total_memory = 0, physical_memory_offset = 0, internal_memmap = None\<rparr>"

definition demo_pmm :: pmm_state where
  "demo_pmm = the (pmm_init demo_memmap HIGHER_HALF (\<lambda>_. 0xDEAD) demo_boot)"

lemma demo_memmap_ok: "memmap_ok HIGHER_HALF 0xFFFFFFFF80000000 demo_memmap"
  by (simp add: memmap_ok_def demo_memmap_def managed_entry_def entry_pages_def PAGE_SIZE_def HIGHER_HALF_def)

lemma demo_scan:
  "lowest_page (fold init_scan demo_memmap (s\<lparr>highest_page := 0, lowest_page := 0xFFFFFFFFFFFFFFFF\<rparr>)) = 1"
  "highest_page (fold init_scan demo_memmap (s\<lparr>highest_page := 0, lowest_page := 0xFFFFFFFFFFFFFFFF\<rparr>)) = 288"
  by (simp_all add: demo_memmap_def init_scan_def PAGE_SIZE_def Let_def)

lemma init_carve_bounds:
  "lowest_page (init_carve s b l m z p) = lowest_page s \<and> highest_page (init_carve s b l m z p) = highest_page s"
proof (induction s b l m z p rule: init_carve.induct)
  case (1 s b l m z p)
  have blk: "lowest_page (carve_block s a k) = lowest_page s" "highest_page (carve_block s a k) = highest_page s" for a k
    by (simp_all add: carve_block_def link_block_def map_refs_def mark_free_def mark_managed_def Let_def)
  show ?case using "1.IH" by (subst (1 2) init_carve.simps) (simp add: Let_def blk)
qed

lemma init_bounds:
  assumes "pmm_init memmap h raw s0 = Some s"
  defines "s1 \<equiv> fold init_scan memmap ((s0\<lparr>physical_memory_offset := h, internal_memmap := Some memmap\<rparr>)
     \<lparr>highest_page := 0, lowest_page := 0xFFFFFFFFFFFFFFFF\<rparr>)"
  shows "lowest_page s = lowest_page s1" "highest_page s = highest_page s1"
proof -
  have f: "lowest_page (fold (\<lambda>e s. if me_type e = MEMMAP_USABLE then init_carve s (me_base e) (me_length e) m z 0 else s) es t)
      = lowest_page t \<and>
      highest_page (fold (\<lambda>e s. if me_type e = MEMMAP_USABLE then init_carve s (me_base e) (me_length e) m z 0 else s) es t)
      = highest_page t" for es t m z
    by (induction es arbitrary: t) (auto simp: init_carve_bounds)
  show "lowest_page s = lowest_page s1" "highest_page s = highest_page s1"
    using assms(1) unfolding pmm_init_def Let_def s1_def[symmetric]
    by (auto simp: f split: option.splits)
qed

lemma demo_init: "pmm_init demo_memmap HIGHER_HALF (\<lambda>_. 0xDEAD) demo_boot = Some demo_pmm"
proof -
  let ?s = "demo_boot\<lparr>physical_memory_offset := HIGHER_HALF, internal_memmap := Some demo_memmap\<rparr>"
  have "pmm_init demo_memmap HIGHER_HALF (\<lambda>_. 0xDEAD) demo_boot \<noteq> None"
    unfolding pmm_init_def Let_def demo_scan by (simp add: demo_memmap_def PAGE_SIZE_def)
  then show ?thesis by (auto simp: demo_pmm_def)
qed

lemma demo_bounds: "lowest_page demo_pmm = 1" "highest_page demo_pmm = 288"
  using init_bounds[OF demo_init] demo_scan by simp_all

lemma demo_pmm_spec: "pmm_inv demo_pmm" "free_set demo_pmm = {257..<288}"
  "in_bounds demo_pmm q \<Longrightarrow> page_managed demo_pmm q \<longleftrightarrow> q \<in> {257..<288}"
proof -
  have "zone demo_boot = 0xFFFFFFFF80000000" by (simp add: demo_boot_def)
  then obtain e where e: "e \<in> set demo_memmap" "me_type e = MEMMAP_USABLE" "pmm_inv demo_pmm"
    "free_set demo_pmm = usable_pages (me_base e div PAGE_SIZE) (metadata_pages 287) demo_memmap"
    "\<forall>q. in_bounds demo_pmm q \<longrightarrow> page_managed demo_pmm q = (q \<in> free_set demo_pmm)"
    using pmm_init_spec[OF _ _ _ _ demo_init] demo_memmap_ok demo_bounds
    by (auto simp: HIGHER_HALF_def MAX_ORDER_def)
  have b: "me_base e = 0x100000" using e(1,2) by (auto simp: demo_memmap_def)
  have m: "metadata_pages 287 = 1" by (simp add: metadata_pages_def PAGE_SIZE_def)
  show "pmm_inv demo_pmm" by (fact e)
  show f: "free_set demo_pmm = {257..<288}"
  proof -
    let ?e = "\<lparr>me_base = 0x100000, me_length = 0x20000, me_type = MEMMAP_USABLE\<rparr>"
    have "{e \<in> set demo_memmap. me_type e = MEMMAP_USABLE} = {?e}" by (auto simp: demo_memmap_def)
    then have "usable_pages (me_base e div PAGE_SIZE) 1 demo_memmap = entry_carved 256 1 ?e"
      by (simp add: usable_pages_def b PAGE_SIZE_def)
    also have "\<dots> = {257..<288}" by (auto simp: entry_carved_def entry_pages_def PAGE_SIZE_def)
    finally show ?thesis unfolding e(4) m .
  qed
  show "page_managed demo_pmm q \<longleftrightarrow> q \<in> {257..<288}" if "in_bounds demo_pmm q" using e(5) that f by simp
qed

section \<open>Empty lists and single pages\<close>

lemma empty_lists:
  assumes "pmm_inv s" "\<forall>L. pmm_core s L {} \<longrightarrow> (\<forall>j. k \<le> j \<and> j < MAX_ORDER \<longrightarrow> L j = [])" "k \<le> j" "j < MAX_ORDER"
  shows "list_empty (store s) (free_list s j)"
proof -
  obtain L where c: "pmm_core s L {}" using assms(1) by (auto simp: pmm_inv_def)
  then show ?thesis using list_empty_dlist[OF family_dlist[OF c assms(4)]] assms(2-4) by auto
qed

lemma no_free_page:
  assumes "pmm_inv s" "\<forall>L. pmm_core s L {} \<longrightarrow> (\<forall>j. 0 \<le> j \<and> j < MAX_ORDER \<longrightarrow> L j = [])"
  shows "free_set s = {}"
proof -
  obtain L where c: "pmm_core s L {}" using assms(1) by (auto simp: pmm_inv_def)
  then have "listed_pages L = {}" using assms(2) by (auto simp: listed_pages_def listed_def)
  then show ?thesis using pmm_core_elims(7)[OF c] by simp
qed

lemma allocated_used:
  assumes "block_allocated s k p s'" "q \<in> pages k p"
  shows "page_used s' q \<and> page_managed s' q"
proof -
  have "in_bounds s' q" using assms block_in_bounds[of s k p q] by (simp add: block_allocated_def in_bounds_def)
  then show ?thesis using assms by (auto simp: block_allocated_def free_set_def)
qed

lemma one_page_alloc:
  assumes "pmm_inv s" "free_set s \<noteq> {}"
  shows "\<exists>p s'. pmm_alloc_pages s 1 = Some (p * PAGE_SIZE, s') \<and> block_allocated s 0 p s' \<and> page_ref s' p = 1"
proof -
  have k: "get_order 1 = Some 0" by (simp add: get_order_def get_order_loop.simps)
  have M: "0 < MAX_ORDER" by (simp add: MAX_ORDER_def)
  show ?thesis
    using pmm_alloc_pages_spec[OF assms(1) zero_less_one k M] no_free_page[OF assms(1)] assms(2)
    by (fastforce simp: block_allocated_def block_ok_def pages_simps)
qed

section \<open>Properties\<close>

text \<open>
  C15. The range operations on the page bitmaps, which fill whole bytes in the middle, set or clear exactly
  the bits of the pages of the range that lie below the upper page bound, provided the range starts inside the
  bounds; otherwise they change nothing.
\<close>

theorem bitmap_ranges_correct:
  assumes "start + count < 2 ^ 64" "highest - lowest \<le> 8 * length bm" "j < 8 * length bm"
  shows "(bitmap_test (bitmap_set_range lowest highest bm start count) j \<longleftrightarrow>
       (lowest \<le> start \<and> start < highest \<and> start \<le> lowest + j \<and> lowest + j < min (start + count) highest) \<or> bitmap_test bm j) \<and>
    (bitmap_test (bitmap_clear_range lowest highest bm start count) j \<longleftrightarrow>
       \<not> (lowest \<le> start \<and> start < highest \<and> start \<le> lowest + j \<and> lowest + j < min (start + count) highest) \<and> bitmap_test bm j)"
  using bitmap_range_clipped(3,4)[OF assms] by blast

theorem bitmap_ranges_correct_witness:
  "bitmap_test (bitmap_set_range 10 40 (replicate 4 0) 13 20) 22 \<and>
   \<not> bitmap_test (bitmap_set_range 10 40 (replicate 4 0) 13 20) 23"
proof -
  have z: "\<not> bitmap_test (replicate 4 0) j" if "j < 32" for j by (rule zero_bitmap) (use that in auto)
  show ?thesis
    using bitmap_ranges_correct[of 13 20 40 10 "replicate 4 0" 22]
      bitmap_ranges_correct[of 13 20 40 10 "replicate 4 0" 23] z[of 22] z[of 23] by auto
qed

text \<open>
  C9. For a memory map that keeps the guarantees of the boot protocol, \<open>pmm_init\<close> establishes the
  invariant of the allocator: exactly the pages of usable entries above the first megabyte and outside the metadata are
  free and managed, the metadata fits the entry it is placed in, and the memory counted as usable is that of
  the free pages.
\<close>

theorem pmm_init_correct:
  assumes "memmap_ok hhdm (zone s0) memmap" "HIGHER_HALF \<le> hhdm" "hhdm \<le> zone s0" "zone s0 + 16 * MAX_ORDER \<le> 2 ^ 64"
    and "pmm_init memmap hhdm raw s0 = Some s"
  shows "\<exists>e\<in>set memmap. me_type e = MEMMAP_USABLE \<and>
     metadata_pages (highest_page s - lowest_page s) * PAGE_SIZE \<le> me_length e \<and> pmm_inv s \<and>
     free_set s = usable_pages (me_base e div PAGE_SIZE) (metadata_pages (highest_page s - lowest_page s)) memmap \<and>
     usable_memory s = usable_memory s0 + card (free_set s) * PAGE_SIZE \<and>
     (\<forall>q. in_bounds s q \<longrightarrow> (page_managed s q \<longleftrightarrow> q \<in> free_set s))"
  using pmm_init_spec[OF assms] .

theorem pmm_init_correct_witness:
  "pmm_init demo_memmap HIGHER_HALF (\<lambda>_. 0xDEAD) demo_boot = Some demo_pmm \<and> pmm_inv demo_pmm \<and>
   usable_memory demo_pmm = 31 * 4096"
proof -
  have "usable_memory demo_boot = 0" "zone demo_boot = 0xFFFFFFFF80000000" by (simp_all add: demo_boot_def)
  then show ?thesis
    using pmm_init_correct[OF _ _ _ _ demo_init] demo_memmap_ok demo_init demo_pmm_spec(2)
    by (auto simp: HIGHER_HALF_def MAX_ORDER_def PAGE_SIZE_def)
qed

text \<open>
  C10. \<open>pmm_alloc_pages\<close> returns for every count up to \<open>2 ^ 63\<close> and keeps the invariant. If it
  returns an address, it is that of an aligned block of a power of two pages, at least \<open>count\<close> of them,
  all of which were free and no longer are, with reference count 1; no other page
  changes. If it returns \<open>NULL\<close>, nothing changes and every free list of a sufficient order is empty (for a
  single page: no page is free).
\<close>

theorem pmm_alloc_pages_correct:
  assumes "pmm_inv s" "0 < count" "count \<le> 2 ^ 63"
  shows "\<exists>k a s'. get_order count = Some k \<and> count \<le> 2 ^ k \<and> pmm_alloc_pages s count = Some (a, s') \<and> pmm_inv s' \<and>
    (if a = 0 then s' = s \<and> (\<forall>j. k \<le> j \<and> j < MAX_ORDER \<longrightarrow> list_empty (store s) (free_list s j)) \<and>
                   (count = 1 \<longrightarrow> free_set s = {})
     else \<exists>p. a = p * PAGE_SIZE \<and> 2 ^ k dvd p \<and> pages k p \<subseteq> free_set s \<and> free_set s' = free_set s - pages k p \<and>
            (\<forall>q. lowest_page s \<le> q \<longrightarrow> page_ref s' q = (if q \<in> pages k p then 1 else page_ref s q)))"
proof -
  obtain k where k: "get_order count = Some k" "count \<le> 2 ^ k" "k = 0 \<or> 2 ^ (k - 1) < count"
    using get_order_spec[OF assms(2,3)] by metis
  show ?thesis
  proof (cases "k < MAX_ORDER")
    case False
    then have "count \<noteq> 1" using k(3) by (auto simp: MAX_ORDER_def)
    moreover have "pmm_alloc_pages s count = Some (0, s)" using False k(1) assms(2) by (simp add: pmm_alloc_pages_def)
    ultimately show ?thesis using k assms(1) False by auto
  next
    case True
    from pmm_alloc_pages_spec[OF assms(1,2) k(1) True] show ?thesis
    proof (elim disjE exE conjE)
      fix p s'
      assume a: "pmm_alloc_pages s count = Some (p * PAGE_SIZE, s')" "block_allocated s k p s'"
        "\<forall>q. lowest_page s \<le> q \<longrightarrow> page_ref s' q = (if q \<in> pages k p then 1 else page_ref s q)"
      have "0 < p * PAGE_SIZE"
        using a(2) pmm_inv_geometry[OF assms(1)] by (auto simp: block_allocated_def block_ok_def pmm_geometry_def PAGE_SIZE_def)
      then show ?thesis using a k(1,2)
        by (intro exI[of _ k] exI[of _ "p * PAGE_SIZE"] exI[of _ s']) (auto simp: block_allocated_def block_ok_def)
    next
      assume n: "pmm_alloc_pages s count = Some (0, s)"
        "\<forall>L. pmm_core s L {} \<longrightarrow> (\<forall>j. k \<le> j \<and> j < MAX_ORDER \<longrightarrow> L j = [])"
      have "list_empty (store s) (free_list s j)" if "k \<le> j" "j < MAX_ORDER" for j
        using empty_lists[OF assms(1)] n(2) that by blast
      moreover have "free_set s = {}" if "count = 1"
        using no_free_page[OF assms(1)] n(2) k(3) that by auto
      ultimately show ?thesis using n(1) k(1,2) assms(1) by auto
    qed
  qed
qed

theorem pmm_alloc_pages_correct_witness:
  "\<exists>a s'. pmm_alloc_pages demo_pmm 1 = Some (a, s') \<and> a \<noteq> 0 \<and> pmm_inv s' \<and> card (free_set s') = 30"
proof -
  obtain k a s' where r: "get_order 1 = Some k" "pmm_alloc_pages demo_pmm 1 = Some (a, s')" "pmm_inv s'"
    and null: "a = 0 \<longrightarrow> free_set demo_pmm = {}"
    and got: "a \<noteq> 0 \<longrightarrow> (\<exists>p. pages k p \<subseteq> free_set demo_pmm \<and> free_set s' = free_set demo_pmm - pages k p)"
    using pmm_alloc_pages_correct[OF demo_pmm_spec(1), of 1] by (metis one_le_numeral one_le_power zero_less_one)
  have k: "k = 0" using r(1) by (simp add: get_order_def get_order_loop.simps)
  have a: "a \<noteq> 0" using null demo_pmm_spec(2) by auto
  then obtain p where "pages k p \<subseteq> {257..<288}" "free_set s' = {257..<288} - pages k p" using got demo_pmm_spec(2) by auto
  then have "card (free_set s') = 30" by (simp add: card_Diff_subset k)
  then show ?thesis using r a by blast
qed

text \<open>
  C11. \<open>pmm_alloc_pages_range\<close> hands out, for every count up to \<open>2 ^ 63\<close>, only a block of free pages between the
  two physical bounds, and changes nothing when it returns \<open>NULL\<close>.
\<close>

theorem pmm_alloc_pages_range_correct:
  assumes "pmm_inv s" "0 < count" "count \<le> 2 ^ 63"
  shows "\<exists>k a s'. get_order count = Some k \<and> pmm_alloc_pages_range s count lo hi = Some (a, s') \<and> pmm_inv s' \<and>
    (if a = 0 then s' = s
     else \<exists>p. a = p * PAGE_SIZE \<and> pages k p \<subseteq> free_set s \<and> free_set s' = free_set s - pages k p \<and>
            lo \<le> a \<and> a + count * PAGE_SIZE \<le> hi)"
proof -
  obtain k where k: "get_order count = Some k" "count \<le> 2 ^ k" using get_order_spec[OF assms(2,3)] by metis
  let ?fits = "\<lambda>phys block_end. phys \<ge> lo \<and> block_end \<le> hi"
  show ?thesis
  proof (cases "k < MAX_ORDER")
    case False
    then show ?thesis using k assms by (auto simp: pmm_alloc_pages_range_def)
  next
    case True
    then have eq: "pmm_alloc_pages_range s count lo hi = alloc_fitting ?fits s k k"
      using k assms by (simp add: pmm_alloc_pages_range_def)
    from alloc_fitting_spec[OF assms(1) order_refl[of k], of ?fits] show ?thesis
    proof (elim disjE exE conjE)
      fix p j s' assume a: "alloc_fitting ?fits s k k = Some (p * PAGE_SIZE, s')" "block_allocated s k p s'"
        "k \<le> j" "p * PAGE_SIZE \<ge> lo" "(p + 2 ^ j) * PAGE_SIZE \<le> hi"
      have "count \<le> 2 ^ j" using k(2) a(3) by (meson le_trans one_le_numeral power_increasing)
      then have "p * PAGE_SIZE + count * PAGE_SIZE \<le> (p + 2 ^ j) * PAGE_SIZE" by (simp add: add_mult_distrib PAGE_SIZE_def)
      then show ?thesis using a k(1) eq pmm_inv_geometry[OF assms(1)]
        by (intro exI[of _ k] exI[of _ "p * PAGE_SIZE"] exI[of _ s'])
          (auto simp: block_allocated_def block_ok_def pmm_geometry_def PAGE_SIZE_def)
    qed (use eq k(1) assms(1) in auto)
  qed
qed

theorem pmm_alloc_pages_range_correct_witness:
  "\<exists>a s'. pmm_alloc_pages_range demo_pmm 4 0x110000 0x118000 = Some (a, s') \<and> pmm_inv s' \<and>
     (a = 0 \<or> 0x110000 \<le> a \<and> a + 4 * 4096 \<le> 0x118000)"
proof -
  obtain a s' where "pmm_alloc_pages_range demo_pmm 4 0x110000 0x118000 = Some (a, s')" "pmm_inv s'"
    "if a = 0 then s' = demo_pmm else 0x110000 \<le> a \<and> a + 4 * PAGE_SIZE \<le> 0x118000"
    using pmm_alloc_pages_range_correct[OF demo_pmm_spec(1), of 4 "0x110000" "0x118000"] by (auto split: if_splits)
  then show ?thesis by (auto simp: PAGE_SIZE_def split: if_splits)
qed

text \<open>
  C12. \<open>pmm_free_pages\<close> of an aligned block of used, managed pages keeps the invariant, decrements the
  reference count of each page, and makes the whole block free exactly when the count of its first page
  was at most 1; no other page changes.
\<close>

theorem pmm_free_pages_correct:
  assumes "pmm_inv s" "0 < count" "get_order count = Some k" "k < MAX_ORDER" "block_ok s k p"
    and "\<forall>q\<in>pages k p. page_used s q \<and> page_managed s q"
  shows "\<exists>s'. pmm_free_pages s (p * PAGE_SIZE) count = Some s' \<and> pmm_inv s' \<and>
    free_set s' = (if page_ref s p \<le> 1 then free_set s \<union> pages k p else free_set s) \<and>
    (\<forall>q. in_bounds s q \<longrightarrow> page_ref s' q = (if q \<in> pages k p then dec_ref (page_ref s q) else page_ref s q)) \<and>
    page_managed s' = page_managed s"
  using pmm_free_pages_spec[OF assms] by metis

theorem pmm_free_pages_correct_witness:
  "\<exists>a s1 s2. pmm_alloc_pages demo_pmm 1 = Some (a, s1) \<and> pmm_free_pages s1 a 1 = Some s2 \<and>
     pmm_inv s2 \<and> free_set s2 = free_set demo_pmm"
proof -
  have k: "get_order 1 = Some 0" by (simp add: get_order_def get_order_loop.simps)
  obtain p s1 where a: "pmm_alloc_pages demo_pmm 1 = Some (p * PAGE_SIZE, s1)" "block_allocated demo_pmm 0 p s1"
    "page_ref s1 p = 1"
    using one_page_alloc[OF demo_pmm_spec(1)] demo_pmm_spec(2) by auto
  have u: "\<forall>q\<in>pages 0 p. page_used s1 q \<and> page_managed s1 q" "block_ok s1 0 p" "pmm_inv s1"
    using allocated_used[OF a(2)] a(2) by (auto simp: block_allocated_def block_ok_def)
  from pmm_free_pages_correct[OF u(3) _ k _ u(2,1)] obtain s2 where
    "pmm_free_pages s1 (p * PAGE_SIZE) 1 = Some s2" "pmm_inv s2" "free_set s2 = free_set s1 \<union> pages 0 p"
    using a(3) by (auto simp: MAX_ORDER_def)
  then show ?thesis using a(1,2) by (auto simp: block_allocated_def)
qed

text \<open>
  C13. Taking a reference to a managed, used page adds one to its count; dropping a reference
  subtracts one unless the count is 0 already, and makes the page free exactly when it held the last one. Both
  keep the invariant and touch no other page.
\<close>

theorem pmm_refcount_correct:
  assumes "pmm_inv s" "in_bounds s p" "page_managed s p" "page_used s p" "r < PAGE_SIZE"
  shows "pmm_inv (pmm_incref s (p * PAGE_SIZE + r)) \<and> free_set (pmm_incref s (p * PAGE_SIZE + r)) = free_set s \<and>
    pmm_inv (pmm_decref s (p * PAGE_SIZE + r)) \<and>
    free_set (pmm_decref s (p * PAGE_SIZE + r)) = (if page_ref s p = 1 then free_set s \<union> {p} else free_set s) \<and>
    (\<forall>x. in_bounds s x \<longrightarrow>
       page_ref (pmm_incref s (p * PAGE_SIZE + r)) x = (if x = p then page_ref s p + 1 else page_ref s x) \<and>
       page_ref (pmm_decref s (p * PAGE_SIZE + r)) x = (if x = p then dec_ref (page_ref s p) else page_ref s x))"
  using pmm_incref_spec[OF assms(1-3,5)] pmm_decref_spec[OF assms] by blast

theorem pmm_refcount_correct_witness:
  "\<exists>a s1. pmm_alloc_pages demo_pmm 1 = Some (a, s1) \<and> free_set (pmm_decref s1 a) = free_set demo_pmm \<and>
     free_set (pmm_incref s1 a) = free_set s1"
proof -
  obtain p s1 where a: "pmm_alloc_pages demo_pmm 1 = Some (p * PAGE_SIZE, s1)" "block_allocated demo_pmm 0 p s1"
    "page_ref s1 p = 1"
    using one_page_alloc[OF demo_pmm_spec(1)] demo_pmm_spec(2) by auto
  have p0: "p \<in> pages 0 p" "pages 0 p = {p}" by (auto simp: pages_def)
  have ib: "in_bounds s1 p" using a(2) by (auto simp: block_allocated_def block_ok_def in_bounds_def)
  have i1: "pmm_inv s1" "free_set s1 = free_set demo_pmm - {p}" "p \<in> free_set demo_pmm"
    using a(2) p0 by (auto simp: block_allocated_def)
  have "free_set (pmm_decref s1 (p * PAGE_SIZE + 0)) = free_set s1 \<union> {p}"
    "free_set (pmm_incref s1 (p * PAGE_SIZE + 0)) = free_set s1"
    using pmm_refcount_correct[OF i1(1) ib _ _, of 0] allocated_used[OF a(2) p0(1)] a(3) by (simp_all add: PAGE_SIZE_def)
  then show ?thesis using a(1) i1(2,3) by auto
qed

text \<open>
  C14. \<open>pmm_get_free_pages\<close> walks the free lists to their ends and returns the number of free pages.
\<close>

theorem pmm_get_free_pages_correct:
  assumes "pmm_inv s"
  shows "pmm_get_free_pages s = Some (card (free_set s))"
  using pmm_get_free_pages_spec[OF assms] .

theorem pmm_get_free_pages_correct_witness: "pmm_get_free_pages demo_pmm = Some 31"
  using pmm_get_free_pages_correct[OF demo_pmm_spec(1)] demo_pmm_spec(2) by simp


definition reclaim_demo :: pmm_state where
  "reclaim_demo = demo_pmm\<lparr>internal_memmap := Some demo_memmap, bitmap_size := 36\<rparr>"

lemma reclaim_demo_spec: "pmm_inv reclaim_demo" "free_set reclaim_demo = {257..<288}"
  "internal_memmap reclaim_demo = Some demo_memmap" "bitmap_size reclaim_demo = 36"
  "lowest_page reclaim_demo = 1" "highest_page reclaim_demo = 288"
proof -
  obtain L where "pmm_core demo_pmm L {}" using demo_pmm_spec(1) by (auto simp: pmm_inv_def)
  then have "pmm_core reclaim_demo L {}" unfolding reclaim_demo_def by (rule core_frame) simp_all
  then show "pmm_inv reclaim_demo" by (auto simp: pmm_inv_def)
  show "free_set reclaim_demo = {257..<288}"
    using demo_pmm_spec(2) by (simp add: reclaim_demo_def free_set_def in_bounds_def page_used_def)
qed (simp_all add: reclaim_demo_def demo_bounds)


end
