(* ===== verification/Page_Allocator.thy ===== *)
theory Page_Allocator
  imports Pmm_Props
begin

text \<open>
  What the clients of the physical page allocator rely on, as an interface: single pages
  are handed out from the free ones and come back to them. The page allocator of
  \<^verbatim>\<open>kernel/src/mm/pmm.c\<close> provides it.
\<close>

section \<open>The interface\<close>

locale page_allocator =
  fixes inv :: "'s \<Rightarrow> bool"
    and free :: "'s \<Rightarrow> nat set"
    and alloc :: "'s \<Rightarrow> (nat \<times> 's) option"
    and release :: "'s \<Rightarrow> nat \<Rightarrow> 's"
  assumes alloc_returns: "inv s \<Longrightarrow> \<exists>a s'. alloc s = Some (a, s')"
    and alloc_inv: "inv s \<Longrightarrow> alloc s = Some (a, s') \<Longrightarrow> inv s'"
    and alloc_fails: "inv s \<Longrightarrow> alloc s = Some (0, s') \<Longrightarrow> s' = s \<and> free s = {}"
    and alloc_gives: "inv s \<Longrightarrow> alloc s = Some (a, s') \<Longrightarrow> a \<noteq> 0 \<Longrightarrow>
          4096 dvd a \<and> a div 4096 \<in> free s \<and> free s' = free s - {a div 4096}"
    and release_inv: "inv s \<Longrightarrow> a div 4096 \<notin> free s \<Longrightarrow> inv (release s a)"
    and release_gives: "inv s \<Longrightarrow> a div 4096 \<notin> free s \<Longrightarrow>
          free s \<subseteq> free (release s a) \<and> free (release s a) \<subseteq> insert (a div 4096) (free s)"
    and free_bounds: "inv s \<Longrightarrow> p \<in> free s \<Longrightarrow> 0 < p \<and> p < 2 ^ 40"
begin

lemma alloc_bound:
  assumes "inv s" "alloc s = Some (a, s')" "a \<noteq> 0" shows "a < 2 ^ 52"
proof -
  note g = alloc_gives[OF assms]
  then obtain k where "a = 4096 * k" by (elim conjE dvdE)
  then show ?thesis using free_bounds[OF assms(1), of k] g by simp
qed

lemma alloc_cases:
  assumes "inv s"
  obtains (fail) "alloc s = Some (0, s)" "free s = {}"
  | (page) a s' where "alloc s = Some (a, s')" "a \<noteq> 0" "inv s'" "4096 dvd a" "a div 4096 \<in> free s"
      "a < 2 ^ 52" "free s' = free s - {a div 4096}"
proof -
  obtain a s' where a: "alloc s = Some (a, s')" using alloc_returns[OF assms] by blast
  show thesis
  proof (cases "a = 0")
    case True
    then show thesis using fail alloc_fails[OF assms] a by simp
  next
    case False
    then show thesis
      using page[OF a False alloc_inv[OF assms a]] alloc_gives[OF assms a False] alloc_bound[OF assms a False]
      by blast
  qed
qed

text \<open>Pages a client owns are never handed out again before it releases them.\<close>

lemma owned_alloc:
  assumes "inv s" "alloc s = Some (a, s')" "X \<inter> free s = {}"
  shows "X \<inter> free s' = {}" "a \<noteq> 0 \<Longrightarrow> a div 4096 \<notin> X" "a \<noteq> 0 \<Longrightarrow> insert (a div 4096) X \<inter> free s' = {}"
  using alloc_gives[OF assms(1,2)] alloc_fails[OF assms(1), of s'] assms by (cases "a = 0"; auto)+

lemma owned_release:
  assumes "inv s" "X \<inter> free s = {}" "a div 4096 \<in> X"
  shows "inv (release s a)" "(X - {a div 4096}) \<inter> free (release s a) = {}"
proof -
  have "a div 4096 \<notin> free s" using assms by auto
  then show "inv (release s a)" "(X - {a div 4096}) \<inter> free (release s a) = {}"
    using release_inv[OF assms(1)] release_gives[OF assms(1)] assms(2) by blast+
qed

end

section \<open>The provider\<close>

lemma get_order_1: "get_order 1 = Some 0"
  by (simp add: get_order_def get_order_loop.simps)

lemma pages_0: "pages 0 p = {p}"
  by (auto simp: pages_def)

lemma pmm_alloc_page_cases:
  assumes "pmm_inv s"
  shows "(\<exists>p s'. pmm_alloc_page s = Some (p * PAGE_SIZE, s') \<and> pmm_inv s' \<and> p \<in> free_set s \<and> page_managed s p \<and>
            free_set s' = free_set s - {p} \<and> page_managed s' = page_managed s \<and>
            lowest_page s' = lowest_page s \<and> highest_page s' = highest_page s \<and>
            (\<forall>q. lowest_page s \<le> q \<longrightarrow> page_ref s' q = (if q = p then 1 else page_ref s q))) \<or>
         (pmm_alloc_page s = Some (0, s) \<and> free_set s = {})"
proof -
  from pmm_alloc_pages_spec[OF assms _ get_order_1] consider
    (page) p s' where "pmm_alloc_page s = Some (p * PAGE_SIZE, s')" "block_allocated s 0 p s'"
      "\<forall>q. lowest_page s \<le> q \<longrightarrow> page_ref s' q = (if q \<in> pages 0 p then 1 else page_ref s q)"
  | (none) "pmm_alloc_page s = Some (0, s)"
      "\<forall>L. pmm_core s L {} \<longrightarrow> (\<forall>j. 0 \<le> j \<and> j < MAX_ORDER \<longrightarrow> L j = [])"
    by (auto simp: pmm_alloc_page_def MAX_ORDER_def)
  then show ?thesis
  proof cases
    case page
    then show ?thesis by (auto simp: block_allocated_def pages_0)
  next
    case none
    then show ?thesis using no_free_page[OF assms] by blast
  qed
qed

lemma pmm_free_bounds:
  assumes "pmm_inv s" "p \<in> free_set s"
  shows "0 < p \<and> p < 2 ^ 40"
  using pmm_inv_geometry[OF assms(1)] assms(2)
  by (auto simp: pmm_geometry_def free_set_def in_bounds_def HIGHER_HALF_def PAGE_SIZE_def MAX_ORDER_def)

text \<open>Releasing any page that is not free: it is freed with its last reference, if it is managed.\<close>

lemma pmm_free_page_cases:
  assumes "pmm_inv s" "a div 4096 \<notin> free_set s"
  shows "pmm_inv (pmm_free_page s a) \<and>
    (free_set (pmm_free_page s a) = free_set s \<or> free_set (pmm_free_page s a) = insert (a div 4096) (free_set s))"
proof (cases "a = 0 \<or> \<not> pmm_is_managed s a")
  case True
  then have "pmm_free_page s a = s" by (auto simp: pmm_free_page_def pmm_decref_def)
  then show ?thesis using assms(1) by simp
next
  case False
  let ?p = "a div 4096"
  have a: "a = ?p * PAGE_SIZE + a mod PAGE_SIZE" by (simp add: PAGE_SIZE_def)
  have b: "in_bounds s ?p" using False by (auto simp: pmm_is_managed_def Let_def in_bounds_def PAGE_SIZE_def split: if_splits)
  have r: "a mod PAGE_SIZE < PAGE_SIZE" by (simp add: PAGE_SIZE_def)
  have m: "page_managed s ?p" using pmm_is_managed_page[OF pmm_inv_geometry[OF assms(1)] b r] False a by simp
  have u: "page_used s ?p" using b assms(2) by (simp add: free_set_def)
  show ?thesis
    using pmm_decref_spec(1,2)[OF assms(1) b m u r] a by (simp add: pmm_free_page_def)
qed

interpretation pa: page_allocator pmm_inv free_set pmm_alloc_page pmm_free_page
proof
  fix s :: pmm_state and a s' p
  assume i: "pmm_inv s"
  show "\<exists>a s'. pmm_alloc_page s = Some (a, s')" using pmm_alloc_page_cases[OF i] by blast
  show "p \<in> free_set s \<Longrightarrow> 0 < p \<and> p < 2 ^ 40" by (rule pmm_free_bounds[OF i])
  show "pmm_inv (pmm_free_page s a)" if "a div 4096 \<notin> free_set s" using pmm_free_page_cases[OF i that] by blast
  show "free_set s \<subseteq> free_set (pmm_free_page s a) \<and>
      free_set (pmm_free_page s a) \<subseteq> insert (a div 4096) (free_set s)" if "a div 4096 \<notin> free_set s"
    using pmm_free_page_cases[OF i that] by blast
  have pos: "0 < p" if "p \<in> free_set s" for p using pmm_free_bounds[OF i that] by simp
  show "pmm_inv s'" if "pmm_alloc_page s = Some (a, s')" using pmm_alloc_page_cases[OF i] i that by auto
  show "s' = s \<and> free_set s = {}" if "pmm_alloc_page s = Some (0, s')"
    using pmm_alloc_page_cases[OF i] that pos by (auto simp: PAGE_SIZE_def)
  show "4096 dvd a \<and> a div 4096 \<in> free_set s \<and> free_set s' = free_set s - {a div 4096}"
    if "pmm_alloc_page s = Some (a, s')" "a \<noteq> 0"
    using pmm_alloc_page_cases[OF i] that by (auto simp: PAGE_SIZE_def)
qed

section \<open>Owned pages\<close>

text \<open>
  A page a client owns alone: managed, in use, with one reference. Operations that only take
  free pages keep it, and releasing it makes exactly it free again.
\<close>

definition pmm_keeps :: "pmm_state \<Rightarrow> pmm_state \<Rightarrow> bool" where
  "pmm_keeps q q' \<longleftrightarrow>
     page_managed q' = page_managed q \<and> lowest_page q' = lowest_page q \<and> highest_page q' = highest_page q \<and>
     free_set q' \<subseteq> free_set q \<and> (\<forall>x. in_bounds q x \<and> x \<notin> free_set q \<longrightarrow> page_ref q' x = page_ref q x)"

definition owned_page :: "pmm_state \<Rightarrow> nat \<Rightarrow> bool" where
  "owned_page q p \<longleftrightarrow> in_bounds q p \<and> page_managed q p \<and> p \<notin> free_set q \<and> page_ref q p = 1"

lemma pmm_keeps_refl: "pmm_keeps q q"
  by (simp add: pmm_keeps_def)

lemma pmm_keeps_trans:
  assumes "pmm_keeps q1 q2" "pmm_keeps q2 q3" shows "pmm_keeps q1 q3"
  using assms unfolding pmm_keeps_def in_bounds_def by (metis subsetD subset_trans)

lemma pmm_keeps_owned: "pmm_keeps q q' \<Longrightarrow> owned_page q p \<Longrightarrow> owned_page q' p"
  unfolding pmm_keeps_def owned_page_def in_bounds_def by auto

lemma pmm_alloc_page_keeps:
  assumes "pmm_inv q" "pmm_alloc_page q = Some (a, q')"
  shows "pmm_keeps q q'" "a \<noteq> 0 \<Longrightarrow> owned_page q' (a div 4096)"
proof -
  show "pmm_keeps q q'"
    using pmm_alloc_page_cases[OF assms(1)] assms(2) by (auto simp: pmm_keeps_def in_bounds_def)
  assume a: "a \<noteq> 0"
  then obtain p where p: "a = p * PAGE_SIZE" "p \<in> free_set q" "page_managed q' p" "free_set q' = free_set q - {p}"
    "lowest_page q' = lowest_page q" "highest_page q' = highest_page q" "\<forall>x. lowest_page q \<le> x \<longrightarrow> page_ref q' x = (if x = p then 1 else page_ref q x)"
    using pmm_alloc_page_cases[OF assms(1)] assms(2) by auto
  have "in_bounds q p" using p(2) by (simp add: free_set_def)
  then show "owned_page q' (a div 4096)"
    using p by (simp add: owned_page_def in_bounds_def PAGE_SIZE_def)
qed

lemma pmm_free_owned:
  assumes "pmm_inv q" "owned_page q (a div 4096)"
  shows "pmm_inv (pmm_free_page q a)" "free_set (pmm_free_page q a) = insert (a div 4096) (free_set q)"
    "owned_page q p \<Longrightarrow> p \<noteq> a div 4096 \<Longrightarrow> owned_page (pmm_free_page q a) p"
proof -
  let ?p = "a div 4096"
  have a: "a = ?p * PAGE_SIZE + a mod PAGE_SIZE" and r: "a mod PAGE_SIZE < PAGE_SIZE" by (simp_all add: PAGE_SIZE_def)
  have o: "in_bounds q ?p" "page_managed q ?p" "page_used q ?p" "page_ref q ?p = 1"
    using assms(2) by (auto simp: owned_page_def free_set_def)
  note d = pmm_decref_spec[OF assms(1) o(1-3) r, folded a]
  show "pmm_inv (pmm_free_page q a)" "free_set (pmm_free_page q a) = insert ?p (free_set q)"
    using d(1,2) o(4) by (simp_all add: pmm_free_page_def)
  show "owned_page (pmm_free_page q a) p" if "owned_page q p" "p \<noteq> ?p"
    using that d o(4) by (auto simp: owned_page_def pmm_free_page_def in_bounds_def)
qed

end
