(* ===== verification/Vmm_Correct.thy ===== *)
theory Vmm_Correct
  imports Vmm_Tables Page_Allocator
begin

text \<open>
  Mapping, unmapping and translation: the operations on the page tables of one address
  space act on its map from pages to entries as function updates, and the tables stay
  well formed and apart from the free pages.
\<close>

unbundle bit_operations_syntax

section \<open>Entries\<close>

lemma has_flag_bit:
  "has_flag e PAGE_FLAG_PRESENT \<longleftrightarrow> bit e 0" "has_flag e PAGE_FLAG_RW \<longleftrightarrow> bit e 1"
  "has_flag e PAGE_FLAG_USER \<longleftrightarrow> bit e 2" "has_flag e PAGE_FLAG_PS \<longleftrightarrow> bit e 7"
  "has_flag e PAGE_FLAG_COW \<longleftrightarrow> bit e 9" "has_flag e PAGE_FLAG_NX \<longleftrightarrow> bit e 63"
proof -
  have "has_flag e (push_bit n 1) \<longleftrightarrow> bit e n" for n
    by (simp add: has_flag_def bit_iff_and_push_bit_not_eq_0)
  from this[of 0] this[of 1] this[of 2] this[of 7] this[of 9] this[of 63]
  show "has_flag e PAGE_FLAG_PRESENT \<longleftrightarrow> bit e 0" "has_flag e PAGE_FLAG_RW \<longleftrightarrow> bit e 1"
    "has_flag e PAGE_FLAG_USER \<longleftrightarrow> bit e 2" "has_flag e PAGE_FLAG_PS \<longleftrightarrow> bit e 7"
    "has_flag e PAGE_FLAG_COW \<longleftrightarrow> bit e 9" "has_flag e PAGE_FLAG_NX \<longleftrightarrow> bit e 63"
    by (simp_all add: PAGE_FLAG_PRESENT_def PAGE_FLAG_RW_def PAGE_FLAG_USER_def PAGE_FLAG_PS_def
        PAGE_FLAG_COW_def PAGE_FLAG_NX_def push_bit_eq_mult)
qed

lemma PAGE_MASK_bits: "bit PAGE_MASK n \<longleftrightarrow> 12 \<le> n \<and> n < 52"
proof -
  have e: "PAGE_MASK = push_bit 12 (mask 40)" by (simp add: PAGE_MASK_def push_bit_eq_mult mask_eq_exp_minus_1)
  show ?thesis unfolding e by (auto simp: bit_simps)
qed

lemma page_bits:
  assumes "4096 dvd p" "p < 2 ^ 52" and b: "bit (p :: nat) n"
  shows "12 \<le> n" "n < 52"
proof -
  obtain k where "p = push_bit 12 k" using assms(1) by (auto simp: push_bit_eq_mult elim: dvdE)
  then show "12 \<le> n" using b by (simp add: bit_simps)
  show "n < 52"
  proof (rule ccontr)
    assume "\<not> n < 52"
    then have "(2::nat) ^ 52 \<le> 2 ^ n" by (intro power_increasing) auto
    then have "p div 2 ^ n = 0" using assms(2) by simp
    then show False using b by (simp add: bit_iff_odd)
  qed
qed

lemma page_mask: "4096 dvd p \<Longrightarrow> p < 2 ^ 52 \<Longrightarrow> of_nat p AND PAGE_MASK = (of_nat p :: u64)"
  by (rule bit_word_eqI) (use page_bits[of p] in \<open>auto simp: bit_simps PAGE_MASK_bits\<close>)


lemma page_entry:
  assumes "4096 dvd p" "p < 2 ^ 52" "\<And>n. bit f n \<Longrightarrow> n < 12 \<or> 52 \<le> n"
  shows "entry_phys (of_nat p OR f) = p"
proof -
  have "(of_nat p OR f) AND PAGE_MASK = (of_nat p :: u64)"
    by (rule bit_word_eqI)
      (use page_bits[OF assms(1,2)] assms(3) in \<open>fastforce simp: bit_simps PAGE_MASK_bits\<close>)
  then show ?thesis using assms(2) by (simp add: entry_phys_def unsigned_of_nat take_bit_eq_mod)
qed

lemma table_link_entry:
  assumes "4096 dvd p" "p < 2 ^ 52"
  shows "is_table (of_nat p OR PAGE_FLAG_PRESENT OR PAGE_FLAG_RW OR PAGE_FLAG_USER)"
    "entry_phys (of_nat p OR PAGE_FLAG_PRESENT OR PAGE_FLAG_RW OR PAGE_FLAG_USER) = p"
proof -
  have f: "PAGE_FLAG_PRESENT OR PAGE_FLAG_RW OR PAGE_FLAG_USER = mask 3"
    by (simp add: PAGE_FLAG_PRESENT_def PAGE_FLAG_RW_def PAGE_FLAG_USER_def mask_eq_exp_minus_1)
  show "is_table (of_nat p OR PAGE_FLAG_PRESENT OR PAGE_FLAG_RW OR PAGE_FLAG_USER)"
    unfolding f is_table_def has_flag_bit using page_bits(1)[OF assms, of 7] by (auto simp: bit_simps)
  show "entry_phys (of_nat p OR PAGE_FLAG_PRESENT OR PAGE_FLAG_RW OR PAGE_FLAG_USER) = p"
    unfolding f by (rule page_entry[OF assms]) (simp add: bit_simps)
qed

lemma table_propagate_entry:
  assumes "is_table e" "\<And>n. bit f n \<Longrightarrow> n = 1 \<or> n = 2"
  shows "is_table (e OR f)" "entry_phys (e OR f) = entry_phys e"
proof -
  show "is_table (e OR f)" using assms(1) assms(2)[of 7] by (auto simp: is_table_def has_flag_bit bit_simps)
  have "(e OR f) AND PAGE_MASK = e AND PAGE_MASK"
    using assms(2) by (intro bit_word_eqI) (fastforce simp: bit_simps PAGE_MASK_bits)
  then show "entry_phys (e OR f) = entry_phys e" by (simp add: entry_phys_def)
qed

lemma propagate_bits: "bit (flags AND (PAGE_FLAG_USER OR PAGE_FLAG_RW)) n \<Longrightarrow> n = 1 \<or> n = 2"
proof -
  have e: "PAGE_FLAG_USER OR PAGE_FLAG_RW = push_bit 1 (mask 2)"
    by (simp add: PAGE_FLAG_USER_def PAGE_FLAG_RW_def push_bit_eq_mult mask_eq_exp_minus_1)
  show "bit (flags AND (PAGE_FLAG_USER OR PAGE_FLAG_RW)) n \<Longrightarrow> n = 1 \<or> n = 2"
    unfolding e bit_and_iff bit_push_bit_iff bit_mask_iff by arith
qed

section \<open>Words of a page\<close>

definition words :: "nat \<Rightarrow> nat set" where
  "words t = {t + 8 * i |i. i < 512}"

lemma words_disjoint: "4096 dvd t \<Longrightarrow> 4096 dvd u \<Longrightarrow> t \<noteq> u \<Longrightarrow> words t \<inter> words u = {}"
  unfolding words_def using entry_addr_inj by blast

lemma clear_words_mem:
  "mem (clear_words t lo hi s) a = (if \<exists>i. lo \<le> i \<and> i < hi \<and> a = t + 8 * i then 0 else mem s a)"
proof (induction hi)
  case (Suc hi)
  show ?case
  proof (cases "lo \<le> hi")
    case True
    have "mem (clear_words t lo (Suc hi) s) a = (if a = t + 8 * hi then 0 else mem (clear_words t lo hi s) a)"
      using True by (simp add: clear_words_def wr_def)
    then show ?thesis using Suc True by (auto simp: less_Suc_eq)
  qed (auto simp: clear_words_def)
qed (simp add: clear_words_def)

lemma clear_words_fields [simp]:
  "pmm (clear_words t lo hi s) = pmm s" "cr3 (clear_words t lo hi s) = cr3 s"
  "kernel_pml4 (clear_words t lo hi s) = kernel_pml4 s"
  "current_thread (clear_words t lo hi s) = current_thread s"
  "tlb_flushes (clear_words t lo hi s) = tlb_flushes s"
  "exit_events (clear_words t lo hi s) = exit_events s"
  by (induction hi; simp add: clear_words_def wr_def)+

lemma wr_fields [simp]:
  "pmm (wr t i v s) = pmm s" "cr3 (wr t i v s) = cr3 s" "kernel_pml4 (wr t i v s) = kernel_pml4 s"
  "current_thread (wr t i v s) = current_thread s" "tlb_flushes (wr t i v s) = tlb_flushes s"
  "exit_events (wr t i v s) = exit_events s" "mem (wr t i v s) = (mem s)(t + 8 * i := v)"
  by (simp_all add: wr_def)

lemma flush_fields [simp]:
  "pmm (vmm_flush_tlb va s) = pmm s" "mem (vmm_flush_tlb va s) = mem s" "cr3 (vmm_flush_tlb va s) = cr3 s"
  "current_thread (vmm_flush_tlb va s) = current_thread s" "kernel_pml4 (vmm_flush_tlb va s) = kernel_pml4 s"
  "exit_events (vmm_flush_tlb va s) = exit_events s" "tlb_flushes (vmm_flush_tlb va s) = tlb_flushes s @ [va]"
  by (simp_all add: vmm_flush_tlb_def)

section \<open>Well-formed address spaces\<close>

definition table_pages :: "vmm_state \<Rightarrow> nat \<Rightarrow> nat set" where
  "table_pages s t = (\<lambda>u. u div 4096) ` page_tables (mem s) t"

definition vmm_ok :: "vmm_state \<Rightarrow> nat \<Rightarrow> bool" where
  "vmm_ok s t \<longleftrightarrow>
     pmm_inv (pmm s) \<and> pt_wf (mem s) t \<and> table_pages s t \<inter> free_set (pmm s) = {}"

text \<open>What a step of an operation on the tables at \<open>t\<close> may change besides the tables.\<close>

definition table_step :: "nat \<Rightarrow> vmm_state \<Rightarrow> vmm_state \<Rightarrow> bool" where
  "table_step t s s' \<longleftrightarrow>
     page_tables (mem s) t \<subseteq> page_tables (mem s') t \<and>
     (\<forall>x\<in>page_tables (mem s') t. x \<in> page_tables (mem s) t \<or> x div 4096 \<in> free_set (pmm s)) \<and>
     pmm_keeps (pmm s) (pmm s') \<and>
     (\<forall>x. 4096 dvd x \<and> x \<notin> page_tables (mem s') t \<longrightarrow> (\<forall>a\<in>words x. mem s' a = mem s a)) \<and>
     (\<forall>q. vpath 3 q \<and> tab (mem s) t q \<noteq> None \<longrightarrow> tab (mem s') t q = tab (mem s) t q) \<and>
     cr3 s' = cr3 s \<and> kernel_pml4 s' = kernel_pml4 s \<and> current_thread s' = current_thread s \<and>
     exit_events s' = exit_events s"

lemma table_step_refl: "table_step t s s"
  by (simp add: table_step_def pmm_keeps_refl)

lemma table_stepD:
  assumes "table_step t s s'"
  shows "page_tables (mem s) t \<subseteq> page_tables (mem s') t"
    "x \<in> page_tables (mem s') t \<Longrightarrow> x \<in> page_tables (mem s) t \<or> x div 4096 \<in> free_set (pmm s)"
    "free_set (pmm s') \<subseteq> free_set (pmm s)"
    "4096 dvd x \<Longrightarrow> x \<notin> page_tables (mem s') t \<Longrightarrow> a \<in> words x \<Longrightarrow> mem s' a = mem s a"
    "pmm_keeps (pmm s) (pmm s')"
  using assms by (simp_all add: table_step_def pmm_keeps_def)

lemma table_step_trans:
  assumes "table_step t s1 s2" "table_step t s2 s3" shows "table_step t s1 s3"
proof -
  have "mem s3 a = mem s1 a" if "4096 dvd x" "x \<notin> page_tables (mem s3) t" "a \<in> words x" for x a
    using assms that unfolding table_step_def by (metis subsetD)
  moreover have "tab (mem s3) t q = tab (mem s1) t q" if "vpath 3 q" "tab (mem s1) t q \<noteq> None" for q
    using assms that unfolding table_step_def by metis
  moreover have "x \<in> page_tables (mem s1) t \<or> x div 4096 \<in> free_set (pmm s1)"
    if "x \<in> page_tables (mem s3) t" for x
    using table_stepD(2)[OF assms(2) that] table_stepD(2)[OF assms(1)] table_stepD(3)[OF assms(1)] by blast
  moreover have "page_tables (mem s1) t \<subseteq> page_tables (mem s3) t" "pmm_keeps (pmm s1) (pmm s3)"
    using table_stepD(1)[OF assms(1)] table_stepD(1)[OF assms(2)]
      pmm_keeps_trans[OF table_stepD(5)[OF assms(1)] table_stepD(5)[OF assms(2)]] by (simp_all add: subset_trans)
  ultimately show ?thesis using assms unfolding table_step_def by (intro conjI allI impI ballI; elim conjE; simp)
qed

definition no_huge :: "(nat \<Rightarrow> u64) \<Rightarrow> nat \<Rightarrow> nat list \<Rightarrow> bool" where
  "no_huge m t q \<longleftrightarrow> (\<forall>l e. aspace m t q = Some (l, e) \<longrightarrow> l = 0)"

lemma no_huge_table:
  assumes "no_huge m t (p @ i # r)" "r \<noteq> []" "tab m t p = Some u" "has_flag (m (u + 8 * i)) PAGE_FLAG_PRESENT"
  shows "is_table (m (u + 8 * i))"
proof (rule ccontr)
  assume n: "\<not> is_table (m (u + 8 * i))"
  have "walk m t (p @ i # r) = (length r, m (u + 8 * i))"
    using walk_append[OF _ assms(3), of "i # r"] n assms(2) by (cases r) auto
  then show False using assms by (simp add: no_huge_def aspace_def)
qed


section \<open>Mapping\<close>

text \<open>The result of one level of the walk that creates tables.\<close>

definition level_done :: "nat \<Rightarrow> vmm_state \<Rightarrow> nat list \<Rightarrow> nat \<Rightarrow> vmm_state \<Rightarrow> bool" where
  "level_done t s p w s' \<longleftrightarrow>
     vmm_ok s' t \<and> table_step t s s' \<and> tab (mem s') t p = Some w \<and> tlb_flushes s' = tlb_flushes s \<and>
     (\<forall>q. vpath 4 q \<and> length q = 4 \<longrightarrow> aspace (mem s') t q = aspace (mem s) t q)"

lemma vmm_okD:
  assumes "vmm_ok s t"
  shows "pmm_inv (pmm s)" "pt_wf (mem s) t" "table_pages s t \<inter> free_set (pmm s) = {}"
  using assms by (simp_all add: vmm_ok_def)

lemma table_in:
  assumes "vpath 3 p" "tab m t p = Some u" shows "u \<in> page_tables m t"
  using assms by (auto simp: page_tables_def)

lemma table_aligned: "pt_wf m t \<Longrightarrow> u \<in> page_tables m t \<Longrightarrow> 4096 dvd u"
  by (simp add: pt_wf_def)

text \<open>The words of a page that is no table are not entries of a table.\<close>

lemma entry_apart:
  assumes "pt_wf m t" "u \<in> page_tables m t" "i < 512" "4096 dvd x" "x \<notin> page_tables m t" "a \<in> words x"
  shows "a \<noteq> u + 8 * i"
  using entry_addr_inj[OF assms(4) table_aligned[OF assms(1,2)] _ assms(3)] assms(2,5,6)
  by (auto simp: words_def)

lemma level_existing:
  assumes ok: "vmm_ok s t" and p: "vpath 2 p" "tab (mem s) t p = Some u" "i < 512"
    and e: "is_table (rd s u i)" and f: "\<And>n. bit f n \<Longrightarrow> n = 1 \<or> n = 2"
  shows "level_done t s (p @ [i]) (entry_phys (rd s u i)) (wr u i (rd s u i OR f) s)"
proof -
  let ?s = "wr u i (rd s u i OR f) s"
  note wf = vmm_okD(2)[OF ok] and v = table_propagate_entry[OF e f]
  have m: "mem ?s = (mem s)(u + 8 * i := rd s u i OR f)" by simp
  note r = relabel[OF wf p e v m]
  have u: "u \<in> page_tables (mem s) t" using table_in[OF vpath_mono[OF p(1)] p(2)] by simp
  have "mem ?s a = mem s a" if "4096 dvd x" "x \<notin> page_tables (mem s) t" "a \<in> words x" for x a
    using entry_apart[OF wf u p(3) that] by simp
  then have "table_step t s ?s" using r(2,3) by (auto simp: table_step_def pmm_keeps_refl simp del: wr_fields(7))
  moreover have "tab (mem ?s) t (p @ [i]) = Some (entry_phys (rd s u i))"
    using r(3)[of "p @ [i]"] p(2) e by (simp add: tab_append)
  ultimately show ?thesis
    using ok r(1,2,4) by (simp add: level_done_def vmm_ok_def table_pages_def del: wr_fields(7))
qed

lemma level_fresh:
  assumes ok: "vmm_ok s t" and p: "vpath 2 p" "tab (mem s) t p = Some u" "i < 512"
    and e: "\<not> has_flag (rd s u i) PAGE_FLAG_PRESENT"
    and a: "pmm_inv q" "4096 dvd a" "a div 4096 \<in> free_set (pmm s)" "a < 2 ^ 52"
      "free_set q = free_set (pmm s) - {a div 4096}" and keep: "pmm_keeps (pmm s) q"
    and v: "is_table v" "entry_phys v = a"
  shows "level_done t s (p @ [i]) a (wr u i v (clear_words a 0 512 (s\<lparr>pmm := q\<rparr>)))"
proof -
  let ?s1 = "clear_words a 0 512 (s\<lparr>pmm := q\<rparr>)"
  let ?s = "wr u i v ?s1"
  note wf = vmm_okD(2)[OF ok]
  have na: "a \<notin> page_tables (mem s) t" using vmm_okD(3)[OF ok] a(3) by (auto simp: table_pages_def)
  have m1: "mem ?s1 x = mem s x" if "x \<notin> words a" for x using that by (auto simp: clear_words_mem words_def)
  have z: "mem ?s1 (a + 8 * j) = 0" if "j < 512" for j using that by (auto simp: clear_words_mem)
  have same: "same_tables (mem s) t (mem ?s1)"
    unfolding same_tables_def
    using m1 words_disjoint[OF table_aligned[OF wf] a(2)] na by (auto simp: words_def)
  note f = pt_wf_frame[OF same wf] and tf = tab_frame[OF same]
  have p': "tab (mem ?s1) t p = Some u" using tf[of p] p vpath_mono[OF p(1)] by simp
  have u: "u \<in> page_tables (mem s) t" using table_in[OF vpath_mono[OF p(1)] p(2)] by simp
  have e': "\<not> has_flag (mem ?s1 (u + 8 * i)) PAGE_FLAG_PRESENT"
    using same e u p(3) by (simp add: same_tables_def)
  have m: "mem ?s = (mem ?s1)(u + 8 * i := v)" by simp
  note l = link_table[OF f(1) p(1) p' p(3) e' v a(2) _ z m]
  have np: "tab (mem s) t (p @ [i]) = None" using p(2) e by (simp add: tab_append is_table_def)
  have tabs: "tab (mem ?s) t r = (if r = p @ [i] then Some a else tab (mem s) t r)" if "vpath 3 r" for r
    using l(1)[of r] tf[OF that] that na f(2) by simp
  have pt: "page_tables (mem ?s) t = insert a (page_tables (mem s) t)" using l(3) na f(2) by simp
  have fr: "mem ?s y = mem s y" if "4096 dvd x" "x \<notin> page_tables (mem ?s) t" "y \<in> words x" for x y
  proof -
    have "words x \<inter> words a = {}" using words_disjoint[OF that(1) a(2)] that(2) pt by auto
    moreover have "y \<noteq> u + 8 * i" using entry_apart[OF wf u p(3) that(1) _ that(3)] that(2) pt by simp
    ultimately show ?thesis using m1[of y] that(3) by auto
  qed
  have "tab (mem ?s) t r = tab (mem s) t r" if "vpath 3 r" "tab (mem s) t r \<noteq> None" for r
    using tabs[OF that(1)] that(2) np by (cases "r = p @ [i]") simp_all
  then have step: "table_step t s ?s"
    unfolding table_step_def using pt fr a(3) keep
    by (intro conjI allI impI ballI) (auto simp del: wr_fields(7))
  have ok': "vmm_ok ?s t"
  proof -
    have "pt_wf (mem ?s) t" using l(2) na f(2) by blast
    moreover have "table_pages ?s t \<inter> free_set (pmm ?s) = {}"
      using vmm_okD(3)[OF ok] a(5) unfolding table_pages_def pt by auto
    ultimately show ?thesis using a(1) by (simp add: vmm_ok_def del: wr_fields(7))
  qed
  have asp: "aspace (mem ?s) t r = aspace (mem s) t r" if "vpath 4 r" "length r = 4" for r
    using l(4)[of r] f(3)[of r] that na f(2) by simp
  show ?thesis unfolding level_done_def using ok' step asp tabs[of "p @ [i]"] p by simp
qed

lemma map_level_spec:
  assumes ok: "vmm_ok s t" and q: "vpath 4 (p @ i # r)" "length (p @ i # r) = 4" "r \<noteq> []"
    and nh: "no_huge (mem s) t (p @ i # r)" and u: "tab (mem s) t p = Some u"
    and f: "\<And>n. bit f n \<Longrightarrow> n = 1 \<or> n = 2"
  shows "(map_level u i f s = Some (None, s) \<and> free_set (pmm s) = {}) \<or>
    (\<exists>w s'. map_level u i f s = Some (Some w, s') \<and> level_done t s (p @ [i]) w s')"
proof -
  have i: "i < 512" and p: "vpath 2 p" using q by (auto simp: vpath_def Suc_le_eq neq_Nil_conv)
  show ?thesis
  proof (cases "has_flag (rd s u i) PAGE_FLAG_PRESENT")
    case True
    then show ?thesis
      using level_existing[OF ok p u i no_huge_table[OF nh q(3) u True] f]
      by (auto simp: map_level_def get_next_level_def)
  next
    case False
    show ?thesis
    proof (cases rule: pa.alloc_cases[OF vmm_okD(1)[OF ok]])
      case 1
      then show ?thesis using False by (simp add: map_level_def get_next_level_def alloc_page_def)
    next
      case (2 a s')
      note v = table_link_entry[OF 2(4,6)]
      note v' = table_propagate_entry[OF v(1) f]
      let ?l = "of_nat a OR PAGE_FLAG_PRESENT OR PAGE_FLAG_RW OR PAGE_FLAG_USER"
      have "map_level u i f s = Some (Some a, wr u i (?l OR f) (clear_words a 0 512 (s\<lparr>pmm := s'\<rparr>)))"
        using 2(1,2) False by (simp add: map_level_def get_next_level_def alloc_page_def wr_def Let_def)
      then show ?thesis using level_fresh[OF ok p u i False 2(3,4,5,6,7) pmm_alloc_page_keeps(1)[OF vmm_okD(1)[OF ok] 2(1)] v'(1)]
        v(2) v'(2) by auto
    qed
  qed
qed


lemma index_bounds: "pml4_index va < 512" "pdpt_index va < 512" "pd_index va < 512" "pt_index va < 512"
proof -
  have "unat (w AND 0x1FF) < 512" for w :: u64
  proof -
    have "w AND 0x1FF = take_bit 9 w" by (simp add: take_bit_eq_mask mask_eq_exp_minus_1)
    moreover have "unat (take_bit 9 w) = unat w mod 2 ^ 9"
      by (subst unsigned_take_bit_eq) (simp add: take_bit_eq_mod)
    ultimately show ?thesis by simp
  qed
  then show "pml4_index va < 512" "pdpt_index va < 512" "pd_index va < 512" "pt_index va < 512"
    by (simp_all add: pml4_index_def pdpt_index_def pd_index_def pt_index_def)
qed

lemma va_path_valid [simp]: "vpath 4 (va_path va)" "length (va_path va) = 4"
  by (simp_all add: va_path_def index_bounds)

text \<open>The three levels of the walk, then the entry of the page.\<close>

definition map_entry :: "u64 \<Rightarrow> u64 \<Rightarrow> u64" where
  "map_entry pa flags = (pa AND PAGE_MASK) OR flags OR PAGE_FLAG_PRESENT"

lemma map_entry_present: "has_flag (map_entry pa flags) PAGE_FLAG_PRESENT"
  by (simp add: map_entry_def has_flag_bit bit_or_iff) (simp add: PAGE_FLAG_PRESENT_def)

definition mapped :: "nat \<Rightarrow> vmm_state \<Rightarrow> u64 \<Rightarrow> u64 \<Rightarrow> vmm_state \<Rightarrow> bool" where
  "mapped t s va e s' \<longleftrightarrow>
     vmm_ok s' t \<and> table_step t s s' \<and> tlb_flushes s' = tlb_flushes s @ [va] \<and>
     (\<forall>q. vpath 4 q \<and> length q = 4 \<longrightarrow>
        aspace (mem s') t q = (if q = va_path va then Some (0, e) else aspace (mem s) t q))"

definition map_failed :: "nat \<Rightarrow> vmm_state \<Rightarrow> vmm_state \<Rightarrow> bool" where
  "map_failed t s s' \<longleftrightarrow>
     vmm_ok s' t \<and> table_step t s s' \<and> tlb_flushes s' = tlb_flushes s \<and> free_set (pmm s') = {} \<and>
     (\<forall>q. vpath 4 q \<and> length q = 4 \<longrightarrow> aspace (mem s') t q = aspace (mem s) t q)"

lemma level_done_trans:
  assumes "level_done t s1 p w s2" "level_done t s2 p' w' s3"
  shows "level_done t s1 p' w' s3"
  using assms table_step_trans unfolding level_done_def by (metis (no_types, lifting))

lemma level_done_self: "vmm_ok s t \<Longrightarrow> level_done t s [] t s"
  by (simp add: level_done_def table_step_refl)

text \<open>One level after \<open>level_done\<close>: the next level is done, or the allocator is empty.\<close>

lemma next_level:
  assumes d: "level_done t s p u s1" and q: "va_path va = p @ i # r" "r \<noteq> []"
    and nh: "no_huge (mem s) t (va_path va)" and f: "\<And>n. bit f n \<Longrightarrow> n = 1 \<or> n = 2"
  shows "(map_level u i f s1 = Some (None, s1) \<and> map_failed t s s1) \<or>
    (\<exists>w s2. map_level u i f s1 = Some (Some w, s2) \<and> level_done t s (p @ [i]) w s2)"
proof -
  have "no_huge (mem s1) t (p @ i # r)"
    using d nh q(1) va_path_valid[of va] unfolding level_done_def no_huge_def by metis
  moreover have "vpath 4 (p @ i # r)" "length (p @ i # r) = 4" using va_path_valid[of va] q(1) by simp_all
  ultimately have "(map_level u i f s1 = Some (None, s1) \<and> free_set (pmm s1) = {}) \<or>
    (\<exists>w s2. map_level u i f s1 = Some (Some w, s2) \<and> level_done t s1 (p @ [i]) w s2)"
    using d q(2) f by (intro map_level_spec) (auto simp: level_done_def)
  then show ?thesis using d level_done_trans[OF d] by (auto simp: map_failed_def level_done_def)
qed

lemma map_leaf:
  assumes d: "level_done t s p u s1" and q: "va_path va = p @ [i]" and e: "has_flag e PAGE_FLAG_PRESENT"
  shows "mapped t s va e (vmm_flush_tlb va (wr u i e s1))"
proof -
  let ?s = "wr u i e s1"
  have p: "vpath 3 p" "length p = 3" "i < 512" using va_path_valid[of va] q by (auto simp: vpath_def)
  note ok = d[unfolded level_done_def, THEN conjunct1] and u = d[unfolded level_done_def]
  have tu: "tab (mem s1) t p = Some u" using u by blast
  note wf = vmm_okD(2)[OF ok]
  have m: "mem ?s = (mem s1)(u + 8 * i := e)" by simp
  note l = write_leaf[OF wf p(1,2) tu p(3) m]
  have ui: "u \<in> page_tables (mem s1) t" using table_in[OF p(1) tu] .
  have "mem ?s a = mem s1 a" if "4096 dvd x" "x \<notin> page_tables (mem ?s) t" "a \<in> words x" for x a
    using entry_apart[OF wf ui p(3) that(1) _ that(3)] that(2) l(3) by simp
  then have "table_step t s1 ?s" using l(1,3) by (auto simp: table_step_def pmm_keeps_refl simp del: wr_fields(7))
  then have "table_step t s ?s" using table_step_trans u by blast
  then have step: "table_step t s (vmm_flush_tlb va ?s)" by (simp add: table_step_def)
  have ok': "vmm_ok (vmm_flush_tlb va ?s) t"
    using ok l(2,3) by (simp add: vmm_ok_def table_pages_def del: wr_fields(7))
  have "aspace (mem ?s) t r = (if r = va_path va then Some (0, e) else aspace (mem s) t r)"
    if "vpath 4 r" "length r = 4" for r
    using l(4)[OF that] q e u that by simp
  then show ?thesis unfolding mapped_def using step ok' u by (simp del: wr_fields(7))
qed

lemma vmm_map_page_spec:
  assumes ok: "vmm_ok s t" and nh: "no_huge (mem s) t (va_path va)"
  shows "\<exists>r s'. vmm_map_page t va pa flags s = Some (r, s') \<and>
    (if r then mapped t s va (map_entry pa flags) s' else map_failed t s s')"
proof -
  let ?f = "flags AND (PAGE_FLAG_USER OR PAGE_FLAG_RW)"
  note nl = next_level[OF _ _ _ nh, of _ _ _ _ _ ?f] and f = propagate_bits[of flags]
  have v: "va_path va = [] @ pml4_index va # [pdpt_index va, pd_index va, pt_index va]"
    "va_path va = [pml4_index va] @ pdpt_index va # [pd_index va, pt_index va]"
    "va_path va = [pml4_index va, pdpt_index va] @ pd_index va # [pt_index va]"
    "va_path va = [pml4_index va, pdpt_index va, pd_index va] @ [pt_index va]"
    by (simp_all add: va_path_def)
  from nl[OF level_done_self[OF ok] v(1) _ f] consider
    (f1) s1 where "map_level t (pml4_index va) ?f s = Some (None, s1)" "map_failed t s s1"
  | (o1) w s1 where "map_level t (pml4_index va) ?f s = Some (Some w, s1)" "level_done t s [pml4_index va] w s1"
    by auto
  then show ?thesis
  proof cases
    case f1
    then show ?thesis by (intro exI[of _ False]) (simp add: vmm_map_page_def)
  next
    case o1
    from nl[OF o1(2) v(2) _ f] consider
      (f2) s2 where "map_level w (pdpt_index va) ?f s1 = Some (None, s2)" "map_failed t s s2"
    | (o2) w2 s2 where "map_level w (pdpt_index va) ?f s1 = Some (Some w2, s2)"
        "level_done t s [pml4_index va, pdpt_index va] w2 s2"
      by auto
    then show ?thesis
    proof cases
      case f2
      then show ?thesis using o1 by (intro exI[of _ False]) (simp add: vmm_map_page_def)
    next
      case o2
      from nl[OF o2(2) v(3) _ f] consider
        (f3) s3 where "map_level w2 (pd_index va) ?f s2 = Some (None, s3)" "map_failed t s s3"
      | (o3) w3 s3 where "map_level w2 (pd_index va) ?f s2 = Some (Some w3, s3)"
          "level_done t s [pml4_index va, pdpt_index va, pd_index va] w3 s3"
        by auto
      then show ?thesis
      proof cases
        case f3
        then show ?thesis using o1 o2 by (intro exI[of _ False]) (simp add: vmm_map_page_def)
      next
        case o3
        then show ?thesis using o1 o2 map_leaf[OF o3(2) v(4) map_entry_present]
          by (intro exI[of _ True]) (simp add: vmm_map_page_def map_entry_def Let_def)
      qed
    qed
  qed
qed


section \<open>Translation\<close>

text \<open>The physical address that an entry found with \<open>l\<close> indices left gives to a virtual address.\<close>

definition translate :: "nat \<Rightarrow> u64 \<Rightarrow> u64 \<Rightarrow> u64" where
  "translate l e va =
     (if l = 0 then (e AND PAGE_MASK) OR (va AND 0xFFF)
      else if l = 1 then (e AND 0xFFFFFFFE00000) OR (va AND 0x1FFFFF)
      else (e AND 0xFFFFFC0000000) OR (va AND 0x3FFFFFFF))"

lemma vmm_virt_to_phys_aspace:
  assumes "pt_wf (mem s) t"
  shows "vmm_virt_to_phys s t va =
    (case aspace (mem s) t (va_path va) of None \<Rightarrow> 0 | Some (l, e) \<Rightarrow> translate l e va)"
proof -
  have top: "has_flag (rd s t (pml4_index va)) PAGE_FLAG_PRESENT \<Longrightarrow> is_table (rd s t (pml4_index va))"
    using pt_wfD(3)[OF assms index_bounds(1)] .
  show ?thesis
  proof (cases "has_flag (rd s t (pml4_index va)) PAGE_FLAG_PRESENT")
    case True
    then show ?thesis using top
      by (simp add: vmm_virt_to_phys_def aspace_def va_path_def Let_def translate_def is_table_def)
  qed (simp add: vmm_virt_to_phys_def aspace_def va_path_def Let_def is_table_def)
qed

section \<open>Unmapping\<close>

definition unmap_step :: "nat \<Rightarrow> vmm_state \<Rightarrow> vmm_state \<Rightarrow> bool" where
  "unmap_step t s s' \<longleftrightarrow>
     vmm_ok s' t \<and> page_tables (mem s') t \<subseteq> page_tables (mem s) t \<and>
     (\<forall>x. 4096 dvd x \<and> x \<notin> page_tables (mem s) t \<longrightarrow> (\<forall>a\<in>words x. mem s' a = mem s a)) \<and>
     (\<forall>q. vpath 4 q \<and> length q = 4 \<longrightarrow> aspace (mem s') t q = aspace (mem s) t q) \<and>
     cr3 s' = cr3 s \<and> kernel_pml4 s' = kernel_pml4 s \<and> current_thread s' = current_thread s \<and>
     exit_events s' = exit_events s"

lemma unmap_step_refl: "vmm_ok s t \<Longrightarrow> unmap_step t s s"
  by (simp add: unmap_step_def)

lemma unmap_step_trans:
  assumes "unmap_step t s1 s2" "unmap_step t s2 s3" shows "unmap_step t s1 s3"
proof -
  have "mem s3 a = mem s1 a" if "4096 dvd x" "x \<notin> page_tables (mem s1) t" "a \<in> words x" for x a
    using assms that unfolding unmap_step_def by (metis subsetD)
  then show ?thesis using assms by (auto simp: unmap_step_def)
qed

lemma table_empty_iff: "table_empty s w \<longleftrightarrow> (\<forall>j<512. \<not> has_flag (rd s w j) PAGE_FLAG_PRESENT)"
  by (auto simp: table_empty_def list_all_iff)

lemma free_page_fields [simp]:
  "mem (free_page p s) = mem s" "cr3 (free_page p s) = cr3 s" "kernel_pml4 (free_page p s) = kernel_pml4 s"
  "current_thread (free_page p s) = current_thread s" "exit_events (free_page p s) = exit_events s"
  "tlb_flushes (free_page p s) = tlb_flushes s" "pmm (free_page p s) = pmm_free_page (pmm s) p"
  by (simp_all add: free_page_def)

text \<open>Clearing the entry of an empty table and freeing its page.\<close>

lemma page_number_inj: "4096 dvd x \<Longrightarrow> 4096 dvd y \<Longrightarrow> x div 4096 = y div 4096 \<longleftrightarrow> x = (y::nat)"
  by (metis dvd_div_mult_self)

lemma free_table_step:
  fixes s :: vmm_state and va :: u64 and u i w :: nat
  assumes ok: "vmm_ok s t" and p: "vpath 2 p" "tab (mem s) t p = Some u" "i < 512"
    and w: "tab (mem s) t (p @ [i]) = Some w" "table_empty s w"
  defines "s' \<equiv> free_page w (vmm_flush_tlb va (wr u i 0 s))"
  shows "unmap_step t s s'" "vpath 3 q \<Longrightarrow> tab (mem s') t q = (if q = p @ [i] then None else tab (mem s) t q)"
proof -
  note wf = vmm_okD(2)[OF ok]
  have m: "mem s' = (mem s)(u + 8 * i := 0)" by (simp add: s'_def)
  have e: "\<not> has_flag (rd s w j) PAGE_FLAG_PRESENT" if "j < 512" for j using w(2) that by (simp add: table_empty_iff)
  note l = unlink_table[OF wf p w(1) e m]
  show "vpath 3 q \<Longrightarrow> tab (mem s') t q = (if q = p @ [i] then None else tab (mem s) t q)" by (rule l(1))
  have wt: "w \<in> page_tables (mem s) t" using table_in[OF _ w(1)] p by simp
  have u: "u \<in> page_tables (mem s) t" using table_in[OF vpath_mono[OF p(1)] p(2)] by simp
  have pm: "pmm s' = pmm_free_page (pmm s) w" by (simp add: s'_def)
  have "w div 4096 \<in> table_pages s t" using wt by (auto simp: table_pages_def)
  note r = pa.owned_release[OF vmm_okD(1,3)[OF ok] this]
  have "table_pages s' t \<subseteq> table_pages s t - {w div 4096}"
    using page_number_inj[OF table_aligned[OF wf] table_aligned[OF wf wt]] l(3)
    by (auto simp: table_pages_def)
  then have "vmm_ok s' t" using r l(2) pm by (auto simp: vmm_ok_def)
  moreover have "mem s' a = mem s a" if "4096 dvd x" "x \<notin> page_tables (mem s) t" "a \<in> words x" for x a
    using entry_apart[OF wf u p(3) that] m by simp
  ultimately show "unmap_step t s s'"
    unfolding unmap_step_def using l(3,4) by (auto simp: s'_def simp del: wr_fields(7))
qed


lemma vmm_free_empty_tables_spec:
  assumes ok: "vmm_ok s t" shows "unmap_step t s (vmm_free_empty_tables t va s)"
proof -
  let ?i4 = "pml4_index va" and ?i3 = "pdpt_index va" and ?i2 = "pd_index va"
  let ?e4 = "rd s t ?i4"
  let ?pdpt = "entry_phys ?e4"
  let ?e3 = "rd s ?pdpt ?i3"
  let ?pd = "entry_phys ?e3"
  let ?e2 = "rd s ?pd ?i2"
  let ?pt = "entry_phys ?e2"
  let ?s1 = "free_page ?pt (vmm_flush_tlb va (wr ?pd ?i2 0 s))"
  let ?s2 = "free_page ?pd (vmm_flush_tlb va (wr ?pdpt ?i3 0 ?s1))"
  let ?s3 = "free_page ?pdpt (vmm_flush_tlb va (wr t ?i4 0 ?s2))"
  show ?thesis
  proof (cases "has_flag ?e4 PAGE_FLAG_PRESENT \<and> is_table ?e3 \<and> is_table ?e2 \<and> table_empty s ?pt")
    case False
    then have "vmm_free_empty_tables t va s = s"
      by (auto simp: vmm_free_empty_tables_def Let_def is_table_def)
    then show ?thesis using unmap_step_refl[OF ok] by simp
  next
    case True
    have tb: "tab (mem s) t [] = Some t" "tab (mem s) t [?i4] = Some ?pdpt"
      "tab (mem s) t [?i4, ?i3] = Some ?pd" "tab (mem s) t [?i4, ?i3, ?i2] = Some ?pt"
      using True pt_wfD(3)[OF vmm_okD(2)[OF ok] index_bounds(1)] by auto
    note b = index_bounds[of va]
    have 1: "unmap_step t s ?s1" and t1: "vpath 3 q \<Longrightarrow> tab (mem ?s1) t q =
        (if q = [?i4, ?i3, ?i2] then None else tab (mem s) t q)" for q
      using free_table_step(1)[OF ok, where p = "[?i4, ?i3]" and u = ?pd and i = ?i2 and w = ?pt and va = va]
        free_table_step(2)[OF ok, where p = "[?i4, ?i3]" and u = ?pd and i = ?i2 and w = ?pt and va = va and q = q] tb True b by auto
    have ok1: "vmm_ok ?s1 t" using 1 by (simp add: unmap_step_def)
    have 2: "unmap_step t ?s1 ?s2" and t2: "vpath 3 q \<Longrightarrow> tab (mem ?s2) t q =
        (if q = [?i4, ?i3] then None else tab (mem ?s1) t q)" if "table_empty ?s1 ?pd" for q
      using free_table_step(1)[OF ok1, where p = "[?i4]" and u = ?pdpt and i = ?i3 and w = ?pd and va = va]
        free_table_step(2)[OF ok1, where p = "[?i4]" and u = ?pdpt and i = ?i3 and w = ?pd and va = va and q = q]
        t1[of "[?i4]"] t1[of "[?i4, ?i3]"] tb that b
      by auto
    have 3: "unmap_step t ?s2 ?s3" if e: "table_empty ?s1 ?pd" "table_empty ?s2 ?pdpt"
    proof -
      have ok2: "vmm_ok ?s2 t" using 2[OF e(1)] by (simp add: unmap_step_def)
      show ?thesis
        using free_table_step(1)[OF ok2, where p = "[]" and u = t and i = ?i4 and w = ?pdpt and va = va]
          t2[OF e(1), of "[?i4]"] t1[of "[?i4]"] tb e(2) b
        by auto
    qed
    have eq: "vmm_free_empty_tables t va s =
        (if \<not> table_empty ?s1 ?pd then ?s1 else if \<not> table_empty ?s2 ?pdpt then ?s2 else ?s3)"
      using True by (simp add: vmm_free_empty_tables_def Let_def is_table_def del: wr_fields)
    show ?thesis
    proof (cases "table_empty ?s1 ?pd")
      case e: True
      note s2 = unmap_step_trans[OF 1 2[OF e]]
      show ?thesis
        using s2 unmap_step_trans[OF s2 3[OF e]] e
        unfolding eq by (cases "table_empty ?s2 ?pdpt") (simp_all only: if_True if_False not_True_eq_False not_False_eq_True)
    qed (use 1 in \<open>simp only: eq if_True not_False_eq_True\<close>)
  qed
qed


definition unmapped :: "nat \<Rightarrow> vmm_state \<Rightarrow> u64 \<Rightarrow> vmm_state \<Rightarrow> bool" where
  "unmapped t s va s' \<longleftrightarrow>
     vmm_ok s' t \<and> page_tables (mem s') t \<subseteq> page_tables (mem s) t \<and>
     (\<forall>x. 4096 dvd x \<and> x \<notin> page_tables (mem s) t \<longrightarrow> (\<forall>a\<in>words x. mem s' a = mem s a)) \<and>
     (\<forall>q. vpath 4 q \<and> length q = 4 \<longrightarrow> aspace (mem s') t q =
        (if q = va_path va \<and> no_huge (mem s) t q then None else aspace (mem s) t q))"

lemma clear_leaf:
  assumes ok: "vmm_ok s t" and pt: "tab (mem s) t [pml4_index va, pdpt_index va, pd_index va] = Some pt"
  shows "unmapped t s va (vmm_flush_tlb va (wr pt (pt_index va) 0 s))"
proof -
  let ?p = "[pml4_index va, pdpt_index va, pd_index va]" and ?s = "wr pt (pt_index va) 0 s"
  note wf = vmm_okD(2)[OF ok] and b = index_bounds[of va]
  have p: "vpath 3 ?p" "length ?p = 3" using b by simp_all
  have q: "va_path va = ?p @ [pt_index va]" by (simp add: va_path_def)
  have m: "mem ?s = (mem s)(pt + 8 * pt_index va := 0)" by simp
  note l = write_leaf[OF wf p pt b(4) m]
  have u: "pt \<in> page_tables (mem s) t" using table_in[OF p(1) pt] .
  have nh: "no_huge (mem s) t (va_path va)"
    using walk_append[of "[pt_index va]", OF _ pt] q by (auto simp: no_huge_def aspace_def)
  have "mem ?s a = mem s a" if "4096 dvd x" "x \<notin> page_tables (mem s) t" "a \<in> words x" for x a
    using entry_apart[OF wf u b(4) that] by simp
  then show ?thesis
    using l(2,3,4) ok q nh by (auto simp: unmapped_def vmm_ok_def table_pages_def simp del: wr_fields(7))
qed

lemma unmapped_step:
  assumes "unmapped t s va s1" "unmap_step t s1 s2" shows "unmapped t s va s2"
proof -
  have "mem s2 a = mem s a" if "4096 dvd x" "x \<notin> page_tables (mem s) t" "a \<in> words x" for x a
    using assms that unfolding unmap_step_def unmapped_def by (metis subsetD)
  then show ?thesis using assms by (auto simp: unmap_step_def unmapped_def)
qed

lemma vmm_unmap_page_spec:
  assumes ok: "vmm_ok s t" shows "unmapped t s va (vmm_unmap_page t va s)"
proof -
  let ?e4 = "rd s t (pml4_index va)"
  let ?e3 = "rd s (entry_phys ?e4) (pdpt_index va)"
  let ?e2 = "rd s (entry_phys ?e3) (pd_index va)"
  let ?s1 = "vmm_flush_tlb va (wr (entry_phys ?e2) (pt_index va) 0 s)"
  note top = pt_wfD(3)[OF vmm_okD(2)[OF ok] index_bounds(1)]
  show ?thesis
  proof (cases "is_table ?e4 \<and> is_table ?e3 \<and> is_table ?e2")
    case True
    then have pt: "tab (mem s) t [pml4_index va, pdpt_index va, pd_index va] = Some (entry_phys ?e2)" by simp
    note c = clear_leaf[OF ok pt]
    have ok1: "vmm_ok ?s1 t" using c by (simp add: unmapped_def)
    have "vmm_unmap_page t va s = vmm_free_empty_tables t va ?s1 \<or> vmm_unmap_page t va s = ?s1"
      using True by (simp add: vmm_unmap_page_def Let_def is_table_def del: wr_fields)
    then show ?thesis using c unmapped_step[OF c vmm_free_empty_tables_spec[OF ok1]] by auto
  next
    case False
    then have "vmm_unmap_page t va s = s"
      using top by (auto simp: vmm_unmap_page_def Let_def is_table_def)
    moreover have "no_huge (mem s) t (va_path va) \<Longrightarrow> aspace (mem s) t (va_path va) = None"
      using False top by (auto simp: no_huge_def aspace_def va_path_def is_table_def split: if_splits)
    ultimately show ?thesis using ok by (auto simp: unmapped_def)
  qed
qed

end
