(* ===== verification/Vmm_User.thy ===== *)
theory Vmm_User
  imports Vmm_Correct
begin

text \<open>
  Validation of user address ranges, copy-on-write and demand paging: the parts of
  \<^verbatim>\<open>kernel/src/mm/vmm.c\<close> that combine the page tables with the regions of a process.
\<close>

unbundle bit_operations_syntax

section \<open>Rounding to pages\<close>

lemma unat_page_base: "unat (w AND NOT 0xFFF) = unat w div 4096 * 4096" for w :: u64
proof -
  have m: "(0xFFF :: u64) = mask 12" by (simp add: mask_eq_exp_minus_1)
  have "w AND NOT 0xFFF = w - take_bit 12 w"
  proof -
    have "(w AND NOT (mask 12)) + take_bit 12 w = (w AND NOT (mask 12)) OR take_bit 12 w"
      by (rule disjunctive_add) (auto simp: bit_simps)
    also have "\<dots> = w" by (rule bit_word_eqI) (auto simp: bit_simps)
    finally show ?thesis unfolding m by (simp add: algebra_simps)
  qed
  moreover have t: "unat (take_bit 12 w) = unat w mod 4096"
    by (subst unsigned_take_bit_eq) (simp add: take_bit_eq_mod)
  moreover have "take_bit 12 w \<le> w" using t by (simp add: word_le_nat_alt)
  ultimately show ?thesis by (simp add: unat_sub minus_mod_eq_div_mult)
qed


lemma unat_u64_less: "unat (w :: u64) < 2 ^ 64"
  using unsigned_less[of w] by simp

lemma unat_of_nat_u64: "n < 2 ^ 64 \<Longrightarrow> unat (of_nat n :: u64) = n"
  by (simp add: unsigned_of_nat take_bit_eq_mod)

lemma unat_add_u64: "unat x + unat y < 2 ^ 64 \<Longrightarrow> unat (x + y) = unat x + unat (y :: u64)"
  by (simp add: unat_word_ariths)

lemma page_base_plus:
  "(addr AND NOT 0xFFF) + of_nat k * 4096 = (of_nat (4096 * (unat addr div 4096 + k)) :: u64)"
proof -
  have "addr AND NOT 0xFFF = (of_nat (unat (addr AND NOT 0xFFF)) :: u64)" by simp
  also have "\<dots> = of_nat (unat addr div 4096 * 4096)" by (simp only: unat_page_base)
  finally show ?thesis by (simp add: algebra_simps)
qed

section \<open>Validation of user ranges\<close>

text \<open>A page that a process may use: inside a region that is not \<^verbatim>\<open>PROT_NONE\<close>, or below a stack that can grow.\<close>

definition page_usable :: "vma_list \<Rightarrow> u64 \<Rightarrow> bool" where
  "page_usable vmas page =
     (case (case vma_find vmas page of
              None \<Rightarrow> vma_find_growdown vmas page (8 * 1024 * 1024)
            | Some v \<Rightarrow> Some v) of
        None \<Rightarrow> False
      | Some v \<Rightarrow> v_prot v \<noteq> PROT_NONE)"

lemma range_valid_loop_step:
  "range_valid_loop vmas page e =
     (if page < e then if page_usable vmas page then range_valid_loop vmas (page + 0x1000) e else Some False
      else Some True)"
  by (subst range_valid_loop.simps) (auto simp: page_usable_def Let_def split: option.splits)

lemma range_valid_loop_spec:
  "unat e = unat page + n * 4096 \<Longrightarrow>
   range_valid_loop vmas page e = Some (\<forall>k<n. page_usable vmas (page + of_nat k * 4096))"
proof (induction n arbitrary: page)
  case 0
  then show ?case by (subst range_valid_loop_step) (simp add: word_less_nat_alt)
next
  case (Suc n)
  have lt: "unat page + 4096 \<le> unat e" "unat e < 2 ^ 64" using Suc.prems unat_u64_less[of e] by simp_all
  then have "unat (page + 0x1000) = unat page + 4096" by (simp add: unat_word_ariths)
  then have IH: "range_valid_loop vmas (page + 0x1000) e
      = Some (\<forall>k<n. page_usable vmas (page + 0x1000 + of_nat k * 4096))"
    using Suc by simp
  have "page < e" using lt(1) by (simp add: word_less_nat_alt)
  moreover have "(\<forall>k<Suc n. page_usable vmas (page + of_nat k * 4096)) \<longleftrightarrow>
      page_usable vmas page \<and> (\<forall>k<n. page_usable vmas (page + 0x1000 + of_nat k * 4096))"
    by (auto simp: less_Suc_eq_0_disj algebra_simps)
  ultimately show ?case using IH by (subst range_valid_loop_step) simp
qed

text \<open>The pages from the one of \<open>a\<close> up to the one before \<open>e\<close>, both rounded as the code rounds them.\<close>

lemma page_range:
  fixes addr :: u64 and E :: nat
  assumes "E \<le> 2 ^ 47" "unat addr \<le> E"
  shows "(\<forall>k<(E + 4095) div 4096 - unat addr div 4096. P ((addr AND NOT 0xFFF) + of_nat k * 4096)) \<longleftrightarrow>
         (\<forall>page. 4096 dvd unat page \<and> unat addr div 4096 * 4096 \<le> unat page \<and> unat page < E \<longrightarrow> P page)"
proof (intro iffI allI impI)
  fix page :: u64
  assume h: "\<forall>k<(E + 4095) div 4096 - unat addr div 4096. P ((addr AND NOT 0xFFF) + of_nat k * 4096)"
    and g: "4096 dvd unat page \<and> unat addr div 4096 * 4096 \<le> unat page \<and> unat page < E"
  then obtain j where j: "unat page = 4096 * j" by (auto simp: dvd_def)
  define k where "k = j - unat addr div 4096"
  have k: "j = unat addr div 4096 + k" "k < (E + 4095) div 4096 - unat addr div 4096"
    using g j unfolding k_def by linarith+
  have "page = of_nat (unat page)" by simp
  also have "\<dots> = (addr AND NOT 0xFFF) + of_nat k * 4096" unfolding page_base_plus using j k(1) by simp
  finally show "P page" using h k(2) by simp
next
  fix k
  assume h: "\<forall>page. 4096 dvd unat page \<and> unat addr div 4096 * 4096 \<le> unat page \<and> unat page < E \<longrightarrow> P page"
    and k: "k < (E + 4095) div 4096 - unat addr div 4096"
  let ?n = "4096 * (unat addr div 4096 + k)"
  have "unat addr div 4096 + k + 1 \<le> (E + 4095) div 4096" using k by linarith
  then have "(unat addr div 4096 + k + 1) * 4096 \<le> E + 4095"
    by (simp only: less_eq_div_iff_mult_less_eq zero_less_numeral)
  then have n: "?n < E" by simp
  have "unat (of_nat ?n :: u64) = ?n" by (rule unat_of_nat_u64) (use n assms(1) in simp)
  then show "P ((addr AND NOT 0xFFF) + of_nat k * 4096)"
    unfolding page_base_plus using h n by (metis dvd_triv_left le_add1 mult.commute mult_le_mono2)
qed


lemma range_valid_spec:
  assumes t: "current_thread s = Some t" "t_mm t = Some vmas" and sz: "unat addr + unat sz < 2 ^ 64"
  shows "vmm_is_user_addr_range_valid s addr sz =
    Some (addr \<le> USER_SPACE_LIMIT \<and> unat addr + unat sz \<le> 2 ^ 47 \<and>
      (\<forall>page. 4096 dvd unat page \<and> unat addr div 4096 * 4096 \<le> unat page \<and>
              unat page < unat addr + unat sz \<longrightarrow> page_usable vmas page))"
proof -
  let ?E = "unat addr + unat sz"
  have u: "unat (addr + sz) = ?E" using sz by (simp add: unat_word_ariths)
  show ?thesis
  proof (cases "addr > USER_SPACE_LIMIT \<or> addr + sz > 0x800000000000")
    case True
    then show ?thesis using u by (auto simp: vmm_is_user_addr_range_valid_def word_less_nat_alt word_le_nat_alt)
  next
    case False
    then have E: "?E \<le> 2 ^ 47" using u by (auto simp: word_less_nat_alt not_less)
    then have u2: "unat (addr + sz + 0xFFF) = ?E + 4095" using u unat_add_u64[of "addr + sz" "0xFFF"] by simp
    define n where "n = (?E + 4095) div 4096 - unat addr div 4096"
    have le: "unat addr div 4096 \<le> (?E + 4095) div 4096" by (rule div_le_mono) simp
    have e: "unat ((addr + sz + 0xFFF) AND NOT 0xFFF) = unat (addr AND NOT 0xFFF) + n * 4096"
      unfolding unat_page_base u2 n_def using le by (simp add: diff_mult_distrib)
    have lp: "range_valid_loop vmas (addr AND NOT 0xFFF) ((addr + sz + 0xFFF) AND NOT 0xFFF)
        = Some (\<forall>k<n. page_usable vmas ((addr AND NOT 0xFFF) + of_nat k * 4096))"
      by (rule range_valid_loop_spec[OF e])
    have "vmm_is_user_addr_range_valid s addr sz
        = Some (\<forall>k<n. page_usable vmas ((addr AND NOT 0xFFF) + of_nat k * 4096))"
    proof (cases "addr AND NOT 0xFFF < (addr + sz + 0xFFF) AND NOT 0xFFF")
      case True
      then show ?thesis using False t lp by (simp add: vmm_is_user_addr_range_valid_def Let_def)
    next
      case nl: False
      then have "n = 0" using e by (simp add: word_less_nat_alt)
      then show ?thesis using False t nl by (simp add: vmm_is_user_addr_range_valid_def Let_def)
    qed
    moreover have "(\<forall>k<n. page_usable vmas ((addr AND NOT 0xFFF) + of_nat k * 4096)) \<longleftrightarrow>
      (\<forall>page. 4096 dvd unat page \<and> unat addr div 4096 * 4096 \<le> unat page \<and> unat page < ?E \<longrightarrow> page_usable vmas page)"
      unfolding n_def by (rule page_range[OF E]) simp
    ultimately show ?thesis using False E by (simp add: not_less)
  qed
qed

lemma range_valid_wraps_spec:
  assumes "current_thread s = Some t"
  shows "vmm_is_user_addr_range_valid s 0x1000 0xFFFFFFFFFFFFF000 = Some True"
  using assms by (simp add: vmm_is_user_addr_range_valid_def Let_def USER_SPACE_LIMIT_def)


section \<open>Copy-on-write\<close>

text \<open>Only the bits of the page number matter for the path of an address.\<close>

lemma va_path_mask:
  assumes "\<And>n. 12 \<le> n \<Longrightarrow> n < 48 \<Longrightarrow> bit m n" shows "va_path (va AND m) = va_path va"
proof -
  have x: "(0x1FF :: u64) = mask 9" by (simp add: mask_eq_exp_minus_1)
  have "drop_bit k (va AND m) AND 0x1FF = drop_bit k va AND 0x1FF" if "12 \<le> k" "k \<le> 39" for k
    unfolding x using assms that by (intro bit_word_eqI) (auto simp: bit_simps)
  then show ?thesis by (simp add: va_path_def pml4_index_def pdpt_index_def pd_index_def pt_index_def)
qed

lemma va_path_page [simp]: "va_path (va AND PAGE_MASK) = va_path va" "va_path (va AND NOT 0xFFF) = va_path va"
proof -
  have x: "(0xFFF :: u64) = mask 12" by (simp add: mask_eq_exp_minus_1)
  show "va_path (va AND PAGE_MASK) = va_path va" by (rule va_path_mask) (simp add: PAGE_MASK_bits)
  show "va_path (va AND NOT 0xFFF) = va_path va" unfolding x by (rule va_path_mask) (auto simp: bit_simps)
qed

lemma va_path_page' [simp]: "va_path (va AND - 4096) = va_path va"
  using va_path_page(2)[of va] by simp

lemma va_index_page [simp]:
  "pml4_index (va AND PAGE_MASK) = pml4_index va" "pdpt_index (va AND PAGE_MASK) = pdpt_index va"
  "pd_index (va AND PAGE_MASK) = pd_index va" "pt_index (va AND PAGE_MASK) = pt_index va"
  using va_path_page(1)[of va] by (simp_all add: va_path_def)

text \<open>A page that is mapped with a small page has its whole chain of tables.\<close>

lemma aspace_leaf:
  assumes "aspace m t (va_path va) = Some (0, e)"
  shows "is_table (m (t + 8 * pml4_index va))"
    "is_table (m (entry_phys (m (t + 8 * pml4_index va)) + 8 * pdpt_index va))"
    "tab m t [pml4_index va, pdpt_index va, pd_index va] = Some u \<Longrightarrow> e = m (u + 8 * pt_index va)"
    "\<exists>u. tab m t [pml4_index va, pdpt_index va, pd_index va] = Some u"
    "has_flag e PAGE_FLAG_PRESENT"
  using assms by (auto simp: aspace_def va_path_def split: if_splits)

lemma copy_words_fields [simp]:
  "pmm (copy_words d u lo hi s) = pmm s" "cr3 (copy_words d u lo hi s) = cr3 s"
  "kernel_pml4 (copy_words d u lo hi s) = kernel_pml4 s"
  "current_thread (copy_words d u lo hi s) = current_thread s"
  "tlb_flushes (copy_words d u lo hi s) = tlb_flushes s"
  "exit_events (copy_words d u lo hi s) = exit_events s"
  by (induction hi; simp add: copy_words_def)+

lemma copy_words_other:
  "(\<And>i. lo \<le> i \<Longrightarrow> i < hi \<Longrightarrow> a \<noteq> d + 8 * i) \<Longrightarrow> mem (copy_words d u lo hi s) a = mem s a"
  by (induction hi) (auto simp: copy_words_def)

lemma copy_words_mem:
  assumes "words d \<inter> words u = {}" "hi \<le> 512" "i < hi"
  shows "mem (copy_words d u 0 hi s) (d + 8 * i) = mem s (u + 8 * i)"
  using assms(2,3)
proof (induction hi)
  case (Suc hi)
  have c: "copy_words d u 0 (Suc hi) s = wr d hi (mem (copy_words d u 0 hi s) (u + 8 * hi)) (copy_words d u 0 hi s)"
    by (simp add: copy_words_def)
  have "mem (copy_words d u 0 hi s) (u + 8 * hi) = mem s (u + 8 * hi)"
    using assms(1) Suc.prems(1) by (intro copy_words_other) (fastforce simp: words_def)
  then show ?case using Suc by (auto simp: c less_Suc_eq)
qed simp


text \<open>The entries that the handler writes, and what they keep of the old one.\<close>

definition cow_entry :: "u64 \<Rightarrow> nat \<Rightarrow> u64" where
  "cow_entry e p = (of_nat p AND PAGE_MASK) OR (e AND NOT PAGE_MASK AND NOT PAGE_FLAG_COW) OR PAGE_FLAG_RW"

definition promote_entry :: "u64 \<Rightarrow> u64" where
  "promote_entry e = (e AND NOT PAGE_FLAG_COW) OR PAGE_FLAG_RW"

definition same_flags :: "u64 \<Rightarrow> u64 \<Rightarrow> bool" where
  "same_flags e e' \<longleftrightarrow>
     e' AND NOT (PAGE_MASK OR PAGE_FLAG_RW OR PAGE_FLAG_COW) = e AND NOT (PAGE_MASK OR PAGE_FLAG_RW OR PAGE_FLAG_COW)"

lemma flag_bits:
  "bit PAGE_FLAG_RW n \<longleftrightarrow> n = 1" "bit PAGE_FLAG_COW n \<longleftrightarrow> n = 9" "bit PAGE_FLAG_PRESENT n \<longleftrightarrow> n = 0"
  "bit PAGE_FLAG_USER n \<longleftrightarrow> n = 2" "bit PAGE_FLAG_NX n \<longleftrightarrow> n = 63"
proof -
  have e: "PAGE_FLAG_RW = push_bit 1 1" "PAGE_FLAG_COW = push_bit 9 1" "PAGE_FLAG_PRESENT = push_bit 0 1"
    "PAGE_FLAG_USER = push_bit 2 1" "PAGE_FLAG_NX = push_bit 63 1"
    by (simp_all add: PAGE_FLAG_RW_def PAGE_FLAG_COW_def PAGE_FLAG_PRESENT_def PAGE_FLAG_USER_def
        PAGE_FLAG_NX_def push_bit_eq_mult)
  show "bit PAGE_FLAG_RW n \<longleftrightarrow> n = 1" "bit PAGE_FLAG_COW n \<longleftrightarrow> n = 9" "bit PAGE_FLAG_PRESENT n \<longleftrightarrow> n = 0"
    "bit PAGE_FLAG_USER n \<longleftrightarrow> n = 2" "bit PAGE_FLAG_NX n \<longleftrightarrow> n = 63"
    unfolding e bit_push_bit_iff bit_1_iff by auto
qed

lemma cow_entry_facts:
  assumes "4096 dvd p" "p < 2 ^ 52"
  shows "entry_phys (cow_entry e p) = p" "has_flag (cow_entry e p) PAGE_FLAG_RW"
    "\<not> has_flag (cow_entry e p) PAGE_FLAG_COW" "same_flags e (cow_entry e p)"
    "has_flag (cow_entry e p) PAGE_FLAG_PRESENT = has_flag e PAGE_FLAG_PRESENT"
proof -
  note b = bit_simps PAGE_MASK_bits flag_bits
  have "cow_entry e p = of_nat p OR ((e AND NOT PAGE_MASK AND NOT PAGE_FLAG_COW) OR PAGE_FLAG_RW)"
    using page_mask[OF assms] by (simp add: cow_entry_def)
  moreover have "n < 12 \<or> 52 \<le> n" if "bit ((e AND NOT PAGE_MASK AND NOT PAGE_FLAG_COW) OR PAGE_FLAG_RW) n" for n
    using that by (auto simp: b)
  ultimately show "entry_phys (cow_entry e p) = p" using page_entry[OF assms] by simp
  show "has_flag (cow_entry e p) PAGE_FLAG_RW" "\<not> has_flag (cow_entry e p) PAGE_FLAG_COW"
    "has_flag (cow_entry e p) PAGE_FLAG_PRESENT = has_flag e PAGE_FLAG_PRESENT"
    by (auto simp: cow_entry_def has_flag_bit b)
  show "same_flags e (cow_entry e p)"
    unfolding same_flags_def cow_entry_def by (rule bit_word_eqI) (auto simp: b)
qed

lemma promote_entry_facts:
  "entry_phys (promote_entry e) = entry_phys e" "has_flag (promote_entry e) PAGE_FLAG_RW"
  "\<not> has_flag (promote_entry e) PAGE_FLAG_COW" "same_flags e (promote_entry e)"
  "has_flag (promote_entry e) PAGE_FLAG_PRESENT = has_flag e PAGE_FLAG_PRESENT"
proof -
  note b = bit_simps PAGE_MASK_bits flag_bits
  have "promote_entry e AND PAGE_MASK = e AND PAGE_MASK"
    unfolding promote_entry_def by (rule bit_word_eqI) (auto simp: b)
  then show "entry_phys (promote_entry e) = entry_phys e" by (simp add: entry_phys_def)
  show "has_flag (promote_entry e) PAGE_FLAG_RW" "\<not> has_flag (promote_entry e) PAGE_FLAG_COW"
    "has_flag (promote_entry e) PAGE_FLAG_PRESENT = has_flag e PAGE_FLAG_PRESENT"
    by (auto simp: promote_entry_def has_flag_bit b)
  show "same_flags e (promote_entry e)"
    unfolding same_flags_def promote_entry_def by (rule bit_word_eqI) (auto simp: b)
qed

lemma entry_phys_aligned: "4096 dvd entry_phys e" "entry_phys e < 2 ^ 52"
proof -
  define x where "x = take_bit 40 (drop_bit 12 e)"
  have "e AND PAGE_MASK = push_bit 12 x"
    unfolding x_def by (rule bit_word_eqI) (auto simp: bit_simps PAGE_MASK_bits)
  then have e: "e AND PAGE_MASK = x * 4096" by (simp add: push_bit_eq_mult)
  have "unat x < 2 ^ 40" unfolding x_def by (subst unsigned_take_bit_eq) (simp add: take_bit_eq_mod)
  then have "entry_phys e = 4096 * unat x" "unat x < 2 ^ 40"
    unfolding entry_phys_def e by (simp_all add: unat_word_ariths)
  then show "4096 dvd entry_phys e" "entry_phys e < 2 ^ 52" by simp_all
qed


definition cow_resolved :: "nat \<Rightarrow> vmm_state \<Rightarrow> u64 \<Rightarrow> u64 \<Rightarrow> vmm_state \<Rightarrow> bool" where
  "cow_resolved t s va e s' \<longleftrightarrow> vmm_ok s' t \<and>
     (\<exists>e'. has_flag e' PAGE_FLAG_RW \<and> \<not> has_flag e' PAGE_FLAG_COW \<and> same_flags e e' \<and>
        (\<forall>q. vpath 4 q \<and> length q = 4 \<longrightarrow>
           aspace (mem s') t q = (if q = va_path va then Some (0, e') else aspace (mem s) t q)) \<and>
        (\<forall>i<512. mem s' (entry_phys e' + 8 * i) = mem s (entry_phys e + 8 * i)) \<and>
        (\<forall>i<512. mem s' (entry_phys e + 8 * i) = mem s (entry_phys e + 8 * i)) \<and>
        (if pmm_get_ref (pmm s) (entry_phys e) > 1
         then entry_phys e' div 4096 \<in> free_set (pmm s) \<and>
              pmm_get_ref (pmm s') (entry_phys e) = pmm_get_ref (pmm s) (entry_phys e) - 1
         else entry_phys e' = entry_phys e))"

text \<open>A page of the current owner only.\<close>

lemma cow_sole:
  assumes ok: "vmm_ok s t" and a: "aspace (mem s) t (va_path va) = Some (0, e)"
    and u: "tab (mem s) t [pml4_index va, pdpt_index va, pd_index va] = Some u"
    and r: "\<not> pmm_get_ref (pmm s) (entry_phys e) > 1" and n: "entry_phys e \<notin> page_tables (mem s) t"
  shows "cow_resolved t s va e (vmm_flush_tlb (va AND PAGE_MASK) (wr u (pt_index va) (promote_entry e) s))"
proof -
  let ?v = "va AND PAGE_MASK" and ?e = "promote_entry e"
  let ?s = "vmm_flush_tlb ?v (wr u (pt_index va) ?e s)"
  note f = promote_entry_facts[of e]
  have "mapped t s ?v ?e ?s"
    using ok u f(5) aspace_leaf(5)[OF a]
    by (intro map_leaf[of _ _ "[pml4_index va, pdpt_index va, pd_index va]"])
      (auto simp: level_done_def table_step_refl va_path_def)
  then have m: "vmm_ok ?s t" "table_step t s ?s"
    "\<And>q. vpath 4 q \<Longrightarrow> length q = 4 \<Longrightarrow> aspace (mem ?s) t q = (if q = va_path va then Some (0, ?e) else aspace (mem s) t q)"
    by (auto simp: mapped_def)
  have u': "u \<in> page_tables (mem s) t" using table_in[OF _ u] index_bounds by simp
  have "mem ?s (entry_phys e + 8 * i) = mem s (entry_phys e + 8 * i)" if "i < 512" for i
    using entry_apart[OF vmm_okD(2)[OF ok] u' index_bounds(4) entry_phys_aligned(1) n, of "entry_phys e + 8 * i"] that
    by (auto simp: words_def)
  then show ?thesis unfolding cow_resolved_def using m(1,3) f r by (intro conjI exI[of _ ?e]) auto
qed


text \<open>A page with more references is managed, and its count goes down by one.\<close>

lemma shared_page:
  assumes "pmm_inv s" "pmm_get_ref s a > 1"
  shows "a \<noteq> 0" "in_bounds s (a div 4096)" "page_managed s (a div 4096)"
    "page_ref s (a div 4096) = pmm_get_ref s a"
proof -
  have m: "a \<noteq> 0" "pmm_is_managed s a" using assms(2) by (auto simp: pmm_get_ref_def split: if_splits)
  have a: "a = (a div 4096) * PAGE_SIZE + a mod PAGE_SIZE" by (simp add: PAGE_SIZE_def)
  show "a \<noteq> 0" by (rule m)
  show b: "in_bounds s (a div 4096)"
    using m(2) by (auto simp: pmm_is_managed_def Let_def in_bounds_def PAGE_SIZE_def split: if_splits)
  show "page_managed s (a div 4096)"
    using pmm_is_managed_page[OF pmm_inv_geometry[OF assms(1)] b, of "a mod PAGE_SIZE"] m(2) a
    by (simp add: PAGE_SIZE_def)
  show "page_ref s (a div 4096) = pmm_get_ref s a" using m by (simp add: pmm_get_ref_def page_ref_def PAGE_SIZE_def)
qed

lemma decref_shared:
  assumes i: "pmm_inv s" and r: "pmm_get_ref s a > 1"
  shows "pmm_inv (pmm_decref s a)" "free_set (pmm_decref s a) = free_set s"
    "pmm_get_ref (pmm_decref s a) a = pmm_get_ref s a - 1"
proof -
  note sp = shared_page[OF i r]
  let ?i = "a div 4096 - lowest_page s"
  have m: "pmm_is_managed s a" using r by (auto simp: pmm_get_ref_def split: if_splits)
  have l: "?i < length (refcounts s)"
    using pmm_inv_geometry[OF i] sp(2) by (auto simp: pmm_geometry_def in_bounds_def)
  have g: "pmm_get_ref s a = refcounts s ! ?i" using m sp(1) by (simp add: pmm_get_ref_def PAGE_SIZE_def)
  have "refcounts s ! ?i > 0" "refcounts s ! ?i - 1 \<noteq> 0"
    using r g by (auto simp: word_gt_0 word_less_nat_alt)
  then have d: "pmm_decref s a = s\<lparr>refcounts := (refcounts s)[?i := refcounts s ! ?i - 1]\<rparr>"
    using sp(1) m l by (simp add: pmm_decref_def Let_def PAGE_SIZE_def)
  show "pmm_inv (pmm_decref s a)" unfolding d by (rule set_ref_inv[OF i])
  show "free_set (pmm_decref s a) = free_set s" unfolding d by simp
  have "pmm_is_managed (pmm_decref s a) a = pmm_is_managed s a" unfolding d by (simp add: pmm_is_managed_def)
  then show "pmm_get_ref (pmm_decref s a) a = pmm_get_ref s a - 1"
    using m l g sp(1) unfolding d by (simp add: pmm_get_ref_def PAGE_SIZE_def)
qed

text \<open>Allocation of another page does not change the count.\<close>

lemma get_ref_alloc:
  assumes i: "pmm_inv s" and al: "pmm_alloc_page s = Some (p, s')" "p \<noteq> 0" and n: "a div 4096 \<notin> free_set s"
    and r: "pmm_get_ref s a > 1"
  shows "pmm_get_ref s' a = pmm_get_ref s a"
proof -
  note sp = shared_page[OF i r]
  from pmm_alloc_page_cases[OF i] al obtain q where q: "pmm_inv s'" "q \<in> free_set s"
    "page_managed s' = page_managed s" "lowest_page s' = lowest_page s" "highest_page s' = highest_page s"
    "\<forall>x. lowest_page s \<le> x \<longrightarrow> page_ref s' x = (if x = q then 1 else page_ref s x)"
    by auto
  let ?p = "a div 4096" and ?o = "a mod PAGE_SIZE"
  have a: "?p * PAGE_SIZE + ?o = a" and o: "?o < PAGE_SIZE" by (simp_all add: PAGE_SIZE_def)
  have b: "in_bounds s' ?p" using sp(2) q(4,5) by (simp add: in_bounds_def)
  have "pmm_is_managed s' a"
    using pmm_is_managed_page[OF pmm_inv_geometry[OF q(1)] b o] q(3) sp(3) a by simp
  then have "pmm_get_ref s' a = page_ref s' ?p"
    using sp(1) by (simp add: pmm_get_ref_def page_ref_def PAGE_SIZE_def)
  also have "\<dots> = page_ref s ?p" using q(2,6) n sp(2) by (auto simp: in_bounds_def)
  finally show ?thesis using sp(4) by simp
qed

text \<open>Filling a fresh page leaves the tables alone.\<close>

lemma fresh_page:
  assumes ok: "vmm_ok s t" and al: "pmm_alloc_page (pmm s) = Some (a, q)" "a \<noteq> 0"
    and s1: "pmm s1 = q" "\<And>x. x \<notin> words a \<Longrightarrow> mem s1 x = mem s x"
  shows "4096 dvd a" "a < 2 ^ 52" "a div 4096 \<in> free_set (pmm s)" "a div 4096 \<notin> free_set q"
    "a \<notin> page_tables (mem s) t" "same_tables (mem s) t (mem s1)" "vmm_ok s1 t"
proof -
  note i = vmm_okD(1)[OF ok] and wf = vmm_okD(2)[OF ok]
  note g = pa.alloc_gives[OF i al]
  show a: "4096 dvd a" and "a div 4096 \<in> free_set (pmm s)" "a div 4096 \<notin> free_set q" using g by auto
  show "a < 2 ^ 52" by (rule pa.alloc_bound[OF i al])
  show na: "a \<notin> page_tables (mem s) t" using vmm_okD(3)[OF ok] g by (auto simp: table_pages_def)
  show same: "same_tables (mem s) t (mem s1)"
    unfolding same_tables_def using s1(2) words_disjoint[OF table_aligned[OF wf] a] na by (auto simp: words_def)
  show "vmm_ok s1 t"
    using pt_wf_frame(1,2)[OF same wf] pa.alloc_inv[OF i al(1)] vmm_okD(3)[OF ok] g s1(1)
    by (auto simp: vmm_ok_def table_pages_def)
qed

lemma cow_copy:
  assumes ok: "vmm_ok s t" and a: "aspace (mem s) t (va_path va) = Some (0, e)"
    and u: "tab (mem s) t [pml4_index va, pdpt_index va, pd_index va] = Some u"
    and r: "pmm_get_ref (pmm s) (entry_phys e) > 1" and n: "entry_phys e \<notin> page_tables (mem s) t"
    and nf: "entry_phys e div 4096 \<notin> free_set (pmm s)"
    and al: "pmm_alloc_page (pmm s) = Some (p, q)" "p \<noteq> 0"
  defines "s2 \<equiv> copy_words p (entry_phys e) 0 512 (s\<lparr>pmm := q\<rparr>)"
  shows "rd s2 u (pt_index va) = e"
    "cow_resolved t s va e (vmm_flush_tlb (va AND PAGE_MASK)
       ((wr u (pt_index va) (cow_entry e p) s2)\<lparr>pmm := pmm_decref q (entry_phys e)\<rparr>))"
proof -
  let ?old = "entry_phys e" and ?v = "va AND PAGE_MASK" and ?e = "cow_entry e p"
  let ?s3 = "vmm_flush_tlb ?v (wr u (pt_index va) ?e s2)"
  let ?s4 = "vmm_flush_tlb ?v ((wr u (pt_index va) ?e s2)\<lparr>pmm := pmm_decref q ?old\<rparr>)"
  note i = vmm_okD(1)[OF ok] and wf = vmm_okD(2)[OF ok]
  have m2: "mem s2 x = mem s x" if "x \<notin> words p" for x
    using copy_words_other[of 0 512 x p ?old "s\<lparr>pmm := q\<rparr>"] that by (auto simp: s2_def words_def)
  have q2: "pmm s2 = q" by (simp add: s2_def)
  note fp = fresh_page[OF ok al q2 m2] and q = pa.alloc_inv[OF i al(1)]
  note p = fp(1,3,2) and pn = fp(5) and same = fp(6) and ok2 = fp(7)
  note f = cow_entry_facts[OF p(1,3), of e] and fr = pt_wf_frame[OF same wf]
  have po: "p \<noteq> ?old" using p(2) nf by auto
  have dj: "words p \<inter> words ?old = {}" using words_disjoint[OF p(1) entry_phys_aligned(1) po] .
  have c2: "mem s2 (p + 8 * j) = mem s (?old + 8 * j)" if "j < 512" for j
    using copy_words_mem[OF dj, of 512 j] that by (simp add: s2_def)
  have vp: "vpath 3 [pml4_index va, pdpt_index va, pd_index va]" using index_bounds by simp
  have u2: "tab (mem s2) t [pml4_index va, pdpt_index va, pd_index va] = Some u"
    using tab_frame[OF same vp] u by simp
  have u': "u \<in> page_tables (mem s) t" using table_in[OF vp u] .
  show "rd s2 u (pt_index va) = e"
    using same u' index_bounds(4)[of va] aspace_leaf(3)[OF a u] by (simp add: same_tables_def)
  have "mapped t s2 ?v ?e ?s3"
    using ok2 u2 f(5) aspace_leaf(5)[OF a]
    by (intro map_leaf[of _ _ "[pml4_index va, pdpt_index va, pd_index va]"])
      (auto simp: level_done_def table_step_refl va_path_def)
  then have m: "vmm_ok ?s3 t"
    "\<And>q. vpath 4 q \<Longrightarrow> length q = 4 \<Longrightarrow> aspace (mem ?s3) t q = (if q = va_path va then Some (0, ?e) else aspace (mem s2) t q)"
    by (auto simp: mapped_def)
  note gr = get_ref_alloc[OF i al nf r]
  note d = decref_shared[OF q, of ?old, unfolded gr, OF r]
  have ok4: "vmm_ok ?s4 t" using m(1) d(1,2) q2 by (simp add: vmm_ok_def table_pages_def)
  have w: "x \<noteq> u + 8 * pt_index va" if "y \<notin> page_tables (mem s) t" "4096 dvd y" "x \<in> words y" for x y
    using entry_apart[OF wf u' index_bounds(4) that(2,1,3)] .
  have "mem ?s4 (p + 8 * j) = mem s (?old + 8 * j)" "mem ?s4 (?old + 8 * j) = mem s (?old + 8 * j)" if "j < 512" for j
    using w[OF pn p(1), of "p + 8 * j"] w[OF n entry_phys_aligned(1), of "?old + 8 * j"] c2[OF that]
      m2[of "?old + 8 * j"] dj that by (auto simp: words_def)
  then show "cow_resolved t s va e ?s4"
    unfolding cow_resolved_def using ok4 m(2) fr(3) f p(2) d(3) r by (intro conjI exI[of _ ?e]) auto
qed


text \<open>The copy-on-write part of the handler, for a page that is mapped copy-on-write.\<close>

lemma cow_fault_spec:
  assumes ok: "vmm_ok s t" and a: "aspace (mem s) t (va_path va) = Some (0, e)"
    and c: "has_flag e PAGE_FLAG_COW" and n: "entry_phys e \<notin> page_tables (mem s) t"
    and nf: "entry_phys e div 4096 \<notin> free_set (pmm s)"
  shows "(\<exists>s'. cow_fault t va s = Some (Some 0, s') \<and> cow_resolved t s va e s') \<or>
    (cow_fault t va s = Some (Some (- 1), s) \<and> free_set (pmm s) = {} \<and> pmm_get_ref (pmm s) (entry_phys e) > 1)"
proof -
  let ?e4 = "rd s t (pml4_index va)"
  let ?e3 = "rd s (entry_phys ?e4) (pdpt_index va)"
  let ?e2 = "rd s (entry_phys ?e3) (pd_index va)"
  obtain u where u: "tab (mem s) t [pml4_index va, pdpt_index va, pd_index va] = Some u"
    using aspace_leaf(4)[OF a] by blast
  then have tb: "is_table ?e4" "is_table ?e3" "is_table ?e2" and eu: "entry_phys ?e2 = u"
    by (auto split: if_splits)
  have e: "rd s u (pt_index va) = e" using aspace_leaf(3)[OF a u] by simp
  note fl = tb[unfolded is_table_def] and pr = aspace_leaf(5)[OF a]
  show ?thesis
  proof (cases "pmm_get_ref (pmm s) (entry_phys e) > 1")
    case False
    then have "cow_fault t va s = Some (Some 0,
        vmm_flush_tlb (va AND PAGE_MASK) (wr u (pt_index va) (promote_entry e) s))"
      using fl pr c e by (simp add: cow_fault_def eu Let_def promote_entry_def)
    then show ?thesis using cow_sole[OF ok a u False n] by blast
  next
    case True
    show ?thesis
    proof (cases rule: pa.alloc_cases[OF vmm_okD(1)[OF ok]])
      case 1
      then have "cow_fault t va s = Some (Some (- 1), s)"
        using fl pr c e True by (simp add: cow_fault_def eu Let_def alloc_page_def)
      then show ?thesis using 1 True by blast
    next
      case (2 p q)
      note cc = cow_copy[OF ok a u True n nf 2(1,2)]
      show ?thesis
        using cc(2) fl pr c e True 2(1,2) cc(1)
        by (simp add: cow_fault_def eu Let_def alloc_page_def cow_entry_def)
    qed
  qed
qed

section \<open>Demand paging\<close>

definition paged_in :: "nat \<Rightarrow> vmm_state \<Rightarrow> u64 \<Rightarrow> u64 \<Rightarrow> vmm_state \<Rightarrow> bool" where
  "paged_in t s va flags s' \<longleftrightarrow> vmm_ok s' t \<and>
     (\<exists>frame. frame div 4096 \<in> free_set (pmm s) \<and>
        (\<forall>q. vpath 4 q \<and> length q = 4 \<longrightarrow> aspace (mem s') t q =
           (if q = va_path va then Some (0, map_entry (of_nat frame) flags) else aspace (mem s) t q)) \<and>
        entry_phys (map_entry (of_nat frame) flags) = frame \<and>
        (\<forall>i<512. mem s' (frame + 8 * i) = 0))"

definition page_in_failed :: "nat \<Rightarrow> vmm_state \<Rightarrow> vmm_state \<Rightarrow> bool" where
  "page_in_failed t s s' \<longleftrightarrow> vmm_ok s' t \<and> card (free_set (pmm s')) \<le> 1 \<and>
     (\<forall>q. vpath 4 q \<and> length q = 4 \<longrightarrow> aspace (mem s') t q = aspace (mem s) t q)"

lemma dp_flags_bits: "bit (dp_build_flags prot) n \<Longrightarrow> n < 12 \<or> 52 \<le> n"
  unfolding dp_build_flags_def Let_def by (auto simp: bit_or_iff flag_bits split: if_splits)

lemma map_entry_phys:
  assumes "4096 dvd p" "p < 2 ^ 52"
  shows "entry_phys (map_entry (of_nat p) (dp_build_flags prot)) = p"
proof -
  have "map_entry (of_nat p) (dp_build_flags prot) = of_nat p OR (dp_build_flags prot OR PAGE_FLAG_PRESENT)"
    using page_mask[OF assms] by (simp add: map_entry_def)
  moreover have "n < 12 \<or> 52 \<le> n" if "bit (dp_build_flags prot OR PAGE_FLAG_PRESENT) n" for n
    using that dp_flags_bits[of prot n] by (auto simp: bit_or_iff flag_bits)
  ultimately show ?thesis using page_entry[OF assms] by simp
qed


lemma frame_not_table:
  assumes "table_step t s s'" "a \<notin> page_tables (mem s) t" "a div 4096 \<notin> free_set (pmm s)"
  shows "a \<notin> page_tables (mem s') t"
  using table_stepD(2)[OF assms(1)] assms(2,3) by blast

lemma raise_exit_fields [simp]:
  "mem (raise_exit ev s) = mem s" "pmm (raise_exit ev s) = pmm s"
  "exit_events (raise_exit ev s) = exit_events s @ [ev]"
  by (simp_all add: raise_exit_def)

lemma release_frame:
  assumes ok: "vmm_ok s t" and a: "4096 dvd a" "a \<notin> page_tables (mem s) t" "a div 4096 \<notin> free_set (pmm s)"
  shows "vmm_ok (free_page a s) t" "free_set (pmm (free_page a s)) \<subseteq> insert (a div 4096) (free_set (pmm s))"
proof -
  have "a div 4096 \<notin> table_pages s t"
    using page_number_inj[OF a(1) table_aligned[OF vmm_okD(2)[OF ok]]] a(2) by (auto simp: table_pages_def)
  moreover have f: "free_set (pmm_free_page (pmm s) a) \<subseteq> insert (a div 4096) (free_set (pmm s))"
    using pa.release_gives[OF vmm_okD(1)[OF ok] a(3)] by blast
  ultimately have "table_pages s t \<inter> free_set (pmm_free_page (pmm s) a) = {}" using vmm_okD(3)[OF ok] by blast
  then show "vmm_ok (free_page a s) t"
    using ok pa.release_inv[OF vmm_okD(1)[OF ok] a(3)] by (simp add: vmm_ok_def table_pages_def)
  show "free_set (pmm (free_page a s)) \<subseteq> insert (a div 4096) (free_set (pmm s))" using f by simp
qed

lemma vmm_ok_raise [simp]: "vmm_ok (raise_exit ev s) t = vmm_ok s t"
  by (simp add: vmm_ok_def table_pages_def)

lemma demand_page_spec:
  assumes ok: "vmm_ok s t" and nh: "no_huge (mem s) t (va_path va)"
  shows "\<exists>r s'. demand_page th t va user prot s = Some (r, s') \<and>
    ((r = 0 \<and> exit_events s' = exit_events s \<and> paged_in t s va (dp_build_flags prot) s') \<or>
     (r = (if user then 0 else - 1) \<and> page_in_failed t s s' \<and>
      exit_events s' = exit_events s @ (if user then [Sched_terminate_thread (t_tid th)] else [])))"
proof (cases rule: pa.alloc_cases[OF vmm_okD(1)[OF ok]])
  case 1
  then show ?thesis using ok
    by (auto simp: demand_page_def alloc_page_def page_in_failed_def)
next
  case (2 a q)
  let ?s1 = "clear_words a 0 512 (s\<lparr>pmm := q\<rparr>)" and ?f = "dp_build_flags prot"
  have m1: "mem ?s1 x = mem s x" if "x \<notin> words a" for x using that by (auto simp: clear_words_mem words_def)
  have p1: "pmm ?s1 = q" by simp
  note fp = fresh_page[OF ok 2(1,2) p1 m1]
  note pf = pt_wf_frame[OF fp(6) vmm_okD(2)[OF ok]]
  have nh1: "no_huge (mem ?s1) t (va_path (va AND NOT 0xFFF))" using nh pf(3) by (simp add: no_huge_def)
  have na: "a \<notin> page_tables (mem ?s1) t" using fp(5) pf(2) by simp
  obtain r s2 where r: "vmm_map_page t (va AND NOT 0xFFF) (of_nat a) ?f ?s1 = Some (r, s2)"
    "if r then mapped t ?s1 (va AND NOT 0xFFF) (map_entry (of_nat a) ?f) s2 else map_failed t ?s1 s2"
    using vmm_map_page_spec[OF fp(7) nh1] by blast
  show ?thesis
  proof (cases r)
    case True
    then have m: "mapped t ?s1 (va AND NOT 0xFFF) (map_entry (of_nat a) ?f) s2" using r(2) by simp
    then have st: "table_step t ?s1 s2" by (simp add: mapped_def)
    have a2: "a \<notin> page_tables (mem s2) t" using frame_not_table[OF st na] fp(4) by simp
    have "mem s2 (a + 8 * i) = 0" if "i < 512" for i
      using table_stepD(4)[OF st fp(1) a2, of "a + 8 * i"] that by (auto simp: words_def clear_words_mem)
    then have "paged_in t s va ?f s2"
      using m pf(3) fp(1-3) map_entry_phys[OF fp(1,2)] unfolding paged_in_def mapped_def by (auto intro!: exI[of _ a])
    moreover have "exit_events s2 = exit_events s" using st by (simp add: table_step_def)
    ultimately show ?thesis using 2(1,2) r(1) True by (simp add: demand_page_def alloc_page_def Let_def)
  next
    case False
    then have m: "map_failed t ?s1 s2" using r(2) by simp
    then have st: "table_step t ?s1 s2" and ok2: "vmm_ok s2 t" by (simp_all add: map_failed_def)
    have a2: "a \<notin> page_tables (mem s2) t" using frame_not_table[OF st na] fp(4) by simp
    have "a div 4096 \<notin> free_set (pmm s2)" using table_stepD(3)[OF st] fp(4) by auto
    note rf = release_frame[OF ok2 fp(1) a2 this]
    have e: "free_set (pmm s2) = {}" using m by (simp add: map_failed_def)
    have "card (free_set (pmm (free_page a s2))) \<le> 1" using card_mono[OF _ rf(2)[unfolded e]] by simp
    then have "page_in_failed t s (free_page a s2)"
      using rf(1) m pf(3) fp(4) by (auto simp: page_in_failed_def map_failed_def)
    moreover have "exit_events s2 = exit_events s" using st by (simp add: table_step_def)
    ultimately show ?thesis using 2(1,2) r(1) False fp(4)
      by (auto simp: demand_page_def alloc_page_def Let_def page_in_failed_def)
  qed
qed

end
