(* ===== verification/Kernel_Pages.thy ===== *)
theory Kernel_Pages
  imports Vmm_User
begin

text \<open>
  Pages of the kernel's own address space, as the allocators of kernel memory use them: a
  virtual page backed by a frame that only its owner refers to, and the step both allocators
  make, which takes a frame and maps it at the next virtual page.
\<close>

unbundle bit_operations_syntax

section \<open>Backed pages\<close>

definition frame :: "vmm_state \<Rightarrow> nat \<Rightarrow> u64 \<Rightarrow> nat" where
  "frame v t p = (case aspace (mem v) t (va_path p) of None \<Rightarrow> 0 | Some (l, e) \<Rightarrow> entry_phys e)"

definition backed_page :: "vmm_state \<Rightarrow> nat \<Rightarrow> u64 \<Rightarrow> bool" where
  "backed_page v t p \<longleftrightarrow>
     (\<exists>e. aspace (mem v) t (va_path p) = Some (0, e)) \<and> frame v t p \<notin> page_tables (mem v) t \<and>
     owned_page (pmm v) (frame v t p div 4096)"

definition backed :: "vmm_state \<Rightarrow> nat \<Rightarrow> u64 set \<Rightarrow> bool" where
  "backed v t ps \<longleftrightarrow> (\<forall>p\<in>ps. backed_page v t p) \<and> inj_on (frame v t) ps"

lemma frame_aligned: "4096 dvd frame v t p"
  using entry_phys_aligned(1) by (auto simp: frame_def split: option.splits)

lemma backed_subset: "backed v t ps \<Longrightarrow> qs \<subseteq> ps \<Longrightarrow> backed v t qs"
  unfolding backed_def by (auto intro: inj_on_subset)

text \<open>Steps that keep the entries of the pages and their frames.\<close>

lemma backed_step:
  assumes b: "backed v t ps" and a: "\<And>p. p \<in> ps \<Longrightarrow> aspace (mem v') t (va_path p) = aspace (mem v) t (va_path p)"
    and f: "\<And>p. p \<in> ps \<Longrightarrow> frame v t p \<notin> page_tables (mem v') t"
    and o: "\<And>p. p \<in> ps \<Longrightarrow> owned_page (pmm v') (frame v t p div 4096)"
  shows "backed v' t ps"
proof -
  have "frame v' t p = frame v t p" if "p \<in> ps" for p using a[OF that] by (simp add: frame_def)
  moreover from this have "inj_on (frame v' t) ps" using b by (simp add: backed_def cong: inj_on_cong)
  ultimately show ?thesis using b a f o by (simp add: backed_def backed_page_def)
qed

lemma backed_table_step:
  assumes b: "backed v t ps" and st: "table_step t v v'"
    and a: "\<And>p. p \<in> ps \<Longrightarrow> aspace (mem v') t (va_path p) = aspace (mem v) t (va_path p)"
  shows "backed v' t ps"
proof (rule backed_step[OF b a])
  fix p assume "p \<in> ps"
  then have p: "frame v t p \<notin> page_tables (mem v) t" "owned_page (pmm v) (frame v t p div 4096)"
    using b by (auto simp: backed_def backed_page_def)
  show "frame v t p \<notin> page_tables (mem v') t"
    using frame_not_table[OF st p(1)] p(2) by (simp add: owned_page_def)
  show "owned_page (pmm v') (frame v t p div 4096)" by (rule pmm_keeps_owned[OF table_stepD(5)[OF st] p(2)])
qed

lemma map_entry_frame:
  assumes "4096 dvd a" "a < 2 ^ 52" "flags AND PAGE_MASK = 0"
  shows "entry_phys (map_entry (of_nat a) flags) = a"
proof -
  have "map_entry (of_nat a) flags = of_nat a OR (flags OR PAGE_FLAG_PRESENT)"
    using page_mask[OF assms(1,2)] by (simp add: map_entry_def)
  moreover have "n < 12 \<or> 52 \<le> n" if "bit (flags OR PAGE_FLAG_PRESENT) n" for n
    using that arg_cong[OF assms(3), of "\<lambda>w. bit w n"] by (auto simp: bit_or_iff bit_and_iff PAGE_MASK_bits flag_bits)
  ultimately show ?thesis using page_entry[OF assms(1,2)] by simp
qed

section \<open>How many pages a mapping takes\<close>

definition spends :: "nat \<Rightarrow> vmm_state \<Rightarrow> vmm_state \<Rightarrow> bool" where
  "spends n v v' \<longleftrightarrow> pmm_inv (pmm v') \<and> card (free_set (pmm v)) \<le> card (free_set (pmm v')) + n"

lemma spends_trans: "spends m v v1 \<Longrightarrow> spends n v1 v2 \<Longrightarrow> m + n \<le> k \<Longrightarrow> spends k v v2"
  by (simp add: spends_def)

lemma alloc_page_spends:
  assumes "pmm_inv (pmm v)" "alloc_page v = Some (a, v')" shows "spends 1 v v'"
  using assms(1)
proof (cases rule: pa.alloc_cases)
  case fail
  then show ?thesis using assms by (simp add: alloc_page_def spends_def)
next
  case (page b q)
  then have "v' = v\<lparr>pmm := q\<rparr>" using assms(2) by (simp add: alloc_page_def)
  moreover have "card (free_set (pmm v)) \<le> card (free_set (pmm v) - {b div 4096}) + 1" by (cases "card (free_set (pmm v))") (simp_all add: card_Diff_singleton_if)
  ultimately show ?thesis using page by (simp add: spends_def)
qed

lemma map_level_spends:
  assumes "pmm_inv (pmm v)" "map_level cur i f v = Some (r, v')" shows "spends 1 v v'"
proof (cases "has_flag (rd v cur i) PAGE_FLAG_PRESENT")
  case True
  then show ?thesis using assms by (auto simp: map_level_def get_next_level_def spends_def)
next
  case False
  then obtain a v1 where a: "alloc_page v = Some (a, v1)" "pmm v' = pmm v1"
    using assms(2) by (auto simp: map_level_def get_next_level_def split: if_splits option.splits Option.bind_splits)
  then show ?thesis using alloc_page_spends[OF assms(1) a(1)] by (simp add: spends_def)
qed

lemma vmm_map_page_spends:
  assumes "pmm_inv (pmm v)" "vmm_map_page t va pa f v = Some (r, v')" shows "spends 3 v v'"
proof -
  have w: "pmm (vmm_flush_tlb va (wr pt i e s)) = pmm s" for pt i e s by (simp add: vmm_flush_tlb_def)
  let ?f = "f AND (PAGE_FLAG_USER OR PAGE_FLAG_RW)"
  obtain r1 v1 where l1: "map_level t (pml4_index va) ?f v = Some (r1, v1)"
    using assms(2) by (auto simp: vmm_map_page_def Let_def split: Option.bind_splits)
  note s1 = map_level_spends[OF assms(1) l1]
  then have i1: "pmm_inv (pmm v1)" by (simp add: spends_def)
  show ?thesis
  proof (cases r1)
    case None
    then show ?thesis using assms(2) l1 s1 by (auto simp: vmm_map_page_def spends_def)
  next
    case (Some t1)
    then obtain r2 v2 where l2: "map_level t1 (pdpt_index va) ?f v1 = Some (r2, v2)"
      using assms(2) l1 by (auto simp: vmm_map_page_def Let_def split: Option.bind_splits)
    note s2 = map_level_spends[OF i1 l2]
    then have i2: "pmm_inv (pmm v2)" by (simp add: spends_def)
    show ?thesis
    proof (cases r2)
      case None
      then show ?thesis using assms(2) l1 l2 \<open>r1 = Some t1\<close> spends_trans[OF s1 s2, of 3] by (auto simp: vmm_map_page_def)
    next
      case (Some t2)
      then obtain r3 v3 where l3: "map_level t2 (pd_index va) ?f v2 = Some (r3, v3)"
        using assms(2) l1 l2 \<open>r1 = Some t1\<close> by (auto simp: vmm_map_page_def Let_def split: Option.bind_splits)
      have "pmm v' = pmm v3"
        using assms(2) l1 l2 l3 \<open>r1 = Some t1\<close> Some w by (auto simp: vmm_map_page_def Let_def split: option.splits)
      then show ?thesis
        using spends_trans[OF spends_trans[OF s1 s2 order.refl] map_level_spends[OF i2 l3], of 3] by (simp add: spends_def)
    qed
  qed
qed

section \<open>A frame for the next page\<close>

text \<open>New page tables come from free pages, and pages with an owner keep it.\<close>

definition vmm_grown :: "nat \<Rightarrow> vmm_state \<Rightarrow> vmm_state \<Rightarrow> bool" where
  "vmm_grown t v v' \<longleftrightarrow> (\<forall>q. owned_page (pmm v) q \<longrightarrow> owned_page (pmm v') q) \<and>
     (\<forall>x\<in>page_tables (mem v') t. x \<in> page_tables (mem v) t \<or> x div 4096 \<in> free_set (pmm v))"

lemma vmm_grown_refl: "vmm_grown t v v"
  by (simp add: vmm_grown_def)

lemma vmm_grown_table_step: "table_step t v v' \<Longrightarrow> vmm_grown t v v'"
  using table_stepD(2) pmm_keeps_owned[OF table_stepD(5)] by (auto simp: vmm_grown_def)

lemma vmm_grown_owned:
  assumes "vmm_grown t v v'" "owned_page (pmm v) (x div 4096)" "x \<notin> page_tables (mem v) t"
  shows "owned_page (pmm v') (x div 4096)" "x \<notin> page_tables (mem v') t"
  using assms by (auto simp: vmm_grown_def owned_page_def)

definition page_added :: "nat \<Rightarrow> vmm_state \<Rightarrow> u64 \<Rightarrow> u64 set \<Rightarrow> vmm_state \<Rightarrow> bool" where
  "page_added t v va ps v' \<longleftrightarrow> vmm_ok v' t \<and> backed v' t (insert va ps) \<and> cr3 v' = cr3 v \<and> vmm_grown t v v' \<and>
     frame v' t va div 4096 \<in> free_set (pmm v) \<and>
     (\<forall>q. vpath 4 q \<and> length q = 4 \<and> q \<noteq> va_path va \<longrightarrow> aspace (mem v') t q = aspace (mem v) t q)"

definition page_refused :: "nat \<Rightarrow> vmm_state \<Rightarrow> u64 set \<Rightarrow> vmm_state \<Rightarrow> bool" where
  "page_refused t v ps v' \<longleftrightarrow> vmm_ok v' t \<and> backed v' t ps \<and> cr3 v' = cr3 v \<and> vmm_grown t v v' \<and> card (free_set (pmm v)) \<le> 4 \<and>
     (\<forall>q. vpath 4 q \<and> length q = 4 \<longrightarrow> aspace (mem v') t q = aspace (mem v) t q)"

lemma new_page_spec:
  assumes ok: "vmm_ok v t" and b: "backed v t ps" and va: "aspace (mem v) t (va_path va) = None"
    and fl: "flags AND PAGE_MASK = 0"
  obtains (none) "alloc_page v = Some (0, v)" "page_refused t v ps v"
  | (page) a v1 v2 where "alloc_page v = Some (a, v1)" "a \<noteq> 0" "cr3 v1 = cr3 v"
      "vmm_map_page t va (of_nat a) flags v1 = Some (True, v2)" "page_added t v va ps v2"
  | (refused) a v1 v2 where "alloc_page v = Some (a, v1)" "a \<noteq> 0" "cr3 v1 = cr3 v"
      "vmm_map_page t va (of_nat a) flags v1 = Some (False, v2)" "page_refused t v ps (free_page a v2)"
proof (cases rule: pa.alloc_cases[OF vmm_okD(1)[OF ok]])
  case 1
  then show thesis using none ok b by (simp add: alloc_page_def page_refused_def vmm_grown_refl)
next
  case (2 a q)
  let ?v1 = "v\<lparr>pmm := q\<rparr>"
  have al: "alloc_page v = Some (a, ?v1)" using 2(1) by (simp add: alloc_page_def)
  note fp = fresh_page[OF ok 2(1,2), of ?v1, simplified]
  note k = pmm_alloc_page_keeps[OF vmm_okD(1)[OF ok] 2(1)]
  have g: "vmm_grown t v v2" if "table_step t ?v1 v2" for v2
    using vmm_grown_table_step[OF that] pmm_keeps_owned[OF k(1)] k(1) by (auto simp: vmm_grown_def pmm_keeps_def)
  have b1: "backed ?v1 t ps"
    by (rule backed_step[OF b]) (use b k in \<open>auto simp: backed_def backed_page_def intro: pmm_keeps_owned\<close>)
  have nf: "frame v t p \<noteq> a" if "p \<in> ps" for p
    using b that fp(3) by (auto simp: backed_def backed_page_def owned_page_def)
  have nh: "no_huge (mem ?v1) t (va_path va)" using va by (simp add: no_huge_def)
  obtain r v2 where r: "vmm_map_page t va (of_nat a) flags ?v1 = Some (r, v2)"
    "if r then mapped t ?v1 va (map_entry (of_nat a) flags) v2 else map_failed t ?v1 v2"
    using vmm_map_page_spec[OF fp(7) nh] by blast
  have o1: "owned_page q (a div 4096)" by (rule k(2)[OF 2(2)])
  show thesis
  proof (cases r)
    case True
    have m: "vmm_ok v2 t" "table_step t ?v1 v2"
      "\<forall>q. vpath 4 q \<and> length q = 4 \<longrightarrow> aspace (mem v2) t q =
         (if q = va_path va then Some (0, map_entry (of_nat a) flags) else aspace (mem v) t q)"
      using r(2) True by (auto simp: mapped_def)
    have ne: "va_path p \<noteq> va_path va" if "p \<in> ps" for p
      using b va that by (auto simp: backed_def backed_page_def)
    have b2: "backed v2 t ps" by (rule backed_table_step[OF b1 m(2)]) (use m(3) ne in auto)
    have fa: "frame v2 t va = a" using m(3) map_entry_frame[OF 2(4,6) fl] by (simp add: frame_def)
    have eq: "frame v2 t p = frame v t p" if "p \<in> ps" for p using m(3) ne[OF that] by (simp add: frame_def)
    have "backed_page v2 t va"
      unfolding backed_page_def fa
      using m(3) frame_not_table[OF m(2)] fp(4,5) pmm_keeps_owned[OF table_stepD(5)[OF m(2)]] o1 by simp
    moreover have "frame v2 t va \<notin> frame v2 t ` ps" using eq nf unfolding fa by force
    ultimately have "backed v2 t (insert va ps)" using b2 unfolding backed_def by (auto simp: inj_on_insert)
    moreover have "cr3 v2 = cr3 v" using m(2) by (simp add: table_step_def)
    ultimately show thesis using page[OF al 2(2)] r(1) True m(1,3) g[OF m(2)] fa 2(5) by (simp add: page_added_def)
  next
    case False
    have m: "vmm_ok v2 t" "table_step t ?v1 v2" "free_set (pmm v2) = {}"
      "\<forall>q. vpath 4 q \<and> length q = 4 \<longrightarrow> aspace (mem v2) t q = aspace (mem v) t q"
      using r(2) False by (auto simp: map_failed_def)
    have a2: "a \<notin> page_tables (mem v2) t" using frame_not_table[OF m(2)] fp(4,5) by simp
    have "a div 4096 \<notin> free_set (pmm v2)" using m(3) by simp
    note rf = release_frame(1)[OF m(1) 2(4) a2 this]
    have o2: "owned_page (pmm v2) (a div 4096)" using pmm_keeps_owned[OF table_stepD(5)[OF m(2)]] o1 by simp
    note fo = pmm_free_owned[OF vmm_okD(1)[OF m(1)] o2]
    have b2: "backed v2 t ps" by (rule backed_table_step[OF b1 m(2)]) (use m(4) in auto)
    have eq: "frame v2 t p = frame v t p" for p using m(4) by (simp add: frame_def)
    have "backed (free_page a v2) t ps"
    proof (rule backed_step[OF b2])
      fix p assume p: "p \<in> ps"
      show "aspace (mem (free_page a v2)) t (va_path p) = aspace (mem v2) t (va_path p)" by simp
      show "frame v2 t p \<notin> page_tables (mem (free_page a v2)) t"
        using b2 p by (simp add: backed_def backed_page_def)
      have "frame v2 t p div 4096 \<noteq> a div 4096"
        using page_number_inj[OF frame_aligned[of v2 t p] 2(4)] nf[OF p] eq[of p] by simp
      then show "owned_page (pmm (free_page a v2)) (frame v2 t p div 4096)"
        using fo(3) b2 p by (simp add: backed_def backed_page_def)
    qed
    moreover have "cr3 v2 = cr3 v" using m(2) by (simp add: table_step_def)
    moreover have "card (free_set (pmm v)) \<le> 4"
      using spends_trans[OF alloc_page_spends[OF vmm_okD(1)[OF ok] al] vmm_map_page_spends[OF _ r(1)], of 4] m(3) 2(3)
      by (simp add: spends_def)
    moreover have "vmm_grown t v (free_page a v2)"
    proof -
      have "owned_page (pmm (free_page a v2)) q" if "owned_page (pmm v) q" for q
        using that g[OF m(2)] fo(3)[of q] 2(5) by (auto simp: vmm_grown_def owned_page_def[of "pmm v"])
      then show ?thesis using g[OF m(2)] by (simp add: vmm_grown_def)
    qed
    ultimately show thesis using refused[OF al 2(2)] r(1) False rf m(4) by (simp add: page_refused_def)
  qed
qed

section \<open>Giving a page back\<close>

lemma owned_positive:
  assumes "pmm_inv q" "owned_page q p" shows "0 < p"
  using pmm_inv_geometry[OF assms(1)] assms(2) by (auto simp: pmm_geometry_def owned_page_def in_bounds_def)

lemma backed_phys:
  assumes ok: "vmm_ok v t" and b: "backed_page v t p" and p: "4096 dvd unat p"
  shows "vmm_virt_to_phys v t p \<noteq> 0" "unat (vmm_virt_to_phys v t p AND PAGE_MASK) = frame v t p"
    "unat (vmm_virt_to_phys v t p) = frame v t p"
proof -
  obtain e where e: "aspace (mem v) t (va_path p) = Some (0, e)" using b by (auto simp: backed_page_def)
  have "p AND 0xFFF = 0"
  proof -
    have m: "(0xFFF :: u64) = mask 12" by (simp add: mask_eq_exp_minus_1)
    have "unat (p AND 0xFFF) = unat p mod 4096"
      unfolding m by (simp only: take_bit_eq_mask[symmetric] unsigned_take_bit_eq) (simp add: take_bit_eq_mod)
    then show ?thesis using p by (metis dvd_imp_mod_0 unat_eq_zero)
  qed
  then have r: "vmm_virt_to_phys v t p = e AND PAGE_MASK"
    using vmm_virt_to_phys_aspace[OF vmm_okD(2)[OF ok], of p] e by (simp add: translate_def)
  have f: "frame v t p = unat (e AND PAGE_MASK)" using e by (simp add: frame_def entry_phys_def)
  show "unat (vmm_virt_to_phys v t p) = frame v t p" "unat (vmm_virt_to_phys v t p AND PAGE_MASK) = frame v t p"
    using r f by (simp_all add: and.assoc)
  have "0 < frame v t p div 4096" using owned_positive[OF vmm_okD(1)[OF ok]] b by (simp add: backed_page_def)
  then show "vmm_virt_to_phys v t p \<noteq> 0" using r f by auto
qed

lemma release_backed:
  assumes ok: "vmm_ok v t" and b: "backed v t (insert p ps)" "p \<notin> ps"
  shows "vmm_ok (free_page (frame v t p) v) t" "backed (free_page (frame v t p) v) t ps"
    "free_set (pmm (free_page (frame v t p) v)) = insert (frame v t p div 4096) (free_set (pmm v))"
proof -
  let ?f = "frame v t p"
  have o: "owned_page (pmm v) (?f div 4096)" "?f \<notin> page_tables (mem v) t"
    using b(1) by (simp_all add: backed_def backed_page_def)
  note fo = pmm_free_owned[OF vmm_okD(1)[OF ok] o(1)]
  have "?f div 4096 \<notin> free_set (pmm v)" using o(1) by (simp add: owned_page_def)
  then show "vmm_ok (free_page ?f v) t" by (rule release_frame(1)[OF ok frame_aligned o(2)])
  show "free_set (pmm (free_page ?f v)) = insert (?f div 4096) (free_set (pmm v))" using fo(2) by simp
  have b': "backed v t ps" using backed_subset[OF b(1)] by blast
  show "backed (free_page ?f v) t ps"
  proof (rule backed_step[OF b'])
    fix q assume q: "q \<in> ps"
    show "aspace (mem (free_page ?f v)) t (va_path q) = aspace (mem v) t (va_path q)" by simp
    show "frame v t q \<notin> page_tables (mem (free_page ?f v)) t" using b' q by (simp add: backed_def backed_page_def)
    have "frame v t q \<noteq> ?f" using b q unfolding backed_def inj_on_def by blast
    then have "frame v t q div 4096 \<noteq> ?f div 4096" using page_number_inj[OF frame_aligned frame_aligned] by blast
    then show "owned_page (pmm (free_page ?f v)) (frame v t q div 4096)"
      using fo(3) b' q by (simp add: backed_def backed_page_def)
  qed
qed

section \<open>The free part of the address range\<close>

lemma index_nat:
  "pml4_index va = unat va div 4096 div 512 div 512 div 512 mod 512"
  "pdpt_index va = unat va div 4096 div 512 div 512 mod 512"
  "pd_index va = unat va div 4096 div 512 mod 512"
  "pt_index va = unat va div 4096 mod 512"
proof -
  have m: "(0x1FF :: u64) = mask 9" by (simp add: mask_eq_exp_minus_1)
  have "unat (drop_bit k va AND 0x1FF) = unat va div 2 ^ k mod 512" for k
    unfolding m by (simp only: take_bit_eq_mask[symmetric] unsigned_take_bit_eq unat_drop_bit_eq)
      (simp add: drop_bit_eq_div take_bit_eq_mod)
  then show "pml4_index va = unat va div 4096 div 512 div 512 div 512 mod 512"
    "pdpt_index va = unat va div 4096 div 512 div 512 mod 512"
    "pd_index va = unat va div 4096 div 512 mod 512" "pt_index va = unat va div 4096 mod 512"
    by (simp_all add: pml4_index_def pdpt_index_def pd_index_def pt_index_def div_mult2_eq[symmetric])
qed

text \<open>In the kernel half, the path of an address determines its page.\<close>

lemma kernel_path_inj:
  assumes "0xFFFF800000000000 \<le> x" "0xFFFF800000000000 \<le> y" "va_path x = va_path y"
  shows "unat x div 4096 = unat y div 4096"
proof -
  have r: "X mod (512 * (512 * (512 * 512))) =
      X mod 512 + 512 * (X div 512 mod 512 + 512 * (X div 512 div 512 mod 512 + 512 * (X div 512 div 512 div 512 mod 512)))" for X :: nat
    by (simp only: mod_mult2_eq add.commute)
  have hi: "unat w div 4096 div 2 ^ 36 = 2 ^ 16 - 1" if "0xFFFF800000000000 \<le> w" for w :: u64
  proof -
    have "0xFFFF800000000000 \<le> unat w" "unat w < 2 ^ 64" using that unat_u64_less by (simp_all add: word_le_nat_alt)
    then show ?thesis by simp
  qed
  have "unat x div 4096 mod 2 ^ 36 = unat y div 4096 mod 2 ^ 36"
    using assms(3) r[of "unat x div 4096"] r[of "unat y div 4096"] by (simp add: va_path_def index_nat)
  then show ?thesis using hi[OF assms(1)] hi[OF assms(2)] by (metis div_mult_mod_eq)
qed

definition arena :: "vmm_state \<Rightarrow> nat \<Rightarrow> u64 \<Rightarrow> u64 \<Rightarrow> bool" where
  "arena v t lo hi \<longleftrightarrow> (\<forall>va. lo \<le> va \<and> va < hi \<longrightarrow> aspace (mem v) t (va_path va) = None)"

lemma arena_cong:
  assumes "arena v t lo hi" "\<forall>q. vpath 4 q \<and> length q = 4 \<longrightarrow> aspace (mem v') t q = aspace (mem v) t q" "lo \<le> lo'"
  shows "arena v' t lo' hi"
  using assms by (auto simp: arena_def)

lemma arena_added:
  assumes a: "arena v t c hi" and p: "page_added t v c ps v'"
    and c: "0xFFFF800000000000 \<le> c" "4096 dvd unat c" "unat c + 4096 < 2 ^ 64"
  shows "arena v' t (c + 4096) hi"
proof (unfold arena_def, intro allI impI)
  fix va assume va: "c + 4096 \<le> va \<and> va < hi"
  have u: "unat c + 4096 \<le> unat va" using va c(3) by (simp add: word_le_nat_alt unat_add_u64)
  then have "c \<le> va" by (simp add: word_le_nat_alt)
  moreover have "va_path va \<noteq> va_path c"
  proof
    assume "va_path va = va_path c"
    then have "unat va div 4096 = unat c div 4096" using kernel_path_inj[OF order.trans[OF c(1) \<open>c \<le> va\<close>] c(1)] by simp
    moreover have "(unat c + 4096) div 4096 \<le> unat va div 4096" by (rule div_le_mono[OF u])
    ultimately show False by simp
  qed
  ultimately show "aspace (mem v') t (va_path va) = None"
    using a p va by (simp add: arena_def page_added_def)
qed

end
