(* ===== verification/Slab_Cache_Correct.thy ===== *)
theory Slab_Cache_Correct
  imports Slab_Cache Kernel_Pages
begin

text \<open>
  Correctness of the object caches: the invariant of the registry, that every operation keeps
  it, and what the operations do to the set of objects in use.
\<close>

unbundle bit_operations_syntax

section \<open>The invariant\<close>

lemma seg_unique: "seg st p xs h 0 \<Longrightarrow> seg st p ys h 0 \<Longrightarrow> xs = ys"
proof (induction xs arbitrary: p h ys)
  case Nil
  then show ?case by (cases ys) auto
next
  case (Cons x xs)
  then obtain ys' where "ys = x # ys'" by (cases ys) auto
  then show ?case using Cons by auto
qed

definition cache_slabs :: "'c slab_heads_scheme \<Rightarrow> (u64 \<Rightarrow> 'a slab_page_scheme) \<Rightarrow> u64 set" where
  "cache_slabs c st = {p. \<exists>xs ys zs. triple c st xs ys zs \<and> p \<in> set (xs @ ys @ zs)}"

lemma cache_slabs_eq:
  assumes "triple c st xs ys zs" shows "cache_slabs c st = set (xs @ ys @ zs)"
proof -
  have "triple c st xs' ys' zs' \<longleftrightarrow> xs' = xs \<and> ys' = ys \<and> zs' = zs" for xs' ys' zs'
  proof
    assume "triple c st xs' ys' zs'"
    then show "xs' = xs \<and> ys' = ys \<and> zs' = zs"
      using assms by (auto simp: triple_def dest: seg_unique)
  qed (simp add: assms)
  then show ?thesis unfolding cache_slabs_def by (intro set_eqI) simp
qed

lemma slabs_ok_slabs: "slabs_ok E M i n c st xs ys zs \<Longrightarrow> cache_slabs c st = set (xs @ ys @ zs)"
  by (rule cache_slabs_eq) (simp add: slabs_ok_def)

abbreviation per_slab :: "kmem_cache \<Rightarrow> nat" where
  "per_slab c \<equiv> unat (objs_per_slab c)"

text \<open>The objects in use of a cache, by slab and index.\<close>

definition live_slots :: "slab_state \<Rightarrow> nat \<Rightarrow> (u64 \<times> nat) set" where
  "live_slots s i =
     {(p, k). p \<in> cache_slabs (the_cache s i) (slab_pages s) \<and> k < per_slab (the_cache s i) \<and> used (slab_pages s) p k}"

definition cache_ok :: "u64 set \<Rightarrow> slab_state \<Rightarrow> nat \<Rightarrow> bool" where
  "cache_ok E s i \<longleftrightarrow>
     (let c = the_cache s i in
      (\<exists>xs ys zs. slabs_ok E SLAB_PAGE_MAGIC i (per_slab c) c (slab_pages s) xs ys zs) \<and>
      16 \<le> unat (obj_aligned c) \<and> per_slab c * unat (obj_aligned c) \<le> 4096 - 64 \<and>
      (\<forall>p\<in>cache_slabs c (slab_pages s). KERNEL_HEAP_BASE \<le> p \<and> p < slab_vaddr_cursor s \<and> 4096 dvd unat p) \<and>
      active_objects c = of_nat (card (live_slots s i)))"

abbreviation slab_pml4 :: "slab_state \<Rightarrow> nat" where
  "slab_pml4 s \<equiv> vmm_get_active_pml4 (vmm s)"

definition other_slabs :: "slab_state \<Rightarrow> nat \<Rightarrow> u64 set" where
  "other_slabs s i = (\<Union>j\<in>{j. j < 32 \<and> j \<noteq> i \<and> cache_used s ! j}. cache_slabs (the_cache s j) (slab_pages s))"

text \<open>
  The registry is well formed up to the address \<open>lim\<close>, below which the address range of the
  slabs is unmapped from the cursor on. The slab \<open>e\<close> may be in the partial list of the cache
  \<open>i\<close> with any count.
\<close>

definition slab_okE :: "nat \<Rightarrow> u64 set \<Rightarrow> u64 \<Rightarrow> slab_state \<Rightarrow> bool" where
  "slab_okE i E lim s \<longleftrightarrow>
     vmm_ok (vmm s) (slab_pml4 s) \<and> length (cache_pool s) = 32 \<and> length (cache_used s) = 32 \<and>
     KERNEL_HEAP_BASE \<le> slab_vaddr_cursor s \<and> 4096 dvd unat (slab_vaddr_cursor s) \<and> lim \<le> 0xFFFFFFFFFFFFF000 \<and>
     arena (vmm s) (slab_pml4 s) (slab_vaddr_cursor s) lim \<and>
     (\<forall>j<32. cache_used s ! j \<longrightarrow> cache_ok (if j = i then E else {}) s j) \<and>
     backed (vmm s) (slab_pml4 s)
       (other_slabs s i \<union> (if i < 32 \<and> cache_used s ! i then cache_slabs (the_cache s i) (slab_pages s) else {}))"

abbreviation slab_ok :: "u64 \<Rightarrow> slab_state \<Rightarrow> bool" where
  "slab_ok \<equiv> slab_okE 32 {}"

lemma cache_okD:
  assumes "cache_ok E s i"
  obtains xs ys zs where "slabs_ok E SLAB_PAGE_MAGIC i (per_slab (the_cache s i)) (the_cache s i) (slab_pages s) xs ys zs"
    "cache_slabs (the_cache s i) (slab_pages s) = set (xs @ ys @ zs)"
proof -
  from assms obtain xs ys zs where
    o: "slabs_ok E SLAB_PAGE_MAGIC i (per_slab (the_cache s i)) (the_cache s i) (slab_pages s) xs ys zs"
    by (auto simp: cache_ok_def Let_def)
  then show thesis using that slabs_ok_slabs by blast
qed

lemma cache_ok_owner:
  assumes "cache_ok E s i" "p \<in> cache_slabs (the_cache s i) (slab_pages s)"
  shows "sp_cache (slab_pages s p) = i" "sp_magic (slab_pages s p) = SLAB_PAGE_MAGIC"
  using assms by (auto elim!: cache_okD simp: slabs_ok_def hdr_ok_def)

lemma all_slabs_split:
  assumes "i < 32" "cache_used s ! i"
  shows "other_slabs s 32 = other_slabs s i \<union> cache_slabs (the_cache s i) (slab_pages s)"
  using assms by (auto simp: other_slabs_def)

lemma slab_ok_iff:
  assumes "i < 32" "cache_used s ! i" shows "slab_ok lim s \<longleftrightarrow> slab_okE i {} lim s"
  using assms all_slabs_split[OF assms] by (auto simp: slab_okE_def)

text \<open>
  A step on the cache \<open>i\<close>: its lists may change, and the virtual memory may change as long as
  the slabs of the other caches and the new ones are backed.
\<close>

lemma slab_update:
  fixes s s' :: slab_state
  assumes ok: "slab_okE i E lim s" and i: "i < 32" "cache_used s ! i"
    and s': "cache_pool s' = (cache_pool s)[i := c']" "cache_used s' = cache_used s"
    and c': "objs_per_slab c' = objs_per_slab (the_cache s i)" "obj_aligned c' = obj_aligned (the_cache s i)"
    and sl: "slabs_ok E' SLAB_PAGE_MAGIC i (per_slab c') c' (slab_pages s') xs ys zs"
    and fr: "\<And>p. p \<in> other_slabs s i \<Longrightarrow> slab_pages s' p = slab_pages s p"
    and pg: "\<And>p. p \<in> set (xs @ ys @ zs) \<Longrightarrow> KERNEL_HEAP_BASE \<le> p \<and> p < slab_vaddr_cursor s' \<and> 4096 dvd unat p"
    and act: "active_objects c' =
      of_nat (card {(p, k). p \<in> set (xs @ ys @ zs) \<and> k < per_slab c' \<and> used (slab_pages s') p k})"
    and vm: "vmm_ok (vmm s') (slab_pml4 s)" "cr3 (vmm s') = cr3 (vmm s)"
      "arena (vmm s') (slab_pml4 s) (slab_vaddr_cursor s') lim"
      "slab_vaddr_cursor s \<le> slab_vaddr_cursor s'" "4096 dvd unat (slab_vaddr_cursor s')"
    and bk: "backed (vmm s') (slab_pml4 s) (other_slabs s i \<union> set (xs @ ys @ zs))"
  shows "slab_okE i E' lim s'" "other_slabs s' i = other_slabs s i"
    "\<And>j. j < 32 \<Longrightarrow> cache_used s ! j \<Longrightarrow> j \<noteq> i \<Longrightarrow> live_slots s' j = live_slots s j"
    "live_slots s' i = {(p, k). p \<in> set (xs @ ys @ zs) \<and> k < per_slab c' \<and> used (slab_pages s') p k}"
    "cache_slabs (the_cache s' i) (slab_pages s') = set (xs @ ys @ zs)"
proof -
  have len: "length (cache_pool s) = 32" using ok by (simp add: slab_okE_def)
  have t: "slab_pml4 s' = slab_pml4 s" using vm(2) by (simp add: vmm_get_active_pml4_def)
  have ci: "the_cache s' i = c'" using s'(1) len i(1) by simp
  have cj: "the_cache s' j = the_cache s j" if "j \<noteq> i" for j using s'(1) that by simp
  show csi: "cache_slabs (the_cache s' i) (slab_pages s') = set (xs @ ys @ zs)"
    unfolding ci by (rule slabs_ok_slabs[OF sl])
  have other: "cache_ok {} s' j \<and> live_slots s' j = live_slots s j \<and>
      cache_slabs (the_cache s' j) (slab_pages s') = cache_slabs (the_cache s j) (slab_pages s)"
    if j: "j < 32" "cache_used s ! j" "j \<noteq> i" for j
  proof -
    have cok: "cache_ok {} s j" using ok j by (auto simp: slab_okE_def)
    then obtain us vs ws where o: "slabs_ok {} SLAB_PAGE_MAGIC j (per_slab (the_cache s j)) (the_cache s j) (slab_pages s) us vs ws"
      "cache_slabs (the_cache s j) (slab_pages s) = set (us @ vs @ ws)" by (rule cache_okD)
    have sub: "set (us @ vs @ ws) \<subseteq> other_slabs s i" using j o(2) by (auto simp: other_slabs_def)
    have same: "slab_pages s' p = slab_pages s p" if "p \<in> set (us @ vs @ ws)" for p
      using fr[of p] that sub by blast
    have o': "slabs_ok {} SLAB_PAGE_MAGIC j (per_slab (the_cache s' j)) (the_cache s' j) (slab_pages s') us vs ws"
      using slabs_ok_frame[OF o(1) same refl refl refl] cj[OF j(3)] by simp
    then have cs: "cache_slabs (the_cache s' j) (slab_pages s') = set (us @ vs @ ws)"
      by (rule slabs_ok_slabs)
    have lv: "live_slots s' j = live_slots s j" using same cs o(2) cj[OF j(3)] by (auto simp: live_slots_def)
    have "p < slab_vaddr_cursor s'" if "p < slab_vaddr_cursor s" for p using that vm(4) by simp
    then have "cache_ok {} s' j"
      using cok o' lv cs o(2) cj[OF j(3)] unfolding cache_ok_def Let_def by auto
    then show ?thesis using lv cs o(2) by simp
  qed
  show os: "other_slabs s' i = other_slabs s i" using other s'(2) by (auto simp: other_slabs_def)
  show "\<And>j. j < 32 \<Longrightarrow> cache_used s ! j \<Longrightarrow> j \<noteq> i \<Longrightarrow> live_slots s' j = live_slots s j" using other by simp
  show lv: "live_slots s' i = {(p, k). p \<in> set (xs @ ys @ zs) \<and> k < per_slab c' \<and> used (slab_pages s') p k}"
    using csi ci by (simp add: live_slots_def)
  have "cache_ok (if i = i then E else {}) s i" using ok i by (auto simp: slab_okE_def)
  then have "cache_ok E' s' i"
    using sl ci csi lv act pg c' unfolding cache_ok_def Let_def by auto
  then show "slab_okE i E' lim s'"
    unfolding slab_okE_def t os csi
    using ok other vm s' bk i by (auto simp: slab_okE_def)
qed

section \<open>The slab for an allocation\<close>

definition same_params :: "kmem_cache \<Rightarrow> kmem_cache \<Rightarrow> bool" where
  "same_params c c' \<longleftrightarrow> obj_aligned c' = obj_aligned c \<and> objs_per_slab c' = objs_per_slab c \<and>
     active_objects c' = active_objects c \<and> ctor c' = ctor c \<and> dtor c' = dtor c"

definition same_live :: "slab_state \<Rightarrow> slab_state \<Rightarrow> bool" where
  "same_live s s' \<longleftrightarrow> (\<forall>j<32. cache_used s ! j \<longrightarrow> live_slots s' j = live_slots s j)"

text \<open>
  What an allocation from the cache \<open>i\<close> leaves alone: the mapping of all pages but the next one,
  the owners of pages, and the headers of all pages but the slabs of the cache.
\<close>

definition outside_kept :: "nat \<Rightarrow> slab_state \<Rightarrow> slab_state \<Rightarrow> bool" where
  "outside_kept i s s' \<longleftrightarrow> other_slabs s' i = other_slabs s i \<and> cr3 (vmm s') = cr3 (vmm s) \<and> vmm_grown (slab_pml4 s) (vmm s) (vmm s') \<and>
     (\<forall>q. vpath 4 q \<and> length q = 4 \<and> q \<noteq> va_path (slab_vaddr_cursor s) \<longrightarrow>
        aspace (mem (vmm s')) (slab_pml4 s) q = aspace (mem (vmm s)) (slab_pml4 s) q) \<and>
     (\<forall>p. p \<notin> cache_slabs (the_cache s i) (slab_pages s) \<and> p \<noteq> slab_vaddr_cursor s \<longrightarrow> slab_pages s' p = slab_pages s p) \<and>
     cache_slabs (the_cache s' i) (slab_pages s') \<subseteq> insert (slab_vaddr_cursor s) (cache_slabs (the_cache s i) (slab_pages s)) \<and>
     (\<forall>p\<in>cache_slabs (the_cache s' i) (slab_pages s') - cache_slabs (the_cache s i) (slab_pages s).
        frame (vmm s') (slab_pml4 s) p div 4096 \<in> free_set (pmm (vmm s))) \<and>
     slab_vaddr_cursor s \<le> slab_vaddr_cursor s'"

lemma outside_kept_pages:
  assumes "vmm s' = vmm s" "slab_vaddr_cursor s' = slab_vaddr_cursor s"
    "cache_slabs (the_cache s' i) (slab_pages s') = cache_slabs (the_cache s i) (slab_pages s)"
    "other_slabs s' i = other_slabs s i"
    "\<And>p. p \<notin> cache_slabs (the_cache s i) (slab_pages s) \<Longrightarrow> slab_pages s' p = slab_pages s p"
  shows "outside_kept i s s'"
  using assms by (auto simp: outside_kept_def vmm_grown_refl)

text \<open>The slab at the head of the partial list of the cache \<open>i\<close>, with a free object.\<close>

definition slab_ready :: "nat \<Rightarrow> u64 \<Rightarrow> u64 \<Rightarrow> slab_state \<Rightarrow> slab_state \<Rightarrow> bool" where
  "slab_ready i lim sl s s' \<longleftrightarrow> sl \<noteq> 0 \<and> outside_kept i s s' \<and> slab_okE i {sl} lim s' \<and> same_live s s' \<and> cache_used s' = cache_used s \<and>
     same_params (the_cache s i) (the_cache s' i) \<and>
     (\<exists>xs ys zs. slabs_ok {sl} SLAB_PAGE_MAGIC i (per_slab (the_cache s i)) (the_cache s' i) (slab_pages s') (sl # xs) ys zs) \<and>
     slots (per_slab (the_cache s i)) (slab_pages s' sl) \<noteq> {}"

definition slab_refused :: "nat \<Rightarrow> u64 \<Rightarrow> slab_state \<Rightarrow> slab_state \<Rightarrow> bool" where
  "slab_refused i lim s s' \<longleftrightarrow> outside_kept i s s' \<and> slab_okE i {} lim s' \<and> same_live s s' \<and> cache_used s' = cache_used s \<and>
     same_params (the_cache s i) (the_cache s' i) \<and> card (free_set (pmm (vmm s))) \<le> 4"

lemma slab_okE_D:
  assumes "slab_okE i E lim s"
  shows "vmm_ok (vmm s) (slab_pml4 s)" "length (cache_pool s) = 32" "length (cache_used s) = 32"
    "KERNEL_HEAP_BASE \<le> slab_vaddr_cursor s" "4096 dvd unat (slab_vaddr_cursor s)" "lim \<le> 0xFFFFFFFFFFFFF000"
    "arena (vmm s) (slab_pml4 s) (slab_vaddr_cursor s) lim"
    "i < 32 \<Longrightarrow> cache_used s ! i \<Longrightarrow> cache_ok E s i"
    "i < 32 \<Longrightarrow> cache_used s ! i \<Longrightarrow>
       backed (vmm s) (slab_pml4 s) (other_slabs s i \<union> cache_slabs (the_cache s i) (slab_pages s))"
  using assms by (auto simp: slab_okE_def)

text \<open>Slabs of different caches are different pages.\<close>

lemma other_slabs_apart:
  assumes "slab_okE i E lim s" "i < 32" "cache_used s ! i"
  shows "other_slabs s i \<inter> cache_slabs (the_cache s i) (slab_pages s) = {}"
    "p \<in> other_slabs s i \<union> cache_slabs (the_cache s i) (slab_pages s) \<Longrightarrow>
       KERNEL_HEAP_BASE \<le> p \<and> p < slab_vaddr_cursor s \<and> 4096 dvd unat p"
proof -
  have oj: "cache_ok {} s j" if "j < 32" "cache_used s ! j" "j \<noteq> i" for j using assms(1) that by (auto simp: slab_okE_def)
  have oi: "cache_ok E s i" by (rule slab_okE_D(8)[OF assms])
  show "other_slabs s i \<inter> cache_slabs (the_cache s i) (slab_pages s) = {}"
  proof (rule ccontr)
    assume "other_slabs s i \<inter> cache_slabs (the_cache s i) (slab_pages s) \<noteq> {}"
    then obtain p j where p: "p \<in> cache_slabs (the_cache s i) (slab_pages s)" "p \<in> cache_slabs (the_cache s j) (slab_pages s)"
      "j < 32" "cache_used s ! j" "j \<noteq> i" by (auto simp: other_slabs_def)
    show False using cache_ok_owner(1)[OF oi p(1)] cache_ok_owner(1)[OF oj[OF p(3-5)] p(2)] p(5) by simp
  qed
  show "KERNEL_HEAP_BASE \<le> p \<and> p < slab_vaddr_cursor s \<and> 4096 dvd unat p"
    if "p \<in> other_slabs s i \<union> cache_slabs (the_cache s i) (slab_pages s)"
    using that oi oj by (fastforce simp: other_slabs_def cache_ok_def Let_def)
qed

lemma live_slots_lists:
  assumes "slabs_ok E M i n (the_cache s i) (slab_pages s) xs ys zs" "n = per_slab (the_cache s i)"
  shows "live_slots s i = {(p, k). p \<in> set (xs @ ys @ zs) \<and> k < n \<and> used (slab_pages s) p k}"
  using slabs_ok_slabs[OF assms(1)] assms(2) by (simp add: live_slots_def)

text \<open>A step that only rearranges the lists of one cache and its headers.\<close>

lemma slab_relist:
  fixes s s' :: slab_state
  assumes ok: "slab_okE i E lim s" and i: "i < 32" "cache_used s ! i"
    and s': "cache_pool s' = (cache_pool s)[i := c']" "cache_used s' = cache_used s" "vmm s' = vmm s"
      "slab_vaddr_cursor s' = slab_vaddr_cursor s"
    and c': "objs_per_slab c' = objs_per_slab (the_cache s i)" "obj_aligned c' = obj_aligned (the_cache s i)"
    and sl: "slabs_ok E' SLAB_PAGE_MAGIC i (per_slab c') c' (slab_pages s') xs ys zs"
    and sub: "set (xs @ ys @ zs) = cache_slabs (the_cache s i) (slab_pages s)"
    and fr: "\<And>p. p \<notin> cache_slabs (the_cache s i) (slab_pages s) \<Longrightarrow> slab_pages s' p = slab_pages s p"
    and act: "active_objects c' =
      of_nat (card {(p, k). p \<in> set (xs @ ys @ zs) \<and> k < per_slab c' \<and> used (slab_pages s') p k})"
  shows "slab_okE i E' lim s'" "\<And>j. j < 32 \<Longrightarrow> cache_used s ! j \<Longrightarrow> j \<noteq> i \<Longrightarrow> live_slots s' j = live_slots s j"
    "live_slots s' i = {(p, k). p \<in> set (xs @ ys @ zs) \<and> k < per_slab c' \<and> used (slab_pages s') p k}"
    "the_cache s' i = c'" "other_slabs s' i = other_slabs s i"
proof -
  note ap = other_slabs_apart[OF ok i] and d = slab_okE_D[OF ok]
  have pg: "KERNEL_HEAP_BASE \<le> p \<and> p < slab_vaddr_cursor s' \<and> 4096 dvd unat p" if "p \<in> set (xs @ ys @ zs)" for p
    using ap(2)[of p] that s'(4) unfolding sub by simp
  have f: "slab_pages s' p = slab_pages s p" if "p \<in> other_slabs s i" for p using fr[of p] ap(1) that by blast
  have v: "vmm_ok (vmm s') (slab_pml4 s)" "cr3 (vmm s') = cr3 (vmm s)"
    "arena (vmm s') (slab_pml4 s) (slab_vaddr_cursor s') lim" "slab_vaddr_cursor s \<le> slab_vaddr_cursor s'"
    "4096 dvd unat (slab_vaddr_cursor s')" "backed (vmm s') (slab_pml4 s) (other_slabs s i \<union> set (xs @ ys @ zs))"
    using d i s'(3,4) unfolding sub by simp_all
  note up = slab_update[OF ok i s'(1,2) c' sl f pg act v]
  show "slab_okE i E' lim s'" by (rule up(1))
  show "other_slabs s' i = other_slabs s i" by (rule up(2))
  show "\<And>j. j < 32 \<Longrightarrow> cache_used s ! j \<Longrightarrow> j \<noteq> i \<Longrightarrow> live_slots s' j = live_slots s j" by (rule up(3))
  show "live_slots s' i = {(p, k). p \<in> set (xs @ ys @ zs) \<and> k < per_slab c' \<and> used (slab_pages s') p k}" by (rule up(4))
  show "the_cache s' i = c'" using s'(1) d(2) i(1) by simp
qed

lemma slab_ready_partial:
  assumes ok: "slab_okE i {} lim s" and i: "i < 32" "cache_used s ! i" and p: "slabs_partial (the_cache s i) \<noteq> 0"
  shows "slab_ready i lim (slabs_partial (the_cache s i)) s s"
proof -
  let ?sl = "slabs_partial (the_cache s i)" and ?n = "per_slab (the_cache s i)"
  from slab_okE_D(8)[OF ok i] obtain xs ys zs where
    o: "slabs_ok {} SLAB_PAGE_MAGIC i ?n (the_cache s i) (slab_pages s) xs ys zs" by (rule cache_okD)
  then have "chain (slab_pages s) xs ?sl" by (simp add: slabs_ok_def triple_def)
  then obtain xs' where x: "xs = ?sl # xs'" using p by (cases xs) auto
  then have "0 < card (slots ?n (slab_pages s ?sl))" using o by (auto simp: slabs_ok_def)
  then have "slots ?n (slab_pages s ?sl) \<noteq> {}" by auto
  moreover have "cache_ok {?sl} s i"
    using slab_okE_D(8)[OF ok i] slabs_ok_weaken unfolding cache_ok_def Let_def by blast
  then have "slab_okE i {?sl} lim s" using ok i by (auto simp: slab_okE_def)
  moreover have "slabs_ok {?sl} SLAB_PAGE_MAGIC i ?n (the_cache s i) (slab_pages s) (?sl # xs') ys zs"
    using slabs_ok_weaken[OF o] x by simp
  ultimately show ?thesis
    using p outside_kept_pages[of s s i, OF refl refl refl refl refl] unfolding slab_ready_def same_live_def same_params_def by blast
qed

lemma slab_ready_reuse:
  assumes ok: "slab_okE i {} lim s" and i: "i < 32" "cache_used s ! i"
    and f: "slabs_free (the_cache s i) \<noteq> 0"
    and u: "slab_unlink (slabs_free (the_cache s i)) (slabs_free (the_cache s i)) (slab_pages s) = (h, st1)"
    and p: "slab_push (slabs_partial (the_cache s i)) (slabs_free (the_cache s i)) st1 = (h', st2)"
  shows "slab_ready i lim (slabs_free (the_cache s i)) s
    (put_cache i ((the_cache s i)\<lparr>slabs_free := h, slabs_partial := h'\<rparr>) (s\<lparr>slab_pages := st2\<rparr>))"
    (is "slab_ready i lim ?sl s ?s'")
proof -
  let ?c = "the_cache s i" let ?n = "per_slab ?c" let ?c' = "?c\<lparr>slabs_free := h, slabs_partial := h'\<rparr>"
  have cok: "cache_ok {} s i" by (rule slab_okE_D(8)[OF ok i])
  then obtain xs ys zs where o: "slabs_ok {} SLAB_PAGE_MAGIC i ?n ?c (slab_pages s) xs ys zs"
    "cache_slabs ?c (slab_pages s) = set (xs @ ys @ zs)" by (rule cache_okD)
  then have "chain (slab_pages s) zs ?sl" by (simp add: slabs_ok_def triple_def)
  then obtain zs' where z: "zs = ?sl # zs'" using f by (cases zs) auto
  note r = slab_reuse_ok[OF o(1)[unfolded z] u p]
  have eq: "set ((?sl # xs) @ ys @ zs') = set (xs @ ys @ zs)" using z by auto
  have lv: "live_slots s i = {(p, k). p \<in> set ((?sl # xs) @ ys @ zs') \<and> k < ?n \<and> used st2 p k}"
    unfolding live_slots_lists[OF o(1) refl] eq r(2) ..
  let ?s' = "put_cache i ?c' (s\<lparr>slab_pages := st2\<rparr>)"
  have prem: "cache_pool ?s' = (cache_pool s)[i := ?c']" "cache_used ?s' = cache_used s" "vmm ?s' = vmm s"
    "slab_vaddr_cursor ?s' = slab_vaddr_cursor s" "objs_per_slab ?c' = objs_per_slab ?c" "obj_aligned ?c' = obj_aligned ?c"
    "slabs_ok {?sl} SLAB_PAGE_MAGIC i (per_slab ?c') ?c' (slab_pages ?s') (?sl # xs) ys zs'"
    "set ((?sl # xs) @ ys @ zs') = cache_slabs ?c (slab_pages s)"
    using r(1) eq o(2) by (simp_all add: put_cache_def)
  have fr: "slab_pages ?s' p = slab_pages s p" if "p \<notin> cache_slabs ?c (slab_pages s)" for p
    using r(3)[of p] that o(2) z by (simp add: put_cache_def)
  have act: "active_objects ?c' =
      of_nat (card {(p, k). p \<in> set ((?sl # xs) @ ys @ zs') \<and> k < per_slab ?c' \<and> used (slab_pages ?s') p k})"
    using cok lv by (simp add: cache_ok_def Let_def put_cache_def)
  note up = slab_relist[OF ok i prem fr act]
  have "live_slots ?s' i = live_slots s i" using up(3) lv by (simp add: put_cache_def)
  then have live: "same_live s ?s'" using up(2) by (auto simp: same_live_def)
  have card: "card (slots ?n (slab_pages s ?sl)) = ?n" "0 < ?n" using o(1) z by (simp_all add: slabs_ok_def)
  have "slots ?n (st2 ?sl) = slots ?n (slab_pages s ?sl)" using r(2) by (simp add: slots_def)
  then have "slots ?n (st2 ?sl) \<noteq> {}" using card by auto
  moreover have "outside_kept i s ?s'"
    by (rule outside_kept_pages[OF prem(3,4) _ up(5) fr]) (use slabs_ok_slabs[OF prem(7)] prem(8) up(4) in simp)
  ultimately show ?thesis
    unfolding slab_ready_def using f up(1,4) live prem(7)
    by (auto simp: same_params_def put_cache_def)
qed

lemma new_slab_hdr_ok:
  assumes "per_slab c \<le> 128"
  shows "hdr_ok SLAB_PAGE_MAGIC i (per_slab c) (new_slab_hdr i c)" "slots (per_slab c) (new_slab_hdr i c) = {..<per_slab c}"
    "k < 128 \<Longrightarrow> \<not> BITMAP_TEST (sp_bitmap (new_slab_hdr i c)) k"
proof -
  have z: "\<not> BITMAP_TEST [0, 0, 0, 0] k" if "k < 128" for k
  proof -
    have "[0, 0, 0, 0 :: u32] = replicate 4 0" by (simp add: numeral_eq_Suc)
    moreover have "k div 32 < 4" using that by simp
    ultimately show ?thesis unfolding BITMAP_TEST_def by (simp only: nth_replicate) simp
  qed
  have le: "\<not> objs_per_slab c > 128" using assms by (simp add: word_less_nat_alt)
  show sl: "slots (per_slab c) (new_slab_hdr i c) = {..<per_slab c}"
    using z assms by (auto simp: slots_def new_slab_hdr_def Let_def)
  show "hdr_ok SLAB_PAGE_MAGIC i (per_slab c) (new_slab_hdr i c)"
    using le unfolding hdr_ok_def sl by (simp add: new_slab_hdr_def Let_def)
  show "\<not> BITMAP_TEST (sp_bitmap (new_slab_hdr i c)) k" if "k < 128" using z[OF that] by (simp add: new_slab_hdr_def Let_def)
qed

lemma cursor_step:
  assumes "slab_okE i E lim s" "slab_vaddr_cursor s < lim"
  shows "unat (slab_vaddr_cursor s + 4096) = unat (slab_vaddr_cursor s) + 4096"
    "unat (slab_vaddr_cursor s) + 4096 < 2 ^ 64" "slab_vaddr_cursor s \<le> slab_vaddr_cursor s + 4096"
    "slab_vaddr_cursor s < slab_vaddr_cursor s + 4096" "slab_vaddr_cursor s \<noteq> 0"
    "0xFFFF800000000000 \<le> slab_vaddr_cursor s"
proof -
  let ?c = "slab_vaddr_cursor s"
  note d = slab_okE_D[OF assms(1)]
  have "unat ?c < unat lim" "unat lim \<le> 0xFFFFFFFFFFFFF000" using assms(2) d(6) by (simp_all add: word_less_nat_alt word_le_nat_alt)
  then show b: "unat ?c + 4096 < 2 ^ 64" by simp
  then show u: "unat (?c + 4096) = unat ?c + 4096" by (simp add: unat_add_u64)
  then show "?c \<le> ?c + 4096" "?c < ?c + 4096" by (simp_all add: word_le_nat_alt word_less_nat_alt)
  have "unat KERNEL_HEAP_BASE \<le> unat ?c" using d(4) by (simp add: word_le_nat_alt)
  then show "?c \<noteq> 0" "0xFFFF800000000000 \<le> ?c" by (auto simp: KERNEL_HEAP_BASE_def word_le_nat_alt)
qed

text \<open>The lists as they are, while the virtual memory changes.\<close>

lemma slab_refusedI:
  assumes ok: "slab_okE i {} lim s" and i: "i < 32" "cache_used s ! i" and lim: "slab_vaddr_cursor s < lim"
    and r: "page_refused (slab_pml4 s) (vmm s) (other_slabs s i \<union> cache_slabs (the_cache s i) (slab_pages s)) v"
    and c: "c = slab_vaddr_cursor s \<or> c = slab_vaddr_cursor s + 4096"
  shows "slab_refused i lim s (s\<lparr>vmm := v, slab_vaddr_cursor := c\<rparr>)" (is "slab_refused i lim s ?s'")
proof -
  have cok: "cache_ok {} s i" by (rule slab_okE_D(8)[OF ok i])
  then obtain xs ys zs where o: "slabs_ok {} SLAB_PAGE_MAGIC i (per_slab (the_cache s i)) (the_cache s i) (slab_pages s) xs ys zs"
    "cache_slabs (the_cache s i) (slab_pages s) = set (xs @ ys @ zs)" by (rule cache_okD)
  note d = slab_okE_D[OF ok] and cs = cursor_step[OF ok lim]
  have cc: "slab_vaddr_cursor s \<le> c" "4096 dvd unat c" using c cs(1,3) d(5) by auto
  have pg: "KERNEL_HEAP_BASE \<le> p \<and> p < slab_vaddr_cursor ?s' \<and> 4096 dvd unat p" if "p \<in> set (xs @ ys @ zs)" for p
    using other_slabs_apart(2)[OF ok i, of p] that cc(1) unfolding o(2) by auto
  have v: "vmm_ok (vmm ?s') (slab_pml4 s)" "cr3 (vmm ?s') = cr3 (vmm s)"
    "arena (vmm ?s') (slab_pml4 s) (slab_vaddr_cursor ?s') lim" "slab_vaddr_cursor s \<le> slab_vaddr_cursor ?s'"
    "4096 dvd unat (slab_vaddr_cursor ?s')" "backed (vmm ?s') (slab_pml4 s) (other_slabs s i \<union> set (xs @ ys @ zs))"
    using r cc arena_cong[OF d(7), of v c] unfolding page_refused_def o(2) by simp_all
  have prem: "cache_pool ?s' = (cache_pool s)[i := the_cache s i]" "cache_used ?s' = cache_used s" by simp_all
  have act: "active_objects (the_cache s i) = of_nat (card
      {(p, k). p \<in> set (xs @ ys @ zs) \<and> k < per_slab (the_cache s i) \<and> used (slab_pages ?s') p k})"
    using cok live_slots_lists[OF o(1) refl] by (simp add: cache_ok_def Let_def)
  have sl: "slabs_ok {} SLAB_PAGE_MAGIC i (per_slab (the_cache s i)) (the_cache s i) (slab_pages ?s') xs ys zs" using o(1) by simp
  note up = slab_update[OF ok i prem refl refl sl _ pg act v, simplified]
  have "live_slots ?s' i = live_slots s i" using up(4) live_slots_lists[OF o(1) refl] by simp
  then have "same_live s ?s'" using up(3) by (auto simp: same_live_def)
  moreover have "outside_kept i s ?s'" using r cc(1) up(2) by (auto simp: outside_kept_def page_refused_def)
  ultimately show ?thesis using up(1) r by (simp add: slab_refused_def same_params_def page_refused_def)
qed

lemma slab_ready_new:
  assumes ok: "slab_okE i {} lim s" and i: "i < 32" "cache_used s ! i" and lim: "slab_vaddr_cursor s < lim"
    and a: "page_added (slab_pml4 s) (vmm s) (slab_vaddr_cursor s)
      (other_slabs s i \<union> cache_slabs (the_cache s i) (slab_pages s)) v"
    and p: "slab_push (slabs_partial (the_cache s i)) (slab_vaddr_cursor s)
      ((slab_pages s)(slab_vaddr_cursor s := new_slab_hdr i (the_cache s i))) = (h, st)"
    and s': "cache_pool s' = (cache_pool s)[i := (the_cache s i)\<lparr>total_slabs := n, slabs_partial := h\<rparr>]"
      "cache_used s' = cache_used s" "vmm s' = v" "slab_pages s' = st" "slab_vaddr_cursor s' = slab_vaddr_cursor s + 4096"
  shows "slab_ready i lim (slab_vaddr_cursor s) s s'"
proof -
  let ?c = "the_cache s i" and ?va = "slab_vaddr_cursor s" let ?n = "per_slab ?c"
  let ?c' = "?c\<lparr>total_slabs := n, slabs_partial := h\<rparr>"
  have cok: "cache_ok {} s i" by (rule slab_okE_D(8)[OF ok i])
  then obtain xs ys zs where o: "slabs_ok {} SLAB_PAGE_MAGIC i ?n ?c (slab_pages s) xs ys zs"
    "cache_slabs ?c (slab_pages s) = set (xs @ ys @ zs)" by (rule cache_okD)
  note d = slab_okE_D[OF ok] and cs = cursor_step[OF ok lim] and ap = other_slabs_apart(2)[OF ok i]
  have n: "?n \<le> 128" "0 < ?n" using o(1) by (simp_all add: slabs_ok_def)
  have new: "?va \<notin> set (xs @ ys @ zs)" "?va \<notin> other_slabs s i" using ap[of ?va] o(2) by auto
  note w = slab_new_ok[OF o(1) new(1) cs(5) new_slab_hdr_ok(1)[OF n(1)] p]
  have sl: "slabs_ok {?va} SLAB_PAGE_MAGIC i (per_slab ?c') ?c' (slab_pages s') (?va # xs) ys zs"
    using slabs_ok_frame[OF w(1), of st ?c'] s'(4) by simp
  have us: "used st q k \<longleftrightarrow> q \<noteq> ?va \<and> used (slab_pages s) q k" if "k < ?n" for q k
    using w(2)[of q k] new_slab_hdr_ok(3)[OF n(1), of k] that n(1) by auto
  have lv: "{(p, k). p \<in> set ((?va # xs) @ ys @ zs) \<and> k < ?n \<and> used st p k} = live_slots s i"
    unfolding live_slots_lists[OF o(1) refl] using us new(1) by auto
  have ap': "p \<notin> set (?va # xs)" if "p \<in> other_slabs s i" for p
    using other_slabs_apart(1)[OF ok i] that new(2) o(2) by auto
  have fr: "slab_pages s' p = slab_pages s p" if "p \<in> other_slabs s i" for p
    using w(3)[OF ap'[OF that]] s'(4) by simp
  have base: "KERNEL_HEAP_BASE \<le> ?va" "4096 dvd unat ?va" using d by simp_all
  have pg: "KERNEL_HEAP_BASE \<le> p \<and> p < slab_vaddr_cursor s' \<and> 4096 dvd unat p" if "p \<in> set ((?va # xs) @ ys @ zs)" for p
    using ap[of p] that o(2) base cs(3,4) s'(5) by (auto intro: less_le_trans)
  have act: "active_objects ?c' =
      of_nat (card {(p, k). p \<in> set ((?va # xs) @ ys @ zs) \<and> k < per_slab ?c' \<and> used (slab_pages s') p k})"
    using cok lv s'(4) by (simp add: cache_ok_def Let_def)
  have v: "vmm_ok (vmm s') (slab_pml4 s)" "cr3 (vmm s') = cr3 (vmm s)"
    "arena (vmm s') (slab_pml4 s) (slab_vaddr_cursor s') lim" "slab_vaddr_cursor s \<le> slab_vaddr_cursor s'"
    "4096 dvd unat (slab_vaddr_cursor s')" "backed (vmm s') (slab_pml4 s) (other_slabs s i \<union> set ((?va # xs) @ ys @ zs))"
    using a cs(1,3) d(5) arena_added[OF d(7) a cs(6) d(5) cs(2)] s'(3,5) o(2) by (simp_all add: page_added_def)
  note up = slab_update[OF ok i s'(1,2) _ _ sl fr pg act v, simplified]
  have ci: "the_cache s' i = ?c'" using s'(1) d(2) i(1) by simp
  have "live_slots s' i = live_slots s i" using up(4) lv s'(4) by simp
  then have live: "same_live s s'" using up(3) by (auto simp: same_live_def)
  have "slots ?n (st ?va) = {..<?n}" using us by (auto simp: slots_def)
  then have "slots ?n (slab_pages s' ?va) \<noteq> {}" using n(2) s'(4) by auto
  moreover have "outside_kept i s s'"
  proof -
    have "cache_slabs (the_cache s' i) (slab_pages s') = insert ?va (cache_slabs ?c (slab_pages s))"
      using slabs_ok_slabs[OF sl] ci o(2) by simp
    moreover have "slab_pages s' p = slab_pages s p" if "p \<notin> cache_slabs ?c (slab_pages s)" "p \<noteq> ?va" for p
      using w(3)[of p] that o(2) s'(4) by simp
    ultimately show ?thesis using a v(2,4) s'(3) up(2) by (auto simp: outside_kept_def page_added_def)
  qed
  ultimately show ?thesis
    unfolding slab_ready_def ci using cs(5) up(1) live s'(2) sl by (auto simp: same_params_def)
qed

lemma kernel_flags: "(PAGE_FLAG_PRESENT OR PAGE_FLAG_RW) AND PAGE_MASK = 0"
  by (simp add: PAGE_FLAG_PRESENT_def PAGE_FLAG_RW_def PAGE_MASK_def)

lemma slab_for_alloc_lists:
  assumes ok: "slab_okE i {} lim s" and i: "i < 32" "cache_used s ! i"
    and c: "slabs_partial (the_cache s i) \<noteq> 0 \<or> slabs_free (the_cache s i) \<noteq> 0"
  shows "\<exists>sl s'. slab_for_alloc i s = Some (sl, s') \<and> slab_ready i lim sl s s' \<and> vmm s' = vmm s"
proof (cases "slabs_partial (the_cache s i) = 0")
  case False
  then show ?thesis using slab_ready_partial[OF ok i False] by (simp add: slab_for_alloc_def)
next
  case True
  let ?c = "the_cache s i"
  have f: "slabs_free ?c \<noteq> 0" and len: "i < length (cache_pool s)" using c True slab_okE_D(2)[OF ok] i(1) by simp_all
  obtain h st1 where u: "slab_unlink (slabs_free ?c) (slabs_free ?c) (slab_pages s) = (h, st1)" by fastforce
  obtain h' st2 where p: "slab_push (slabs_partial ?c) (slabs_free ?c) st1 = (h', st2)" by fastforce
  let ?s' = "put_cache i (?c\<lparr>slabs_free := h, slabs_partial := h'\<rparr>) (s\<lparr>slab_pages := st2\<rparr>)"
  have "slab_for_alloc i s = Some (slabs_free ?c, ?s')"
    using True f u p len by (simp add: slab_for_alloc_def put_cache_def)
  moreover have "vmm ?s' = vmm s" by (simp add: put_cache_def)
  ultimately show ?thesis using slab_ready_reuse[OF ok i f u p] by blast
qed

lemma slab_for_alloc_spec:
  assumes ok: "slab_okE i {} lim s" and i: "i < 32" "cache_used s ! i" and lim: "slab_vaddr_cursor s < lim"
  shows "(\<exists>s'. slab_for_alloc i s = Some (0, s') \<and> slab_refused i lim s s') \<or>
    (\<exists>sl s'. slab_for_alloc i s = Some (sl, s') \<and> slab_ready i lim sl s s')"
proof -
  let ?c = "the_cache s i" and ?va = "slab_vaddr_cursor s"
  let ?ps = "other_slabs s i \<union> cache_slabs ?c (slab_pages s)"
  have len: "i < length (cache_pool s)" using slab_okE_D(2)[OF ok] i(1) by simp
  show ?thesis
  proof (cases "slabs_partial ?c = 0 \<and> slabs_free ?c = 0")
    case False
    then show ?thesis using slab_for_alloc_lists[OF ok i] by blast
  next
    case ps0: True
    have none: "aspace (mem (vmm s)) (slab_pml4 s) (va_path ?va) = None"
      using slab_okE_D(7)[OF ok] lim by (simp add: arena_def)
    from slab_okE_D(1)[OF ok] slab_okE_D(9)[OF ok i] none kernel_flags show ?thesis
    proof (cases rule: new_page_spec)
      case none
      then have "slab_for_alloc i s = Some (0, s)" using ps0 by (simp add: slab_for_alloc_def slab_page_alloc_def)
      then show ?thesis using slab_refusedI[OF ok i lim none(2), of ?va] by simp
    next
      case (page a v1 v2)
      obtain h st where p: "slab_push (slabs_partial ?c) ?va ((slab_pages s)(?va := new_slab_hdr i ?c)) = (h, st)" by fastforce
      let ?s' = "s\<lparr>vmm := v2, slab_vaddr_cursor := ?va + 4096, slab_pages := st,
        cache_pool := (cache_pool s)[i := ?c\<lparr>total_slabs := total_slabs ?c + 1, slabs_partial := h\<rparr>]\<rparr>"
      have "vmm_get_active_pml4 v1 = slab_pml4 s" using page(3) by (simp add: vmm_get_active_pml4_def)
      then have "slab_for_alloc i s = Some (?va, ?s')"
        using ps0 page(1,2,4) p len cursor_step(5)[OF ok lim]
        by (simp add: slab_for_alloc_def slab_page_alloc_def slab_allocate_vaddr_def put_cache_def Let_def)
      then show ?thesis using slab_ready_new[OF ok i lim page(5) p, of ?s'] by auto
    next
      case (refused a v1 v2)
      have "vmm_get_active_pml4 v1 = slab_pml4 s" using refused(3) by (simp add: vmm_get_active_pml4_def)
      then have "slab_for_alloc i s = Some (0, s\<lparr>vmm := free_page a v2, slab_vaddr_cursor := ?va + 4096\<rparr>)"
        using ps0 refused(1,2,4)
        by (simp add: slab_for_alloc_def slab_page_alloc_def slab_allocate_vaddr_def Let_def)
      then show ?thesis using slab_refusedI[OF ok i lim refused(5), of "?va + 4096"] by simp
    qed
  qed
qed

section \<open>Addresses of objects\<close>

definition obj_addr :: "kmem_cache \<Rightarrow> u64 \<Rightarrow> nat \<Rightarrow> u64" where
  "obj_addr c p k = (p + SLAB_HDR) + of_nat k * obj_aligned c"

lemma unat_of_nat_self_u64: "of_nat (unat w) = (w :: u64)"
  by simp

lemma obj_addr_decode:
  assumes p: "4096 dvd unat p" "unat p + 4096 \<le> 2 ^ 64" and k: "64 + (k + 1) * unat (obj_aligned c) \<le> 4096"
    and a: "0 < unat (obj_aligned c)"
  shows "unat (obj_addr c p k) = unat p + 64 + k * unat (obj_aligned c)"
    "obj_addr c p k AND NOT 0xFFF = p"
    "(ucast ((obj_addr c p k - (p + SLAB_HDR)) div obj_aligned c) :: u32) = of_nat k"
proof -
  let ?o = "unat (obj_aligned c)"
  have m: "k * ?o + ?o \<le> 4032" using k by simp
  have "k \<le> k * ?o" using a by (cases ?o) simp_all
  then have kk: "k \<le> 4032" using m by linarith
  have km: "unat (of_nat k * obj_aligned c) = k * ?o"
    using m kk by (simp add: unat_word_ariths unat_of_nat_u64)
  have ph: "unat (p + SLAB_HDR) = unat p + 64" using p(2) by (simp add: SLAB_HDR_def unat_add_u64)
  show u: "unat (obj_addr c p k) = unat p + 64 + k * ?o"
    unfolding obj_addr_def using unat_add_u64[of "p + SLAB_HDR"] ph km p(2) m a by simp
  obtain q where q: "unat p = 4096 * q" using p(1) by (elim dvdE)
  have "(unat p + 64 + k * ?o) div 4096 = q" using q m a by simp
  then have "unat (obj_addr c p k AND NOT 0xFFF) = unat p" unfolding unat_page_base u by (simp add: q)
  then show "obj_addr c p k AND NOT 0xFFF = p" by (simp only: word_unat_eq_iff)
  have "unat ((obj_addr c p k - (p + SLAB_HDR)) div obj_aligned c) = k"
    unfolding obj_addr_def using km a by (simp add: unat_div)
  then have "(obj_addr c p k - (p + SLAB_HDR)) div obj_aligned c = of_nat k" by (metis unat_of_nat_self_u64)
  then show "(ucast ((obj_addr c p k - (p + SLAB_HDR)) div obj_aligned c) :: u32) = of_nat k"
    using kk by (simp add: word_unat_eq_iff unat_of_nat unsigned_ucast_eq take_bit_nat_eq_self)
qed

lemma slab_place:
  assumes "slab_okE i E lim s" "i < 32" "cache_used s ! i" "p \<in> cache_slabs (the_cache s i) (slab_pages s)"
    "k < per_slab (the_cache s i)"
  shows "4096 dvd unat p" "unat p + 4096 \<le> 2 ^ 64" "64 + (k + 1) * unat (obj_aligned (the_cache s i)) \<le> 4096"
    "0 < unat (obj_aligned (the_cache s i))" "unat p \<noteq> 0"
proof -
  let ?o = "unat (obj_aligned (the_cache s i))" and ?n = "per_slab (the_cache s i)"
  note d = slab_okE_D[OF assms(1)] and ap = other_slabs_apart(2)[OF assms(1-3), of p]
  have c: "16 \<le> ?o" "?n * ?o \<le> 4032" using d(8) assms by (auto simp: cache_ok_def Let_def)
  show al: "4096 dvd unat p" using ap assms(4) by simp
  show "unat p \<noteq> 0" using ap assms(4) by (auto simp: KERNEL_HEAP_BASE_def word_le_nat_alt)
  have "unat p < unat (slab_vaddr_cursor s)" using ap assms(4) by (simp add: word_less_nat_alt)
  then obtain q r where "unat p = 4096 * q" "unat (slab_vaddr_cursor s) = 4096 * r" "q < r" using al d(5) by (auto elim!: dvdE)
  then show "unat p + 4096 \<le> 2 ^ 64" using unat_u64_less[of "slab_vaddr_cursor s"] by simp
  have "(k + 1) * ?o \<le> ?n * ?o" using assms(5) by (intro mult_le_mono1) simp
  then show "64 + (k + 1) * ?o \<le> 4096" using c by simp
  show "0 < ?o" using c by simp
qed

section \<open>Allocation\<close>

lemma kmem_fields:
  assumes "slab_heads.more (c' :: kmem_cache) = slab_heads.more c"
  shows "obj_aligned c' = obj_aligned c" "objs_per_slab c' = objs_per_slab c" "active_objects c' = active_objects c"
    "ctor c' = ctor c" "dtor c' = dtor c"
  using assms by (cases c; cases c'; simp)+

text \<open>What an operation on the cache \<open>i\<close> keeps: the other caches, and the sizes.\<close>

definition cache_step :: "nat \<Rightarrow> u64 \<Rightarrow> slab_state \<Rightarrow> slab_state \<Rightarrow> bool" where
  "cache_step i lim s s' \<longleftrightarrow> slab_ok lim s' \<and> cache_used s' = cache_used s \<and>
     (\<forall>j<32. cache_used s ! j \<longrightarrow> j \<noteq> i \<longrightarrow> live_slots s' j = live_slots s j) \<and>
     obj_aligned (the_cache s' i) = obj_aligned (the_cache s i) \<and>
     objs_per_slab (the_cache s' i) = objs_per_slab (the_cache s i)"

lemma live_slots_finite:
  assumes "slab_okE i E lim s" "i < 32" "cache_used s ! i" shows "finite (live_slots s i)"
proof -
  from slab_okE_D(8)[OF assms] obtain xs ys zs where
    "cache_slabs (the_cache s i) (slab_pages s) = set (xs @ ys @ zs)" by (rule cache_okD)
  then have "live_slots s i \<subseteq> set (xs @ ys @ zs) \<times> {..<per_slab (the_cache s i)}" by (auto simp: live_slots_def)
  then show ?thesis by (rule finite_subset) simp
qed

text \<open>Taking an object of a slab that is ready.\<close>

lemma slab_take:
  assumes rd: "slab_ready i lim sl s s1" and i: "i < 32" "cache_used s ! i"
    and k: "k < per_slab (the_cache s i)" "\<not> used (slab_pages s1) sl k"
    and c: "slab_claim sl k (the_cache s1 i, slab_pages s1) = (c, st)"
    and s': "cache_pool s' = (cache_pool s1)[i := c\<lparr>total_allocs := n, active_objects := active_objects c + 1\<rparr>]"
      "cache_used s' = cache_used s1" "vmm s' = vmm s1" "slab_vaddr_cursor s' = slab_vaddr_cursor s1" "slab_pages s' = st"
  shows "cache_step i lim s s'" "(sl, k) \<notin> live_slots s i" "live_slots s' i = insert (sl, k) (live_slots s i)"
    "sl \<in> cache_slabs (the_cache s1 i) (slab_pages s1)" "outside_kept i s s'"
proof -
  let ?n = "per_slab (the_cache s i)" let ?c' = "c\<lparr>total_allocs := n, active_objects := active_objects c + 1\<rparr>"
  have ok: "slab_okE i {sl} lim s1" and live: "same_live s s1" and us: "cache_used s1 = cache_used s"
    and sp: "same_params (the_cache s i) (the_cache s1 i)" using rd by (simp_all add: slab_ready_def)
  obtain xs ys zs where o: "slabs_ok {sl} SLAB_PAGE_MAGIC i ?n (the_cache s1 i) (slab_pages s1) (sl # xs) ys zs"
    using rd by (auto simp: slab_ready_def)
  have n1: "per_slab (the_cache s1 i) = ?n" using sp by (simp add: same_params_def)
  have i1: "cache_used s1 ! i" using us i(2) by simp
  note cs = slabs_ok_slabs[OF o]
  note cl = slab_claim_ok[OF o k c] and f = kmem_fields[OF slab_claim_ok(5)[OF o k c]]
  obtain xs' ys' where x: "slabs_ok {} SLAB_PAGE_MAGIC i ?n c st xs' ys' zs" "set (xs' @ ys') = set (sl # xs @ ys)"
    using cl(1) by blast
  have n128: "?n \<le> 128" using o by (simp add: slabs_ok_def)
  have li: "live_slots s i = {(p, j). p \<in> set (sl # xs @ ys @ zs) \<and> j < ?n \<and> used (slab_pages s1) p j}"
    using live i live_slots_lists[OF o] n1 by (simp add: same_live_def)
  show ni: "(sl, k) \<notin> live_slots s i" using k(2) by (simp add: li)
  show "sl \<in> cache_slabs (the_cache s1 i) (slab_pages s1)" using cs by simp
  have set': "set (xs' @ ys' @ zs) = set ((sl # xs) @ ys @ zs)" using x(2) by auto
  have lv: "{(p, j). p \<in> set (xs' @ ys' @ zs) \<and> j < ?n \<and> used st p j} = insert (sl, k) (live_slots s i)"
    unfolding li set' using cl(2) k(1) n128 by auto
  have c': "objs_per_slab ?c' = objs_per_slab (the_cache s1 i)" "obj_aligned ?c' = obj_aligned (the_cache s1 i)"
    using f by simp_all
  have sl': "slabs_ok {} SLAB_PAGE_MAGIC i (per_slab ?c') ?c' (slab_pages s') xs' ys' zs"
    using slabs_ok_frame[OF x(1), of st ?c'] f(2) n1 s'(5) by simp
  have sub: "set (xs' @ ys' @ zs) = cache_slabs (the_cache s1 i) (slab_pages s1)" using set' cs by simp
  have fr: "slab_pages s' p = slab_pages s1 p" if "p \<notin> cache_slabs (the_cache s1 i) (slab_pages s1)" for p
    using cl(3)[of p] that s'(5) unfolding cs by simp
  have fin: "finite (live_slots s i)" using live_slots_finite[OF ok i(1) i1] live i by (simp add: same_live_def)
  have "active_objects (the_cache s1 i) = of_nat (card (live_slots s i))"
    using slab_okE_D(8)[OF ok i(1) i1] live i by (simp add: cache_ok_def Let_def same_live_def)
  then have act: "active_objects ?c' =
      of_nat (card {(p, j). p \<in> set (xs' @ ys' @ zs) \<and> j < per_slab ?c' \<and> used (slab_pages s') p j})"
    using lv f(2,3) n1 fin ni s'(5) by simp
  note up = slab_relist[OF ok i(1) i1 s'(1-4) c' sl' sub fr act]
  show "live_slots s' i = insert (sl, k) (live_slots s i)" using up(3) lv f(2) n1 s'(5) by simp
  have "cache_slabs (the_cache s' i) (slab_pages s') = cache_slabs (the_cache s1 i) (slab_pages s1)"
    using slabs_ok_slabs[OF sl'] sub up(4) by simp
  moreover have ok1: "outside_kept i s s1" using rd by (simp add: slab_ready_def)
  moreover from this have "slab_pages s' p = slab_pages s p"
    if "p \<notin> cache_slabs (the_cache s i) (slab_pages s)" "p \<noteq> slab_vaddr_cursor s" for p
    using fr[of p] that by (auto simp: outside_kept_def)
  ultimately show "outside_kept i s s'" using s'(3,4) up(5) unfolding outside_kept_def by auto
  show "cache_step i lim s s'"
    unfolding cache_step_def
    using up(1,2,4) slab_ok_iff[of i s'] i us s'(2) live f sp by (auto simp: same_live_def same_params_def)
qed

lemma slab_ready_find:
  assumes "slab_ready i lim sl s s1"
  obtains k where "find_free (sp_bitmap (slab_pages s1 sl)) 0 (unat (total_count (slab_pages s1 sl))) = Some k"
    "k < per_slab (the_cache s i)" "\<not> used (slab_pages s1) sl k"
proof -
  let ?n = "per_slab (the_cache s i)"
  obtain xs ys zs where o: "slabs_ok {sl} SLAB_PAGE_MAGIC i ?n (the_cache s1 i) (slab_pages s1) (sl # xs) ys zs"
    and ne: "slots ?n (slab_pages s1 sl) \<noteq> {}" using assms by (auto simp: slab_ready_def)
  have "hdr_ok SLAB_PAGE_MAGIC i ?n (slab_pages s1 sl)" using o by (simp add: slabs_ok_def)
  then have t: "unat (total_count (slab_pages s1 sl)) = ?n" by (simp add: hdr_ok_def)
  obtain j where "j < ?n" "\<not> used (slab_pages s1) sl j" using ne by (auto simp: slots_def)
  then have "find_free (sp_bitmap (slab_pages s1 sl)) 0 ?n \<noteq> None" using find_free_None by blast
  then obtain k where "find_free (sp_bitmap (slab_pages s1 sl)) 0 ?n = Some k" by blast
  then show thesis using that[of k] t find_free_Some by simp
qed

definition object_taken :: "nat \<Rightarrow> u64 \<Rightarrow> slab_state \<Rightarrow> u64 \<Rightarrow> slab_state \<Rightarrow> bool" where
  "object_taken i lim s ptr s' \<longleftrightarrow> ptr \<noteq> 0 \<and> cache_step i lim s s' \<and> outside_kept i s s' \<and>
     (\<exists>p k. ptr = obj_addr (the_cache s i) p k \<and> (p, k) \<notin> live_slots s i \<and>
       live_slots s' i = insert (p, k) (live_slots s i))"

lemma kmem_alloc_ready:
  assumes y: "slab_for_alloc i s = Some (sl, s1)" "slab_ready i lim sl s s1" and i: "i < 32" "cache_used s ! i"
  shows "\<exists>ptr s'. kmem_cache_alloc (Some i) s = Some (ptr, s') \<and> object_taken i lim s ptr s' \<and> vmm s' = vmm s1"
proof -
  obtain k where k: "find_free (sp_bitmap (slab_pages s1 sl)) 0 (unat (total_count (slab_pages s1 sl))) = Some k"
    "k < per_slab (the_cache s i)" "\<not> used (slab_pages s1) sl k" by (rule slab_ready_find[OF y(2)])
  obtain c st where c: "slab_claim sl k (the_cache s1 i, slab_pages s1) = (c, st)" by fastforce
  let ?c = "c\<lparr>total_allocs := total_allocs c + 1, active_objects := active_objects c + 1\<rparr>"
  let ?s1 = "put_cache i ?c (s1\<lparr>slab_pages := st\<rparr>)" and ?ptr = "obj_addr ?c sl k"
  let ?s' = "case ctor ?c of None \<Rightarrow> ?s1 | Some f \<Rightarrow> ?s1\<lparr>obj_calls := obj_calls ?s1 @ [(f, ?ptr)]\<rparr>"
  have e: "kmem_cache_alloc (Some i) s = Some (?ptr, ?s')"
    using y k(1) c by (simp add: kmem_cache_alloc_def slab_ready_def obj_addr_def Let_def split: option.splits)
  have f: "cache_pool ?s' = (cache_pool s1)[i := ?c]" "cache_used ?s' = cache_used s1" "vmm ?s' = vmm s1"
    "slab_vaddr_cursor ?s' = slab_vaddr_cursor s1" "slab_pages ?s' = st"
    by (simp_all add: put_cache_def split: option.splits)
  note t = slab_take[OF y(2) i k(2,3) c f]
  have ok1: "slab_okE i {sl} lim s1" "cache_used s1 ! i" using y(2) i by (auto simp: slab_ready_def)
  have len: "the_cache ?s' i = ?c" using f(1) slab_okE_D(2)[OF ok1(1)] i(1) by simp
  have al: "obj_aligned ?c = obj_aligned (the_cache s i)" using t(1) len by (simp add: cache_step_def)
  have p1: "per_slab (the_cache s1 i) = per_slab (the_cache s i)" "obj_aligned (the_cache s1 i) = obj_aligned (the_cache s i)"
    using y(2) by (simp_all add: slab_ready_def same_params_def)
  have pl: "4096 dvd unat sl" "unat sl + 4096 \<le> 2 ^ 64" "64 + (k + 1) * unat (obj_aligned ?c) \<le> 4096"
    "0 < unat (obj_aligned ?c)"
    using slab_place[OF ok1(1) i(1) ok1(2) t(4), of k] k(2) p1 al by simp_all
  have "unat ?ptr \<noteq> 0" unfolding obj_addr_decode(1)[OF pl] by simp
  then have "?ptr \<noteq> 0" by (metis unat_0)
  moreover have "?ptr = obj_addr (the_cache s i) sl k" using al by (simp add: obj_addr_def)
  ultimately have "object_taken i lim s ?ptr ?s'" unfolding object_taken_def using t(1-3,5) by blast
  then show ?thesis using e f(3) by blast
qed

lemma kmem_cache_alloc_spec:
  assumes ok: "slab_ok lim s" and i: "i < 32" "cache_used s ! i" and lim: "slab_vaddr_cursor s < lim"
  shows "\<exists>ptr s'. kmem_cache_alloc (Some i) s = Some (ptr, s') \<and> cache_step i lim s s' \<and> outside_kept i s s' \<and>
    (if ptr = 0 then live_slots s' i = live_slots s i \<and> card (free_set (pmm (vmm s))) \<le> 4
     else \<exists>p k. ptr = obj_addr (the_cache s i) p k \<and> (p, k) \<notin> live_slots s i \<and>
       live_slots s' i = insert (p, k) (live_slots s i))"
proof -
  have okE: "slab_okE i {} lim s" using slab_ok_iff[OF i] ok by simp
  from slab_for_alloc_spec[OF okE i lim] consider
    (no) s' where "slab_for_alloc i s = Some (0, s')" "slab_refused i lim s s'"
  | (yes) sl s1 where "slab_for_alloc i s = Some (sl, s1)" "slab_ready i lim sl s s1" by blast
  then show ?thesis
  proof cases
    case no
    have "cache_step i lim s s'"
      using no(2) i slab_ok_iff[of i s' lim] by (simp add: slab_refused_def cache_step_def same_live_def same_params_def)
    then show ?thesis using no i by (auto simp: kmem_cache_alloc_def slab_refused_def same_live_def)
  next
    case yes
    then show ?thesis using kmem_alloc_ready[OF yes i] by (auto simp: object_taken_def)
  qed
qed

text \<open>A cache with a free object in one of its slabs needs no memory.\<close>

lemma kmem_alloc_free_slot:
  assumes ok: "slab_ok lim s" and i: "i < 32" "cache_used s ! i"
    and p: "p \<in> cache_slabs (the_cache s i) (slab_pages s)" "k < per_slab (the_cache s i)" "(p, k) \<notin> live_slots s i"
  shows "\<exists>ptr s'. kmem_cache_alloc (Some i) s = Some (ptr, s') \<and> object_taken i lim s ptr s' \<and> vmm s' = vmm s"
proof -
  let ?c = "the_cache s i" let ?n = "per_slab ?c"
  have okE: "slab_okE i {} lim s" using slab_ok_iff[OF i] ok by simp
  from slab_okE_D(8)[OF okE i] obtain xs ys zs where o: "slabs_ok {} SLAB_PAGE_MAGIC i ?n ?c (slab_pages s) xs ys zs"
    "cache_slabs ?c (slab_pages s) = set (xs @ ys @ zs)" by (rule cache_okD)
  have "k \<in> slots ?n (slab_pages s p)" using p by (simp add: slots_def live_slots_def)
  then have "card (slots ?n (slab_pages s p)) \<noteq> 0" by auto
  then have "p \<in> set xs \<or> p \<in> set zs" using o p(1) by (auto simp: slabs_ok_def)
  then have "xs \<noteq> [] \<or> zs \<noteq> []" by auto
  then have "slabs_partial ?c \<noteq> 0 \<or> slabs_free ?c \<noteq> 0"
    using o(1) by (cases xs; cases zs) (auto simp: slabs_ok_def triple_def chain_def)
  from slab_for_alloc_lists[OF okE i this] obtain sl s1 where
    r: "slab_for_alloc i s = Some (sl, s1)" "slab_ready i lim sl s s1" "vmm s1 = vmm s" by blast
  then show ?thesis using kmem_alloc_ready[OF r(1,2) i] by auto
qed

section \<open>Release\<close>

text \<open>What \<open>kmem_cache_free\<close> computes from the address of an object, in use or not.\<close>

lemma slab_object:
  assumes ok: "slab_ok lim s" and i: "i < 32" "cache_used s ! i"
    and p: "p \<in> cache_slabs (the_cache s i) (slab_pages s)" "k < per_slab (the_cache s i)"
  shows "obj_addr (the_cache s i) p k \<noteq> 0" "obj_addr (the_cache s i) p k AND NOT 0xFFF = p"
    "(ucast ((obj_addr (the_cache s i) p k - (p + SLAB_HDR)) div obj_aligned (the_cache s i)) :: u32) = of_nat k"
    "page_present (vmm s) p" "sp_magic (slab_pages s p) = SLAB_PAGE_MAGIC" "sp_cache (slab_pages s p) = i"
    "unat (of_nat k :: u32) = k" "\<not> (of_nat k :: u32) \<ge> total_count (slab_pages s p)" "k < 128"
proof -
  let ?c = "the_cache s i" let ?n = "per_slab ?c" and ?o = "obj_addr ?c p k"
  have okE: "slab_okE i {} lim s" using slab_ok_iff[OF i] ok by simp
  from slab_okE_D(8)[OF okE i] obtain xs ys zs where o: "slabs_ok {} SLAB_PAGE_MAGIC i ?n ?c (slab_pages s) xs ys zs"
    "cache_slabs ?c (slab_pages s) = set (xs @ ys @ zs)" by (rule cache_okD)
  note pl = slab_place[OF okE i p] note dc = obj_addr_decode[OF pl(1-4)]
  have h: "hdr_ok SLAB_PAGE_MAGIC i ?n (slab_pages s p)" "?n \<le> 128" using o p(1) by (auto simp: slabs_ok_def)
  show "?o \<noteq> 0" using dc(1) pl(5) by auto
  show "?o AND NOT 0xFFF = p" "(ucast ((?o - (p + SLAB_HDR)) div obj_aligned ?c) :: u32) = of_nat k" by (fact dc)+
  show "page_present (vmm s) p"
    using slab_okE_D(9)[OF okE i] p(1) by (fastforce simp: page_present_def backed_def backed_page_def)
  show "sp_magic (slab_pages s p) = SLAB_PAGE_MAGIC" "sp_cache (slab_pages s p) = i" using h(1) by (simp_all add: hdr_ok_def)
  show idx: "unat (of_nat k :: u32) = k" using p(2) h(2) by (simp add: unat_of_nat take_bit_nat_eq_self)
  show "\<not> (of_nat k :: u32) \<ge> total_count (slab_pages s p)" using h p(2) idx by (simp add: hdr_ok_def word_le_nat_alt)
  show "k < 128" using p(2) h(2) by simp
qed

lemma kmem_cache_free_spec:
  assumes ok: "slab_ok lim s" and i: "i < 32" "cache_used s ! i"
    and p: "p \<in> cache_slabs (the_cache s i) (slab_pages s)" "k < per_slab (the_cache s i)"
  shows "\<exists>s'. kmem_cache_free (Some i) (obj_addr (the_cache s i) p k) s = Some s' \<and>
    (if (p, k) \<in> live_slots s i then cache_step i lim s s' \<and> live_slots s' i = live_slots s i - {(p, k)} \<and>
       cache_slabs (the_cache s' i) (slab_pages s') = cache_slabs (the_cache s i) (slab_pages s) \<and> outside_kept i s s' else s' = s)"
proof -
  let ?c = "the_cache s i" let ?n = "per_slab ?c" and ?o = "obj_addr ?c p k"
  have okE: "slab_okE i {} lim s" using slab_ok_iff[OF i] ok by simp
  have cok: "cache_ok {} s i" by (rule slab_okE_D(8)[OF okE i])
  then obtain xs ys zs where o: "slabs_ok {} SLAB_PAGE_MAGIC i ?n ?c (slab_pages s) xs ys zs"
    "cache_slabs ?c (slab_pages s) = set (xs @ ys @ zs)" by (rule cache_okD)
  note ob = slab_object[OF ok i p]
  have n: "?n \<le> 128" using o(1) by (simp add: slabs_ok_def)
  have live: "(p, k) \<in> live_slots s i \<longleftrightarrow> used (slab_pages s) p k" using p by (simp add: live_slots_def)
  show ?thesis
  proof (cases "used (slab_pages s) p k")
    case False
    then have "kmem_cache_free (Some i) ?o s = Some s"
      using ob by (simp add: kmem_cache_free_def Let_def)
    then show ?thesis using False live by simp
  next
    case True
    obtain c st where c: "slab_unclaim p k (?c, slab_pages s) = (c, st)" by fastforce
    let ?c' = "c\<lparr>total_frees := total_frees c + 1, active_objects := active_objects c - 1\<rparr>"
    let ?s1 = "case dtor ?c of None \<Rightarrow> s | Some f \<Rightarrow> s\<lparr>obj_calls := obj_calls s @ [(f, ?o)]\<rparr>"
    let ?s' = "put_cache i ?c' (?s1\<lparr>slab_pages := st\<rparr>)"
    have e: "kmem_cache_free (Some i) ?o s = Some ?s'"
      using True ob c by (simp add: kmem_cache_free_def Let_def split: option.splits)
    have f: "cache_pool ?s' = (cache_pool s)[i := ?c']" "cache_used ?s' = cache_used s" "vmm ?s' = vmm s"
      "slab_vaddr_cursor ?s' = slab_vaddr_cursor s" "slab_pages ?s' = st"
      by (simp_all add: put_cache_def split: option.splits)
    have pin: "p \<in> set (xs @ ys @ zs)" using p(1) o(2) by simp
    note u = slab_unclaim_ok[OF o(1) pin p(2) True c] and km = kmem_fields[OF slab_unclaim_ok(5)[OF o(1) pin p(2) True c]]
    obtain xs' ys' zs' where x: "slabs_ok {} SLAB_PAGE_MAGIC i ?n c st xs' ys' zs'" "set (xs' @ ys' @ zs') = set (xs @ ys @ zs)"
      using u(1) by blast
    have lv: "{(q, j). q \<in> set (xs' @ ys' @ zs') \<and> j < ?n \<and> used st q j} = live_slots s i - {(p, k)}"
      unfolding live_slots_lists[OF o(1) refl] x(2) using u(2) n by auto
    have pk: "(p, k) \<in> live_slots s i" "finite (live_slots s i)" using live True live_slots_finite[OF okE i] by simp_all
    then have cd: "0 < card (live_slots s i)" by (auto simp: card_gt_0_iff)
    have act: "active_objects ?c' =
        of_nat (card {(q, j). q \<in> set (xs' @ ys' @ zs') \<and> j < per_slab ?c' \<and> used (slab_pages ?s') q j})"
      using cok lv km(2,3) pk cd f(5) by (simp add: cache_ok_def Let_def of_nat_diff)
    have fr: "slab_pages ?s' q = slab_pages s q" if "q \<notin> cache_slabs ?c (slab_pages s)" for q
      using u(3)[of q] that o(2) f(5) by simp
    have sl: "slabs_ok {} SLAB_PAGE_MAGIC i (per_slab ?c') ?c' (slab_pages ?s') xs' ys' zs'"
      using slabs_ok_frame[OF x(1), of st ?c'] km(2) f(5) by simp
    have sub: "set (xs' @ ys' @ zs') = cache_slabs ?c (slab_pages s)" using x(2) o(2) by simp
    have cc: "objs_per_slab ?c' = objs_per_slab ?c" "obj_aligned ?c' = obj_aligned ?c" using km by simp_all
    note up = slab_relist[OF okE i f(1-4) cc sl sub fr act]
    have "cache_step i lim s ?s'"
      unfolding cache_step_def using up(1,2,4) slab_ok_iff[of i ?s'] i f(2) km by auto
    moreover have "live_slots ?s' i = live_slots s i - {(p, k)}" using up(3) lv km(2) f(5) by simp
    moreover have "cache_slabs (the_cache ?s' i) (slab_pages ?s') = cache_slabs ?c (slab_pages s)"
      using slabs_ok_slabs[OF sl] sub up(4) by simp
    moreover from this have "outside_kept i s ?s'" by (rule outside_kept_pages[OF f(3,4) _ up(5) fr])
    ultimately show ?thesis using e pk(1) by auto
  qed
qed

section \<open>Shrinking\<close>

definition slab_frame :: "slab_state \<Rightarrow> u64 \<Rightarrow> nat" where
  "slab_frame s p = frame (vmm s) (slab_pml4 s) p div 4096"

text \<open>One turn of the loop: the first free slab leaves the cache and its frame is free.\<close>

lemma shrink_step:
  assumes ok: "slab_okE i {} lim s" and i: "i < 32" "cache_used s ! i"
    and o: "slabs_ok {} SLAB_PAGE_MAGIC i (per_slab (the_cache s i)) (the_cache s i) (slab_pages s) xs ys (z # zs)"
  obtains s' where "shrink_loop i s = shrink_loop i s'" "slab_okE i {} lim s'" "cache_used s' = cache_used s"
    "same_live s s'" "same_params (the_cache s i) (the_cache s' i)"
    "slabs_ok {} SLAB_PAGE_MAGIC i (per_slab (the_cache s' i)) (the_cache s' i) (slab_pages s') xs ys zs"
    "free_set (pmm (vmm s')) = insert (slab_frame s z) (free_set (pmm (vmm s)))"
    "\<And>p. slab_frame s' p = slab_frame s p"
proof -
  let ?c = "the_cache s i" let ?n = "per_slab ?c" and ?t = "slab_pml4 s"
  have h: "slabs_free ?c = z" "z \<noteq> 0" "distinct (xs @ ys @ z # zs)" using o by (auto simp: slabs_ok_def triple_def)
  obtain hd' st where u: "slab_unlink (slabs_free ?c) z (slab_pages s) = (hd', st)" by fastforce
  note dr = slab_drop_ok[OF o u] and cs = slabs_ok_slabs[OF o] and d = slab_okE_D[OF ok]
  let ?v = "free_page (frame (vmm s) ?t z) (vmm s)"
  let ?c' = "?c\<lparr>slabs_free := hd', total_slabs := total_slabs ?c - 1\<rparr>"
  let ?s' = "s\<lparr>slab_pages := st, vmm := ?v, cache_pool := (cache_pool s)[i := ?c']\<rparr>"
  have zin: "z \<in> cache_slabs ?c (slab_pages s)" using cs by simp
  note pg = other_slabs_apart(2)[OF ok i]
  have bk: "backed (vmm s) ?t (insert z (other_slabs s i \<union> set (xs @ ys @ zs)))"
    by (rule backed_subset[OF d(9)[OF i]]) (use cs in auto)
  have nz: "z \<notin> other_slabs s i \<union> set (xs @ ys @ zs)" using other_slabs_apart(1)[OF ok i] zin h(3) by auto
  have bz: "backed_page (vmm s) ?t z" using bk by (simp add: backed_def)
  note ph = backed_phys[OF d(1) bz] and rb = release_backed[OF d(1) bk nz]
  have al: "4096 dvd unat z" using pg[of z] zin by simp
  have len: "i < length (cache_pool s)" using d(2) i(1) by simp
  have mask: "(0x000FFFFFFFFFF000 :: u64) = PAGE_MASK" by (simp add: PAGE_MASK_def)
  have e: "shrink_loop i s = shrink_loop i ?s'"
    using h(1,2) u len ph(1,2)[OF al] unfolding mask[symmetric]
    by (subst shrink_loop.simps) (simp add: put_cache_def Let_def)
  have t: "slab_pml4 ?s' = ?t" by (simp add: vmm_get_active_pml4_def free_page_def)
  have sl: "slabs_ok {} SLAB_PAGE_MAGIC i (per_slab ?c') ?c' (slab_pages ?s') xs ys zs"
    using slabs_ok_frame[OF dr(1), of st ?c'] by simp
  have lz: "\<not> used (slab_pages s) z k" if "k < ?n" for k using slabs_ok_used[OF o that] by auto
  have lv: "{(p, k). p \<in> set (xs @ ys @ zs) \<and> k < ?n \<and> used st p k} = live_slots s i"
    unfolding live_slots_lists[OF o refl] using dr(2) lz by auto
  have prem: "cache_pool ?s' = (cache_pool s)[i := ?c']" "cache_used ?s' = cache_used s"
    "objs_per_slab ?c' = objs_per_slab ?c" "obj_aligned ?c' = obj_aligned ?c" by simp_all
  have fr: "slab_pages ?s' p = slab_pages s p" if "p \<in> other_slabs s i" for p
    using dr(3)[of p] other_slabs_apart(1)[OF ok i] that cs by auto
  have pg': "KERNEL_HEAP_BASE \<le> p \<and> p < slab_vaddr_cursor ?s' \<and> 4096 dvd unat p" if "p \<in> set (xs @ ys @ zs)" for p
    using pg[of p] that cs by auto
  have act: "active_objects ?c' =
      of_nat (card {(p, k). p \<in> set (xs @ ys @ zs) \<and> k < per_slab ?c' \<and> used (slab_pages ?s') p k})"
    using lv d(8)[OF i] by (simp add: cache_ok_def Let_def)
  have v: "vmm_ok (vmm ?s') ?t" "cr3 (vmm ?s') = cr3 (vmm s)" "arena (vmm ?s') ?t (slab_vaddr_cursor ?s') lim"
    "slab_vaddr_cursor s \<le> slab_vaddr_cursor ?s'" "4096 dvd unat (slab_vaddr_cursor ?s')"
    "backed (vmm ?s') ?t (other_slabs s i \<union> set (xs @ ys @ zs))"
    using rb d(5,7) by (simp_all add: free_page_def arena_def)
  note up = slab_update[OF ok i prem sl fr pg' act v]
  have ci: "the_cache ?s' i = ?c'" using len by simp
  have "live_slots ?s' i = live_slots s i" using up(4) lv by simp
  then have "same_live s ?s'" using up(3) by (auto simp: same_live_def)
  moreover have "frame ?v ?t p = frame (vmm s) ?t p" for p by (simp add: frame_def free_page_def)
  then have "slab_frame ?s' p = slab_frame s p" for p unfolding slab_frame_def t by simp
  ultimately show thesis
    using that[OF e up(1)] sl ci rb(3) by (simp add: same_params_def slab_frame_def)
qed

lemma shrink_loop_spec:
  assumes "slab_okE i {} lim s" "i < 32" "cache_used s ! i"
    "slabs_ok {} SLAB_PAGE_MAGIC i (per_slab (the_cache s i)) (the_cache s i) (slab_pages s) xs ys zs"
  shows "\<exists>s'. shrink_loop i s = Some s' \<and> cache_step i lim s s' \<and> live_slots s' i = live_slots s i \<and>
    slabs_free (the_cache s' i) = 0 \<and> cache_slabs (the_cache s' i) (slab_pages s') = set (xs @ ys) \<and>
    free_set (pmm (vmm s')) = free_set (pmm (vmm s)) \<union> slab_frame s ` set zs"
  using assms
proof (induction zs arbitrary: s)
  case Nil
  then have "slabs_free (the_cache s i) = 0" by (simp add: slabs_ok_def triple_def)
  moreover have "cache_step i lim s s" using Nil slab_ok_iff[of i s lim] by (simp add: cache_step_def)
  ultimately show ?case using slabs_ok_slabs[OF Nil.prems(4)] by (subst shrink_loop.simps) simp
next
  case (Cons z zs)
  obtain s1 where s1: "shrink_loop i s = shrink_loop i s1" "slab_okE i {} lim s1"
    "cache_used s1 = cache_used s" "same_live s s1" "same_params (the_cache s i) (the_cache s1 i)"
    "slabs_ok {} SLAB_PAGE_MAGIC i (per_slab (the_cache s1 i)) (the_cache s1 i) (slab_pages s1) xs ys zs"
    "free_set (pmm (vmm s1)) = insert (slab_frame s z) (free_set (pmm (vmm s)))"
    "\<And>p. slab_frame s1 p = slab_frame s p"
    by (rule shrink_step[OF Cons.prems], rule that; assumption)
  have u: "cache_used s1 ! i" using s1(3) Cons.prems(3) by simp
  from Cons.IH[OF s1(2) Cons.prems(2) u s1(6)] obtain s' where s': "shrink_loop i s1 = Some s'" "cache_step i lim s1 s'"
    "live_slots s' i = live_slots s1 i" "slabs_free (the_cache s' i) = 0"
    "cache_slabs (the_cache s' i) (slab_pages s') = set (xs @ ys)"
    "free_set (pmm (vmm s')) = free_set (pmm (vmm s1)) \<union> slab_frame s1 ` set zs" by blast
  have "cache_step i lim s s'" using s'(2) s1(3-5) by (simp add: cache_step_def same_live_def same_params_def)
  moreover have "live_slots s' i = live_slots s i" using s'(3) s1(4) Cons.prems(2,3) by (simp add: same_live_def)
  moreover have "free_set (pmm (vmm s')) = free_set (pmm (vmm s)) \<union> slab_frame s ` set (z # zs)"
    using s'(6) s1(7,8) by auto
  ultimately show ?case using s'(1,4,5) s1(1) by simp
qed

section \<open>The registry\<close>

lemma free_slot_Some: "free_slot us i = Some k \<Longrightarrow> i \<le> k \<and> k - i < length us \<and> \<not> us ! (k - i)"
proof (induction us i rule: free_slot.induct)
  case (2 u us i)
  show ?case
  proof (cases u)
    case True
    then have k: "i + 1 \<le> k \<and> k - (i + 1) < length us \<and> \<not> us ! (k - (i + 1))" using 2 by simp
    then have "k - i = Suc (k - (i + 1))" by linarith
    then show ?thesis using k by simp
  qed (use 2 in simp)
qed simp

lemma free_slot_None: "free_slot us i = None \<Longrightarrow> \<forall>u\<in>set us. u"
  by (induction us i rule: free_slot.induct) (auto split: if_splits)

text \<open>A change of the registry at a slot that is not in use, before or after it gets used.\<close>

lemma slab_slot_change:
  assumes ok: "slab_ok lim s" and i: "i < 32" "\<not> cache_used s ! i"
    and s': "cache_pool s' = (cache_pool s)[i := c]" "cache_used s' = (cache_used s)[i := b]" "vmm s' = vmm s"
      "slab_vaddr_cursor s' = slab_vaddr_cursor s" "slab_pages s' = slab_pages s"
    and c: "b \<Longrightarrow> slabs_partial c = 0 \<and> slabs_full c = 0 \<and> slabs_free c = 0 \<and> active_objects c = 0 \<and>
      0 < per_slab c \<and> per_slab c \<le> 128 \<and> 16 \<le> unat (obj_aligned c) \<and> per_slab c * unat (obj_aligned c) \<le> 4032"
  shows "slab_ok lim s'" "\<And>j. j < 32 \<Longrightarrow> cache_used s ! j \<Longrightarrow> live_slots s' j = live_slots s j" "b \<Longrightarrow> live_slots s' i = {}"
proof -
  note d = slab_okE_D[OF ok]
  have cj: "the_cache s' j = the_cache s j" if "j \<noteq> i" for j using s'(1) that by simp
  have ci: "the_cache s' i = c" using s'(1) d(2) i(1) by simp
  have uj: "cache_used s' ! j = (if j = i then b else cache_used s ! j)" if "j < 32" for j
    using s'(2) d(3) that by (simp add: nth_list_update)
  show lj: "live_slots s' j = live_slots s j" if "j < 32" "cache_used s ! j" for j
    using that i cj[of j] s'(5) by (cases "j = i") (simp_all add: live_slots_def)
  have new: "slabs_ok {} SLAB_PAGE_MAGIC i (per_slab c) c (slab_pages s') [] [] []" if b
    using c[OF that] by (simp add: slabs_ok_def triple_def)
  show li: "live_slots s' i = {}" if b using slabs_ok_slabs[OF new[OF that]] ci by (simp add: live_slots_def)
  have cok: "cache_ok {} s' j" if j: "j < 32" "cache_used s' ! j" for j
  proof (cases "j = i")
    case True
    then have b using uj[OF j(1)] j(2) by simp
    then show ?thesis
      using new c li slabs_ok_slabs[OF new] ci True unfolding cache_ok_def Let_def by auto
  next
    case False
    then have u: "cache_used s ! j" using uj[OF j(1)] j(2) by simp
    then have "cache_ok {} s j" using ok j(1) by (auto simp: slab_okE_def)
    then show ?thesis using cj[OF False] lj[OF j(1) u] s'(4,5) by (simp add: cache_ok_def Let_def)
  qed
  have "other_slabs s' 32 \<subseteq> other_slabs s 32"
  proof
    fix p assume "p \<in> other_slabs s' 32"
    then obtain j where j: "j < 32" "cache_used s' ! j" "p \<in> cache_slabs (the_cache s' j) (slab_pages s')"
      by (auto simp: other_slabs_def)
    have "j \<noteq> i" using j slabs_ok_slabs[OF new] uj[OF j(1)] ci by auto
    then show "p \<in> other_slabs s 32" using j uj[OF j(1)] cj s'(5) by (auto simp: other_slabs_def)
  qed
  then have "backed (vmm s') (slab_pml4 s') (other_slabs s' 32)"
    using ok s'(3) backed_subset by (auto simp: slab_okE_def)
  then show "slab_ok lim s'" using ok s' cok by (simp add: slab_okE_def)
qed

lemma new_cache_ok:
  assumes "objs_per_slab (new_cache nm sz a ct dt) \<noteq> 0" (is "objs_per_slab ?c \<noteq> 0")
  shows "slabs_partial ?c = 0 \<and> slabs_full ?c = 0 \<and> slabs_free ?c = 0 \<and> active_objects ?c = 0 \<and>
    0 < per_slab ?c \<and> per_slab ?c \<le> 128 \<and> 16 \<le> unat (obj_aligned ?c) \<and> per_slab ?c * unat (obj_aligned ?c) \<le> 4032"
proof -
  let ?a = "aligned_size sz a"
  have as: "16 \<le> unat ?a" by (simp add: aligned_size_def Let_def word_less_nat_alt)
  have q: "unat ((4096 - SLAB_HDR) div ?a) = 4032 div unat ?a" by (simp add: SLAB_HDR_def unat_div)
  have "4032 div unat ?a \<le> 4032 div 16" using as by (intro div_le_mono2) simp_all
  then have n: "unat (slab_capacity ?a) \<le> 128" "unat (slab_capacity ?a) \<le> 4032 div unat ?a"
    by (simp_all add: slab_capacity_def Let_def word_less_nat_alt unsigned_ucast_eq take_bit_nat_eq_self q)
  have "unat (slab_capacity ?a) * unat ?a \<le> 4032"
    using mult_le_mono1[OF n(2), of "unat ?a"] div_times_less_eq_dividend[of 4032 "unat ?a"] by (rule le_trans)
  then show ?thesis using assms n(1) as by (simp add: new_cache_def zero_cache_def unat_gt_0)
qed

definition created :: "u64 \<Rightarrow> u64 \<Rightarrow> slab_state \<Rightarrow> nat \<Rightarrow> slab_state \<Rightarrow> bool" where
  "created sz al s i s' \<longleftrightarrow> i < 32 \<and> \<not> cache_used s ! i \<and> cache_used s' ! i \<and> live_slots s' i = {} \<and>
     obj_size (the_cache s' i) = sz \<and> obj_aligned (the_cache s' i) = aligned_size sz (if al = 0 then 8 else al)"

lemma kmem_cache_create_spec:
  assumes ok: "slab_ok lim s" and r: "kmem_cache_create name sz al ct dt s = (r, s')"
  shows "slab_ok lim s' \<and> (\<forall>j. j < 32 \<longrightarrow> cache_used s ! j \<longrightarrow> cache_used s' ! j \<and> live_slots s' j = live_slots s j) \<and>
    (\<forall>i. r = Some i \<longrightarrow> created sz al s i s')"
proof (cases "name = None \<or> sz = 0 \<or> free_slot (cache_used s) 0 = None")
  case True
  then have "r = None" "s' = s" using r by (auto simp: kmem_cache_create_def split: option.splits if_splits)
  then show ?thesis using ok by simp
next
  case False
  then obtain nm k where nm: "name = Some nm" "sz \<noteq> 0" "free_slot (cache_used s) 0 = Some k" by auto
  let ?c = "new_cache nm sz (if al = 0 then 8 else al) ct dt" let ?b = "objs_per_slab ?c \<noteq> 0"
  have rs: "(r, s') = (if objs_per_slab ?c = 0 then (None, put_cache k ?c s)
      else (Some k, (put_cache k ?c s)\<lparr>cache_used := (cache_used s)[k := True], cache_count := cache_count s + 1\<rparr>))"
    unfolding r[symmetric] by (cases "al = 0") (simp_all add: nm kmem_cache_create_def Let_def put_cache_def)
  have k: "k < 32" "\<not> cache_used s ! k" using free_slot_Some[OF nm(3)] slab_okE_D(3)[OF ok] by simp_all
  have pool: "cache_pool s' = (cache_pool s)[k := ?c]" "cache_used s' = (cache_used s)[k := ?b]" "vmm s' = vmm s"
    "slab_vaddr_cursor s' = slab_vaddr_cursor s" "slab_pages s' = slab_pages s"
    using rs k(2) list_update_id[of "cache_used s" k] by (auto simp: put_cache_def split: if_splits)
  note ch = slab_slot_change[OF ok k pool new_cache_ok]
  have len: "the_cache s' k = ?c" "k < length (cache_used s)" using pool(1) slab_okE_D(2,3)[OF ok] k(1) by simp_all
  have "created sz al s i s'" if "r = Some i" for i
    using ch(3) rs pool(2) k len that by (auto simp: created_def new_cache_def split: if_splits)
  moreover have "cache_used s' ! j" if "cache_used s ! j" for j
    using pool(2) that k(2) by (cases "j = k") simp_all
  ultimately show ?thesis using ch(1,2) by blast
qed

end
