(* ===== verification/Object_Allocator.thy ===== *)
theory Object_Allocator
  imports Kernel_Pages
begin

text \<open>
  What the clients of an allocator of kernel objects rely on, as an interface: an object is
  handed out only while it is not in use, and comes back when it is released. The object caches
  of \<^verbatim>\<open>kernel/src/mm/slab_cache.c\<close> and the heap of \<^verbatim>\<open>kernel/src/mm/heap.c\<close> provide it.
\<close>

section \<open>Histories\<close>

datatype obj_event = Got u64 | Gone u64

text \<open>The objects in use after a history, if no object was handed out twice and none was given back twice.\<close>

fun replay :: "obj_event list \<Rightarrow> u64 set \<Rightarrow> u64 set option" where
  "replay [] X = Some X"
| "replay (Got p # es) X = (if p \<in> X then None else replay es (insert p X))"
| "replay (Gone p # es) X = (if p \<in> X then replay es (X - {p}) else None)"

text \<open>
  The histories of an allocator: the objects that its calls hand out, and the releases that a
  client makes of objects in use. A call has a request, and one that fails leaves no event.
\<close>

inductive history ::
  "('r \<Rightarrow> 's \<Rightarrow> bool) \<Rightarrow> ('s \<Rightarrow> u64 set) \<Rightarrow> ('r \<Rightarrow> 's \<Rightarrow> (u64 \<times> 's) option) \<Rightarrow> (u64 \<Rightarrow> 's \<Rightarrow> 's option) \<Rightarrow>
    's \<Rightarrow> obj_event list \<Rightarrow> 's \<Rightarrow> bool"
  for room live alloc release where
  stop: "history room live alloc release s [] s"
| got: "room r s \<Longrightarrow> alloc r s = Some (p, s') \<Longrightarrow> p \<noteq> 0 \<Longrightarrow> history room live alloc release s' es s'' \<Longrightarrow>
    history room live alloc release s (Got p # es) s''"
| failed: "room r s \<Longrightarrow> alloc r s = Some (0, s') \<Longrightarrow> history room live alloc release s' es s'' \<Longrightarrow>
    history room live alloc release s es s''"
| gone: "p \<in> live s \<Longrightarrow> release p s = Some s' \<Longrightarrow> history room live alloc release s' es s'' \<Longrightarrow>
    history room live alloc release s (Gone p # es) s''"

section \<open>The interface\<close>

locale object_allocator =
  fixes inv :: "'s \<Rightarrow> bool"
    and room :: "'r \<Rightarrow> 's \<Rightarrow> bool"
    and live :: "'s \<Rightarrow> u64 set"
    and alloc :: "'r \<Rightarrow> 's \<Rightarrow> (u64 \<times> 's) option"
    and release :: "u64 \<Rightarrow> 's \<Rightarrow> 's option"
  assumes alloc_gives: "inv s \<Longrightarrow> room r s \<Longrightarrow> \<exists>p s'. alloc r s = Some (p, s') \<and> inv s' \<and>
      (if p = 0 then live s' = live s else p \<notin> live s \<and> live s' = insert p (live s))"
    and release_gives: "inv s \<Longrightarrow> p \<in> live s \<Longrightarrow> \<exists>s'. release p s = Some s' \<and> inv s' \<and> live s' = live s - {p}"
begin

lemma history_replay:
  assumes "history room live alloc release s es s'" "inv s"
  shows "inv s' \<and> replay es (live s) = Some (live s')"
  using assms
proof induction
  case (got r s p s' es s'')
  then show ?case using alloc_gives[OF got.prems got.hyps(1)] by simp
next
  case (failed r s s' es s'')
  then show ?case using alloc_gives[OF failed.prems failed.hyps(1)] by simp
next
  case (gone p s s' es s'')
  then show ?case using release_gives[OF gone.prems gone.hyps(1)] by simp
qed simp

end

end
