(* ===== verification/Vma_Loops.thy ===== *)
theory Vma_Loops
  imports Vma
begin

text \<open>
  What the loops of \<^verbatim>\<open>kernel/src/mm/vma.c\<close> keep whatever their arguments are: the shape of the tree,
  also for lists with empty regions, and the regions on one side of a boundary.
\<close>

section \<open>Invariants of the loops\<close>

lemma vma_remove_inv:
  assumes "vma_remove mem l s f = Some (b, l')" "I l"
    and step: "\<And>l v. I l \<Longrightarrow> vma_find_overlap l s f = Some v \<Longrightarrow> I (vma_remove_step mem l s f v)"
  shows "I l'"
proof -
  have "I (snd y)" if "vma_remove_loop mem l s f c = Some y" "I l" for c y l
    using that step
  proof (induction rule: vma_remove_loop.raw_induct[rotated, consumes 1])
    case (1 loop mem l s f c y)
    show ?case
    proof (cases "vma_find_overlap l s f")
      case (Some v)
      then have "loop mem (vma_remove_step mem l s f v) s f True = Some y" using 1(2) by simp
      then show ?thesis by (rule 1(1)[OF _ 1(4)[OF 1(3) Some]]) (fact 1(4))
    qed (use 1(2,3) in auto)
  qed
  from this[OF assms(1)[unfolded vma_remove_def] assms(2)] show ?thesis by simp
qed

lemma vma_mprotect_inv:
  assumes "vma_mprotect_loop mem l s f p cur = Some l'" "I l"
    and rem: "\<And>l a b r l'. I l \<Longrightarrow> vma_remove mem l a b = Some (r, l') \<Longrightarrow> I l'"
    and add: "\<And>l a b pr fl fd off. I l \<Longrightarrow> I (snd (vma_add mem l a b pr fl fd off))"
  shows "I l'"
  using assms
proof (induction rule: vma_mprotect_loop.raw_induct[rotated, consumes 1])
  case (1 loop mem l s f p cur y)
  show ?case
  proof (cases "cur < f")
    case False
    then have "y = l" using 1(2) by simp
    then show ?thesis using 1(3) by simp
  next
    case c: True
    show ?thesis
    proof (cases "vma_find l cur")
      case None
      show ?thesis
      proof (cases "vma_find_overlap l cur f")
        case n: None
        then have "y = l" using 1(2) c None by simp
        then show ?thesis using 1(3) by simp
      next
        case (Some v)
        then have "loop mem l s f p (v_start v) = Some y" using 1(2) c None by simp
        then show ?thesis by (rule 1(1)[OF _ 1(3)]) (fact 1(4), fact 1(5))
      qed
    next
      case (Some v)
      let ?s = "c_MAX (v_start v) s" and ?e = "c_MIN (v_end v) f"
      let ?add = "\<lambda>l1. snd (vma_add mem l1 ?s ?e p (v_flags v) (v_fd v) (v_offset v + (?s - v_start v)))"
      have e: "Option.bind (vma_remove mem l ?s ?e) (\<lambda>(_, l1). loop mem (?add l1) s f p ?e) = Some y"
        using 1(2) c Some by (simp add: Let_def)
      then obtain x where x: "vma_remove mem l ?s ?e = Some x" by (cases "vma_remove mem l ?s ?e") simp_all
      obtain r l1 where "x = (r, l1)" by fastforce
      then have r: "vma_remove mem l ?s ?e = Some (r, l1)" "loop mem (?add l1) s f p ?e = Some y" using e x by simp_all
      have "I (?add l1)" by (rule 1(5)[OF 1(4)[OF 1(3) r(1)]])
      then show ?thesis by (rule 1(1)[OF r(2)]) (fact 1(4), fact 1(5))
    qed
  qed
qed

lemma vma_merge_inv:
  assumes "vma_merge_loop mem l = Some l'" "I l"
    and cnt: "\<And>l n. I l \<Longrightarrow> I (l\<lparr>vl_allocs := n\<rparr>)"
    and rem: "\<And>l a b r l'. I l \<Longrightarrow> vma_remove mem l a b = Some (r, l') \<Longrightarrow> I l'"
    and add: "\<And>l a b pr fl fd off. I l \<Longrightarrow> I (snd (vma_add mem l a b pr fl fd off))"
  shows "I l'"
  using assms
proof (induction rule: vma_merge_loop.raw_induct[rotated, consumes 1])
  case (1 loop mem l y)
  let ?l1 = "l\<lparr>vl_allocs := Suc (vl_allocs l)\<rparr>"
  show ?case
  proof (cases "mem (vl_allocs l) \<and> find_mergeable (inorder_gather (vl_root l)) \<noteq> None")
    case False
    then have "y = ?l1" using 1(2) by (auto simp: vl_alloc_def split: if_splits option.splits)
    then show ?thesis using 1(3,4) by blast
  next
    case True
    then obtain c n where c: "mem (vl_allocs l)" "find_mergeable (inorder_gather (vl_root l)) = Some (c, n)" by auto
    let ?add = "\<lambda>l3. snd (vma_add mem l3 (v_start c) (v_end n) (v_prot c) (v_flags c) (-1) 0)"
    obtain r2 l2 r3 l3 where r: "vma_remove mem ?l1 (v_start c) (v_end c) = Some (r2, l2)"
      "vma_remove mem l2 (v_start n) (v_end n) = Some (r3, l3)" "loop mem (?add l3) = Some y"
      using 1(2) c by (auto simp: vl_alloc_def split: Option.bind_splits)
    have "I (?add l3)" by (rule 1(6)[OF 1(5)[OF 1(5)[OF 1(4)[OF 1(3)] r(1)] r(2)]])
    then show ?thesis by (rule 1(1)[OF r(3)]) (fact 1(4), fact 1(5), fact 1(6))
  qed
qed

section \<open>The shape of the tree\<close>

text \<open>
  A region whose start is in the tree already is not inserted, and the tree stays as it is.
\<close>

lemma insert_node_same:
  assumes "avl t" "bst t" "x \<in> regions t" "v_start x = v_start d"
  shows "insert_node t (Vma NULLV d e h NULLV) = t"
  using assms
proof (induction t)
  case (Vma l c m k r)
  have t: "Vma l c m k r = mk_node l c r" "\<bar>get_height l - get_height r\<bar> \<le> 1"
    using Vma.prems(1) avl_Vma_mk by auto
  have b: "y \<in> regions l \<Longrightarrow> v_start y < v_start c" "y \<in> regions r \<Longrightarrow> v_start c < v_start y" for y
    using Vma.prems(2) by auto
  consider "v_start d < v_start c" "x \<in> regions l" | "v_start c < v_start d" "x \<in> regions r" | "v_start d = v_start c"
    using Vma.prems(3,4) b by fastforce
  then show ?case
  proof cases
    case 1
    then have "insert_node (Vma l c m k r) (Vma NULLV d e h NULLV) = rebalance_insert (mk_node l c r) (Vma NULLV d e h NULLV)"
      using Vma.IH(1) Vma.prems by simp
    then show ?thesis unfolding rebalance_insert_balanced[OF t(2)] t(1) .
  next
    case 2
    then have "insert_node (Vma l c m k r) (Vma NULLV d e h NULLV) = rebalance_insert (mk_node l c r) (Vma NULLV d e h NULLV)"
      using Vma.IH(2) Vma.prems by auto
    then show ?thesis unfolding rebalance_insert_balanced[OF t(2)] t(1) .
  qed simp
qed simp

definition vma_shape :: "vma_list \<Rightarrow> bool" where
  "vma_shape l \<longleftrightarrow> avl (vl_root l) \<and> bst (vl_root l)"

lemma vma_ok_shape: "vma_ok l \<Longrightarrow> vma_shape l"
  by (simp add: vma_ok_def tree_ok_def vma_shape_def)

lemma vma_add_shape:
  assumes "vma_shape l" shows "vma_shape (snd (vma_add mem l s f prot flags fd off))"
proof -
  let ?d = "mk_region s f prot flags fd off"
  have "bst (insert_node (vl_root l) (Vma NULLV ?d e h NULLV))" for e h
    using assms insert_node_same[of "vl_root l" _ ?d] insert_node_bst[of "vl_root l" ?d]
    by (cases "\<exists>x\<in>regions (vl_root l). v_start x = v_start ?d") (auto simp: vma_shape_def)
  then show ?thesis
    using assms insert_node_avl[of "vl_root l" ?d] by (auto simp: vma_add_tree vma_shape_def tree_ins_def)
qed

lemma vma_remove_step_shape: "vma_shape l \<Longrightarrow> vma_shape (vma_remove_step mem l s f v)"
proof -
  assume "vma_shape l"
  then have "vma_shape (unlink l v)"
    by (simp add: vma_shape_def unlink_def tree_del_def delete_node_avl delete_node_bst)
  then show ?thesis by (simp add: vma_remove_step_unlink Let_def vma_add_shape)
qed

lemma vma_remove_shape: "vma_shape l \<Longrightarrow> vma_remove mem l s f = Some (b, l') \<Longrightarrow> vma_shape l'"
  using vma_remove_inv[of mem l s f b l' vma_shape] vma_remove_step_shape by blast

lemma vma_mprotect_shape: "vma_shape l \<Longrightarrow> vma_mprotect_loop mem l s f p cur = Some l' \<Longrightarrow> vma_shape l'"
  using vma_mprotect_inv[of mem l s f p cur l' vma_shape] vma_remove_shape vma_add_shape by blast

lemma vma_merge_shape:
  assumes "vma_shape l" "vma_merge_adjacent mem l = Some l'" shows "vma_shape l'"
proof (cases "vl_count l < 2")
  case False
  then have "vma_merge_loop mem l = Some l'" using assms(2) by (simp add: vma_merge_adjacent_def)
  moreover have "vma_shape (k\<lparr>vl_allocs := n\<rparr>)" if "vma_shape k" for k n using that by (simp add: vma_shape_def)
  ultimately show ?thesis using vma_merge_inv[of mem l l' vma_shape] assms(1) vma_remove_shape vma_add_shape by blast
qed (use assms in \<open>simp add: vma_merge_adjacent_def\<close>)

lemma clone_recursive_shape: "vma_shape dst \<Longrightarrow> vma_shape (clone_recursive mem dst t)"
  by (induction t arbitrary: dst) (simp_all add: Let_def vma_add_shape)

section \<open>Well-formed lists\<close>

lemma vma_add_ok: "vma_ok l \<Longrightarrow> s < f \<Longrightarrow> vma_ok (snd (vma_add mem l s f prot flags fd off))"
proof (cases "vma_find_overlap l s f")
  case None
  assume "vma_ok l" "s < f"
  then show ?thesis using adds_back_add None vma_find_overlap_None by (metis adds_back_def)
qed (simp add: vma_add_tree)

text \<open>The pieces that are left of a region are not empty, whatever the range is.\<close>

lemma vma_remove_keeps_ok:
  assumes "vma_ok l" "vma_remove mem l s f = Some (b, l')" shows "vma_ok l'"
proof (rule vma_remove_inv[where I = vma_ok, OF assms(2,1)])
  fix l v assume l: "vma_ok l" and v: "vma_find_overlap l s f = Some v"
  have "vma_ok (unlink l v)" using unlink_facts(1)[OF l] vma_find_overlap_Some[OF v] by blast
  then show "vma_ok (vma_remove_step mem l s f v)" by (simp add: vma_remove_step_unlink Let_def vma_add_ok)
qed

section \<open>Boundaries\<close>

text \<open>No region goes across the address \<open>c\<close>.\<close>

definition bounded_at :: "u64 \<Rightarrow> vma_list \<Rightarrow> bool" where
  "bounded_at c l \<longleftrightarrow> (\<forall>x\<in>vl_regions l. v_start x < c \<longrightarrow> v_end x \<le> c)"

lemma bounded_remove:
  assumes "vma_remove mem l s f = Some (b, l')" "s < f" "vma_ok l" "bounded_at c l"
  shows "bounded_at c l'"
proof -
  have "vma_ok l' \<and> bounded_at c l'"
  proof (rule vma_remove_inv[OF assms(1), where I = "\<lambda>l. vma_ok l \<and> bounded_at c l"])
    fix l v assume l: "vma_ok l \<and> bounded_at c l" and "vma_find_overlap l s f = Some v"
    then have v: "v \<in> vl_regions l" "overlaps v s f" using vma_find_overlap_Some by blast+
    have ok: "vma_ok l" and b: "v_start v < c \<longrightarrow> v_end v \<le> c" using l v(1) by (simp_all add: bounded_at_def)
    obtain Q where q: "Q \<subseteq> pieces v s f" "vl_regions (vma_remove_step mem l s f v) = (vl_regions l - {v}) \<union> Q"
      "vma_ok (vma_remove_step mem l s f v)"
      using vma_remove_step_pieces[OF ok v assms(2), of mem] unfolding adds_back_def unlink_facts(2)[OF ok v(1)] by blast
    have "v_start x < c \<longrightarrow> v_end x \<le> c" if "x \<in> pieces v s f" for x
    proof -
      have "x = left_piece v s \<and> v_start v < s \<or> x = right_piece v f \<and> f < v_end v"
        using that by (simp add: pieces_def split: if_splits)
      then show ?thesis using b v(2) assms(2) by (auto simp: left_piece_def right_piece_def overlaps_def)
    qed
    then show "vma_ok (vma_remove_step mem l s f v) \<and> bounded_at c (vma_remove_step mem l s f v)"
      using q l unfolding bounded_at_def by blast
  qed (use assms in simp)
  then show ?thesis ..
qed

lemma bounded_reprotect:
  assumes ok: "vma_ok l" and r: "reprotect mem l v ms me p = Some l'" "c \<le> ms" "ms < me" and b: "bounded_at c l"
  shows "bounded_at c l'"
proof -
  let ?add = "\<lambda>l1. vma_add mem l1 ms me p (v_flags v) (v_fd v) (v_offset v + (ms - v_start v))"
  obtain d l1 where l1: "vma_remove mem l ms me = Some (d, l1)" "l' = snd (?add l1)"
    using r(1) by (auto simp: reprotect_def split: Option.bind_splits)
  have b1: "bounded_at c l1" and ok1: "vma_ok l1"
    using bounded_remove[OF l1(1) r(3) ok b] vma_remove_keeps_ok[OF ok l1(1)] by simp_all
  show ?thesis
  proof (cases "\<forall>x\<in>vl_regions l1. \<not> overlaps x ms me")
    case True
    have "adds_back mem l1 l' {mk_region ms me p (v_flags v) (v_fd v) (v_offset v + (ms - v_start v))}"
      unfolding l1(2) by (rule adds_back_add[OF ok1 r(3) True])
    then obtain Q where
      "Q \<subseteq> {mk_region ms me p (v_flags v) (v_fd v) (v_offset v + (ms - v_start v))}" "vl_regions l' = vl_regions l1 \<union> Q"
      unfolding adds_back_def by blast
    moreover have "v_start x < c \<longrightarrow> v_end x \<le> c" if "x \<in> {mk_region ms me p (v_flags v) (v_fd v) (v_offset v + (ms - v_start v))}" for x
      using that r(2) by (auto simp: not_less)
    ultimately show ?thesis using b1 unfolding bounded_at_def by blast
  next
    case False
    then have "vma_find_overlap l1 ms me \<noteq> None" by (simp add: vma_find_overlap_None[OF ok1])
    then show ?thesis using l1(2) b1 by (simp add: vma_add_tree)
  qed
qed

text \<open>
  From a boundary on, the loop of \<open>vma_mprotect\<close> does what it would do with the boundary as the
  start of the range.
\<close>

lemma mprotect_boundary:
  assumes "vma_ok l" "bounded_at c l" "start \<le> c" "c \<le> cur"
  shows "vma_mprotect_loop mem l start fin p cur = vma_mprotect_loop mem l c fin p cur"
  using assms
proof (induction "unat fin - unat cur" arbitrary: l cur rule: less_induct)
  case less
  note ok = less.prems(1)
  consider (stop) "\<not> cur < fin" | (skip) v where "cur < fin" "vma_find l cur = None" "vma_find_overlap l cur fin = Some v"
    | (last) "cur < fin" "vma_find l cur = None" "vma_find_overlap l cur fin = None" | (hit) v where "cur < fin" "vma_find l cur = Some v"
    by (metis option.exhaust)
  then show ?case
  proof cases
    case (skip v)
    have v: "v \<in> vl_regions l" "overlaps v cur fin" using skip by (auto dest: vma_find_overlap_Some)
    then have "cur < v_start v" "v_start v < fin" using skip(2) vma_find_None[OF ok]
      by (auto simp: overlaps_def covers_def not_le)
    then have "unat fin - unat (v_start v) < unat fin - unat cur" "c \<le> v_start v"
      using less.prems(4) by (simp_all add: word_less_nat_alt word_le_nat_alt)
    from less.hyps[OF this(1) ok less.prems(2,3) this(2)] show ?thesis
      using skip by (subst (1 2) mprotect_loop_unfold) simp
  next
    case (hit v)
    let ?me = "min (v_end v) fin"
    have v: "v \<in> vl_regions l" "covers v cur" using hit vma_find_iff[OF ok] by auto
    then have "c \<le> v_start v" using less.prems(2,4) by (force simp: bounded_at_def covers_def)
    then have m: "max (v_start v) start = v_start v" "max (v_start v) c = v_start v" using less.prems(3) by auto
    have b: "v_start v < ?me" "?me \<le> v_end v" "cur < ?me" using v(2) hit(1) by (auto simp: covers_def)
    obtain l1 where l1: "reprotect mem l v (v_start v) ?me p = Some l1" "vma_ok l1"
      using reprotect_spec[OF ok v(1) order.refl b(1,2)] by metis
    have "bounded_at c l1" by (rule bounded_reprotect[OF ok l1(1) \<open>c \<le> v_start v\<close> b(1) less.prems(2)])
    moreover have "unat fin - unat ?me < unat fin - unat cur" "c \<le> ?me"
      using b less.prems(4) hit(1) by (auto simp: word_less_nat_alt word_le_nat_alt)
    ultimately have "vma_mprotect_loop mem l1 start fin p ?me = vma_mprotect_loop mem l1 c fin p ?me"
      using less.hyps l1(2) less.prems(3) by blast
    then show ?thesis using hit l1(1) m by (subst (1 2) mprotect_loop_unfold) simp
  next
    case stop
    then show ?thesis by (simp add: mprotect_loop_unfold[of _ _ _ _ _ cur])
  next
    case last
    then show ?thesis by (simp add: mprotect_loop_unfold[of _ _ _ _ _ cur])
  qed
qed

end
