(* ===== verification/Vma_Correct.thy ===== *)
theory Vma_Correct
  imports Vma_Loops
begin

text \<open>
  The correctness of the address-space operations of \<^verbatim>\<open>kernel/src/mm/vma.c\<close>: the
  invariant over every sequence of calls, and for each operation what it does to the
  attributes of every address.
\<close>

section \<open>Reachable lists\<close>

text \<open>
  The lists a process can own: initialised, then changed by the operations of the interface with
  any arguments. Allocations may fail at any point. The flag tells whether every range that was
  given to \<open>vma_add\<close> so far has been non-empty, which \<open>vma_add\<close> does not test.
\<close>

inductive vma_reachable :: "(nat \<Rightarrow> bool) \<Rightarrow> bool \<Rightarrow> vma_list \<Rightarrow> bool" for mem where
  r_init: "vma_reachable mem True (vma_list_init l)"
| r_add: "vma_reachable mem ne l \<Longrightarrow>
     vma_reachable mem (ne \<and> start < fin) (snd (vma_add mem l start fin prot flags fd offset))"
| r_remove: "vma_reachable mem ne l \<Longrightarrow> vma_remove mem l start fin = Some (b, l') \<Longrightarrow> vma_reachable mem ne l'"
| r_mprotect: "vma_reachable mem ne l \<Longrightarrow> vma_mprotect mem l start fin prot = Some (r, l') \<Longrightarrow>
     vma_reachable mem ne l'"
| r_merge: "vma_reachable mem ne l \<Longrightarrow> vma_merge_adjacent mem l = Some l' \<Longrightarrow> vma_reachable mem ne l'"
| r_clone: "vma_reachable mem ne src \<Longrightarrow> vma_reachable mem ne (vma_list_clone mem dst src)"
| r_gap: "vma_reachable mem ne l \<Longrightarrow> vma_reachable mem ne (snd (vma_find_gap mem l len base limit))"
| r_destroy: "vma_reachable mem ne l \<Longrightarrow> vma_reachable mem ne (fst (vma_list_destroy l))"

lemma vma_merge_adjacent_spec:
  assumes "vma_ok l"
  shows "\<exists>l'. vma_merge_adjacent mem l = Some l' \<and> merges mem l l' \<and> ((\<forall>n. mem n) \<longrightarrow> fully_merged l')"
  using vma_merge_loop_spec[OF assms] merges_refl[OF assms] fully_merged_small[OF assms]
  by (simp add: vma_merge_adjacent_def)

lemma find_gap_list: "\<exists>n. snd (vma_find_gap mem l len base limit) = l\<lparr>vl_allocs := n\<rparr>"
  by (auto simp: vma_find_gap_def vl_alloc_def split_def Let_def intro: exI[of _ "vl_allocs l"])

lemma vma_find_gap_ok: "vma_ok l \<Longrightarrow> vma_ok (snd (vma_find_gap mem l len base limit))"
  using find_gap_list[of mem l len base limit] by auto

lemma vma_find_gap_shape: "vma_shape l \<Longrightarrow> vma_shape (snd (vma_find_gap mem l len base limit))"
  using find_gap_list[of mem l len base limit] by (auto simp: vma_shape_def)

lemma vma_reachable_shape: "vma_reachable mem ne l \<Longrightarrow> vma_shape l"
proof (induction rule: vma_reachable.induct)
  case (r_remove ne l start fin b l')
  then show ?case using vma_remove_shape by blast
next
  case (r_mprotect ne l start fin prot r l')
  then show ?case using vma_mprotect_shape by (auto simp: vma_mprotect_def)
next
  case (r_merge ne l l')
  then show ?case using vma_merge_shape by blast
next
  case (r_clone ne src dst)
  show ?case unfolding vma_list_clone_def by (rule clone_recursive_shape) (simp add: vma_shape_def vma_list_init_def)
qed (simp_all add: vma_add_shape vma_find_gap_shape, simp_all add: vma_shape_def vma_list_init_def vma_list_destroy_def)

lemma vma_reachable_ok: "vma_reachable mem ne l \<Longrightarrow> ne \<Longrightarrow> vma_ok l"
proof (induction rule: vma_reachable.induct)
  case (r_remove ne l start fin b l')
  then show ?case using vma_remove_keeps_ok by blast
next
  case (r_mprotect ne l start fin prot r l')
  then show ?case
    using vma_mprotect_loop_spec[OF _ order_refl[of start], of l mem fin prot] by (auto simp: vma_mprotect_def)
next
  case (r_merge ne l l')
  then show ?case using vma_merge_adjacent_spec[of l mem] by (auto simp: merges_def)
next
  case (r_clone ne src dst)
  then show ?case using vma_list_clone_spec[of src mem dst] by (simp add: adds_back_def)
next
  case (r_destroy ne l)
  then show ?case by (simp add: vma_list_destroy_def vma_ok_def vl_regions_def tree_ok_def disjoint_regions_def)
qed (simp_all add: vma_add_ok vma_find_gap_ok)

text \<open>An empty region maps no address.\<close>

lemma empty_region_view:
  assumes "vma_ok l" "vma_shape l1" "vl_regions l1 = insert d (vl_regions l)" "v_start d = v_end d"
  shows "vma_view l1 = vma_view l"
proof
  fix a
  have nd: "\<not> covers d a" using assms(4) by (auto simp: covers_def)
  show "vma_view l1 a = vma_view l a"
  proof (cases "vma_find l a")
    case None
    then have nc: "\<not> covers y a" if "y \<in> vl_regions l1" for y
      using nd assms(3) vma_find_None[OF assms(1)] that by auto
    have "vma_find l1 a = None"
    proof (cases "vma_find l1 a")
      case (Some y)
      then show ?thesis using find_sound[of "vl_root l1" a y] nc[of y] by (simp add: vma_find_def vl_regions_def)
    qed simp
    then show ?thesis using None by (simp add: vma_view_def)
  next
    case (Some x)
    then have x: "x \<in> vl_regions l" "covers x a" using vma_find_iff[OF assms(1)] by auto
    then have "vma_find l1 a \<noteq> None"
      using find_complete[of "vl_root l1" x a] assms(2,3) by (auto simp: vma_find_def vma_shape_def vl_regions_def)
    then obtain y where y: "vma_find l1 a = Some y" by blast
    then have "y \<in> vl_regions l" "covers y a"
      using find_sound[of "vl_root l1" a y] nd assms(3) by (auto simp: vma_find_def vl_regions_def)
    then have "vma_find l a = Some y" using vma_find_iff[OF assms(1)] by auto
    then show ?thesis using y by (simp add: vma_view_def)
  qed
qed

section \<open>Correctness of the interface\<close>

text \<open>A list with two regions, for concrete instances.\<close>

definition demo_list :: vma_list where
  "demo_list =
     snd (vma_add (\<lambda>_. True)
       (snd (vma_add (\<lambda>_. True) \<lparr>vl_root = NULLV, vl_count = 0, vl_allocs = 0\<rparr>
          0x1000 0x3000 3 0x22 (-1) 0))
       0x5000 0x7000 1 0x02 4 0x800)"

lemma demo_list_eq:
  "demo_list = \<lparr>vl_root =
       Vma NULLV \<lparr>v_start = 0x1000, v_end = 0x3000, v_prot = 3, v_flags = 0x22, v_offset = 0, v_fd = -1\<rparr> 0x7000 2
         (Vma NULLV \<lparr>v_start = 0x5000, v_end = 0x7000, v_prot = 1, v_flags = 0x02, v_offset = 0x800, v_fd = 4\<rparr>
            0x7000 1 NULLV),
     vl_count = 2, vl_allocs = 2\<rparr>"
  by code_simp

lemma demo_list_ok: "vma_ok demo_list"
  by (simp add: demo_list_eq vma_ok_def vl_regions_def tree_ok_def disjoint_regions_def apart_def)

lemma demo_list_views:
  "vma_view demo_list 0x6100 = Some (1, 2, 4, 0x1900)"
  "vma_view demo_list 0x2400 = Some (3, 0x22, -1, 0x1400)"
  "vma_view demo_list 0x2900 = Some (3, 0x22, -1, 0x1900)"
  "vma_view demo_list 0x5010 = Some (1, 2, 4, 0x810)"
  unfolding demo_list_eq by code_simp+

text \<open>
  C1. Every list reachable through the operations of vma.c, whatever their arguments are, is
  a balanced search tree by start address whose cached heights and maximal ends are exact, so
  a height of \<open>h\<close> needs at least \<open>2 ^ (h div 2) - 1\<close> regions. As long as no call of \<open>vma_add\<close> had an
  empty range, the regions are also non-empty and pairwise disjoint, and \<open>count\<close> is their number.
\<close>

theorem vma_invariant:
  assumes "vma_reachable mem ne l"
  shows "avl (vl_root l) \<and> bst (vl_root l) \<and>
    2 ^ (nat (get_height (vl_root l)) div 2) \<le> card (vl_regions l) + 1 \<and>
    (ne \<longrightarrow> disjoint_regions (vl_regions l) \<and> vl_count l = int (card (vl_regions l)))"
proof -
  have sh: "avl (vl_root l)" "bst (vl_root l)" using vma_reachable_shape[OF assms] by (simp_all add: vma_shape_def)
  then have "2 ^ (nat (get_height (vl_root l)) div 2) \<le> card (vl_regions l) + 1"
    using avl_height_card[of "vl_root l"] by (simp add: vl_regions_def)
  moreover have "disjoint_regions (vl_regions l) \<and> vl_count l = int (card (vl_regions l))" if ne
    using vma_reachable_ok[OF assms that] by (simp add: vma_ok_def tree_ok_def vl_regions_def)
  ultimately show ?thesis using sh by blast
qed

theorem vma_invariant_witness:
  "avl (vl_root demo_list) \<and> vl_count demo_list = int (card (vl_regions demo_list))"
proof -
  have "vma_reachable (\<lambda>_. True) True (vma_list_init \<lparr>vl_root = NULLV, vl_count = 0, vl_allocs = 0\<rparr>)"
    by (rule r_init)
  note r_add[OF r_add[OF this, of "0x1000" "0x3000" 3 "0x22" "-1" 0], of "0x5000" "0x7000" 1 "0x02" 4 "0x800"]
  then have "vma_reachable (\<lambda>_. True) True demo_list" unfolding demo_list_def vma_list_init_def by simp
  from vma_invariant[OF this] show ?thesis by simp
qed

text \<open>
  C17. \<open>vma_add\<close> accepts an empty range, and such a region makes a later mapping vanish: in any well
  formed list, when nothing is mapped in [p, q) and memory is available, adding [p, p) and then
  [p, q) returns 0 both times, but no address of the range gets mapped and \<open>count\<close> is one more than
  the number of regions, because the second node has the start of the first and is dropped.
\<close>

theorem vma_add_empty_range:
  assumes "vma_ok l" "\<forall>n. mem n" "p < q" "\<forall>x\<in>vl_regions l. \<not> overlaps x p q"
    and "vma_add mem l p p prot flags fd off = (r1, l1)" "vma_add mem l1 p q prot' flags' fd' off' = (r2, l2)"
  shows "r1 = 0 \<and> r2 = 0 \<and> vma_view l2 = vma_view l \<and> (\<forall>a. in_range p q a \<longrightarrow> vma_view l2 a = None) \<and>
    vl_count l2 = int (card (vl_regions l2)) + 1"
proof -
  let ?d = "mk_region p p prot flags fd off"
  have ne: "v_start x < v_end x" if "x \<in> vl_regions l" for x
    using vl_regions_disjoint[OF assms(1)] that by (simp add: disjoint_regions_def)
  have fresh: "v_start x \<noteq> p" if "x \<in> vl_regions l" for x using assms(3,4) ne that by (force simp: overlaps_def)
  have o1: "\<not> overlaps x p p" if "x \<in> vl_regions l" for x using assms(3,4) that by (force simp: overlaps_def)
  have sh: "vma_shape l" by (rule vma_ok_shape[OF assms(1)])
  have "vma_find_overlap l p p = None" using o1 by (simp add: vma_find_overlap_None[OF assms(1)])
  then have l1: "r1 = 0" "l1 = l\<lparr>vl_allocs := Suc (vl_allocs l), vl_root := tree_ins (vl_root l) ?d, vl_count := vl_count l + 1\<rparr>"
    using assms(2,5) by (simp_all add: vma_add_tree)
  have r1: "vl_regions l1 = insert ?d (vl_regions l)"
    using insert_node_regions[of "vl_root l" ?d] sh fresh by (simp add: l1(2) vl_regions_def tree_ins_def vma_shape_def)
  have sh1: "vma_shape l1" using vma_add_shape[OF sh, of mem p p prot flags fd off] assms(5) by simp
  have no: "\<not> overlaps x p q" if "x \<in> vl_regions l1" for x using that assms(4) r1 by (auto simp: overlaps_def)
  have "vma_find_overlap l1 p q = None"
  proof (cases "vma_find_overlap l1 p q")
    case (Some x)
    then show ?thesis using vma_find_overlap_Some[of l1 p q x] no[of x] by blast
  qed simp
  moreover have "tree_ins (vl_root l1) (mk_region p q prot' flags' fd' off') = vl_root l1"
    unfolding tree_ins_def
    by (rule insert_node_same[of _ ?d]) (use sh1 r1 in \<open>simp_all add: vma_shape_def vl_regions_def\<close>)
  ultimately have l2: "r2 = 0" "vl_root l2 = vl_root l1" "vl_count l2 = vl_count l + 2"
    using assms(2,6) by (auto simp: vma_add_tree l1(2))
  have v: "vma_view l2 = vma_view l"
    using empty_region_view[OF assms(1) sh1 r1] l2(2) by (simp add: vma_view_def vma_find_def fun_eq_iff)
  have "vma_view l2 a = None" if "in_range p q a" for a
    unfolding v vma_view_None[OF assms(1)] using assms(4) that by (auto simp: overlaps_def covers_def in_range_def)
  moreover have "card (vl_regions l2) = card (vl_regions l) + 1"
  proof -
    have "?d \<notin> vl_regions l" using fresh[of ?d] by auto
    moreover have "vl_regions l2 = vl_regions l1" using l2(2) by (simp add: vl_regions_def)
    moreover have "finite (vl_regions l)" by (simp add: vl_regions_def)
    ultimately show ?thesis using r1 by simp
  qed
  moreover have "vl_count l = int (card (vl_regions l))" using assms(1) by (simp add: vma_ok_def)
  ultimately show ?thesis using l1(1) l2(1,3) v by simp
qed

theorem vma_add_empty_range_witness:
  "case vma_add (\<lambda>_. True) demo_list 0x3000 0x3000 3 2 (-1) 0 of (r1, l1) \<Rightarrow>
     case vma_add (\<lambda>_. True) l1 0x3000 0x4000 3 2 (-1) 0 of (r2, l2) \<Rightarrow> r1 = 0 \<and> r2 = 0 \<and> vma_view l2 0x3800 = None"
proof -
  have p: "(0x3000 :: 64 word) < 0x4000" by simp
  have n: "\<forall>x\<in>vl_regions demo_list. \<not> overlaps x 0x3000 0x4000" by (simp add: demo_list_eq vl_regions_def overlaps_def)
  obtain r1 l1 r2 l2 where
    "vma_add (\<lambda>_. True) demo_list 0x3000 0x3000 3 2 (-1) 0 = (r1, l1)"
    "vma_add (\<lambda>_. True) l1 0x3000 0x4000 3 2 (-1) 0 = (r2, l2)" by (metis surj_pair)
  moreover from vma_add_empty_range[OF demo_list_ok _ p n this]
  have "r1 = 0 \<and> r2 = 0" "in_range 0x3000 0x4000 0x3800 \<longrightarrow> vma_view l2 0x3800 = None" by blast+
  ultimately show ?thesis by (simp add: in_range_def)
qed

text \<open>
  C2. \<open>vma_add\<close> returns 0 exactly when the range meets no mapped region and a node can be
  allocated. Then the addresses of the range carry the new attributes and all
  others are as before; otherwise it returns -1 and no address changes.
\<close>

theorem vma_add_correct:
  assumes "vma_ok l" "start < fin"
  shows "case vma_add mem l start fin prot flags fd offset of (r, l') \<Rightarrow>
     vma_ok l' \<and>
     (r = 0 \<longleftrightarrow> (\<forall>x\<in>vl_regions l. \<not> overlaps x start fin) \<and> mem (vl_allocs l)) \<and>
     (r = 0 \<longrightarrow> (\<forall>a. vma_view l' a =
        (if in_range start fin a then Some (prot, flags, fd, offset + (a - start)) else vma_view l a))) \<and>
     (r \<noteq> 0 \<longrightarrow> r = -1 \<and> vma_view l' = vma_view l)"
proof (cases "(\<forall>x\<in>vl_regions l. \<not> overlaps x start fin) \<and> mem (vl_allocs l)")
  case True
  have c: "covers (mk_region start fin prot flags fd offset) a = in_range start fin a" for a
    by (simp add: covers_def in_range_def)
  show ?thesis
    using vma_add_success[OF assms True[THEN conjunct1], of mem prot flags fd offset] True
    by (auto simp: split_def vma_view_def c attr_at_def)
next
  case False
  then have "vma_find_overlap l start fin \<noteq> None \<or> \<not> mem (vl_allocs l)"
    using vma_find_overlap_None[OF assms(1)] by auto
  then show ?thesis using False assms(1) vma_add_tree[of mem l start fin prot flags fd offset] by auto
qed

theorem vma_add_correct_witness:
  "fst (vma_add (\<lambda>_. True) demo_list 0x3000 0x5000 5 2 (-1) 0) = 0 \<and>
   fst (vma_add (\<lambda>_. True) demo_list 0x2000 0x5000 5 2 (-1) 0) = -1"
  using vma_add_correct[OF demo_list_ok, of "0x3000" "0x5000" "\<lambda>_. True" 5 2 "-1" 0]
    vma_add_correct[OF demo_list_ok, of "0x2000" "0x5000" "\<lambda>_. True" 5 2 "-1" 0]
  by (auto simp: split_def demo_list_eq vl_regions_def overlaps_def)

text \<open>
  C3. \<open>vma_remove\<close> always returns, and reports whether the range met a mapped region.
  Afterwards no address of the range is mapped; no other address changes its attributes
  (splitting keeps file offsets), though an address outside the range may be lost when the node for a split-off
  piece cannot be allocated.
\<close>

theorem vma_remove_correct:
  assumes "vma_ok l" "start < fin"
  shows "\<exists>l'. vma_remove mem l start fin = Some (\<exists>x\<in>vl_regions l. overlaps x start fin, l') \<and> vma_ok l' \<and>
     (\<forall>a. in_range start fin a \<longrightarrow> vma_view l' a = None) \<and>
     (\<forall>a. vma_view l' a = None \<or> vma_view l' a = vma_view l a) \<and>
     ((\<forall>n. mem n) \<longrightarrow> (\<forall>a. \<not> in_range start fin a \<longrightarrow> vma_view l' a = vma_view l a))"
proof -
  obtain l' where "vma_remove mem l start fin = Some (busy l start fin \<noteq> {}, l')"
    "removes mem start fin l l'" "busy l' start fin = {}" "vma_ok l'"
    using vma_remove_ok[OF assms] by metis
  moreover have "busy l start fin \<noteq> {} \<longleftrightarrow> (\<exists>x\<in>vl_regions l. overlaps x start fin)"
    by (auto simp: busy_def)
  ultimately show ?thesis using busy_empty_view[of l' start fin] by (auto simp: removes_def)
qed

theorem vma_remove_correct_witness:
  "\<exists>l'. vma_remove (\<lambda>_. True) demo_list 0x5800 0x6000 = Some (True, l') \<and>
     vma_view l' 0x5900 = None \<and> vma_view l' 0x6100 = Some (1, 2, 4, 0x1900)"
proof -
  obtain l' where l': "vma_remove (\<lambda>_. True) demo_list 0x5800 0x6000 =
      Some (\<exists>x\<in>vl_regions demo_list. overlaps x 0x5800 0x6000, l')"
    "\<forall>a. in_range 0x5800 0x6000 a \<longrightarrow> vma_view l' a = None"
    "\<forall>a. \<not> in_range 0x5800 0x6000 a \<longrightarrow> vma_view l' a = vma_view demo_list a"
    using vma_remove_correct[OF demo_list_ok, of "0x5800" "0x6000" "\<lambda>_. True"] by auto
  have "vma_view l' 0x5900 = None" using l'(2) by (simp add: in_range_def)
  moreover have "vma_view l' 0x6100 = Some (1, 2, 4, 0x1900)"
    using l'(3) demo_list_views by (simp add: in_range_def)
  moreover have "\<exists>x\<in>vl_regions demo_list. overlaps x 0x5800 0x6000"
    by (simp add: demo_list_eq vl_regions_def overlaps_def)
  ultimately show ?thesis using l'(1) by simp
qed

text \<open>
  C4. \<open>vma_mprotect\<close> always returns 0 and, with memory available, changes no address outside
  the range and nothing but the protection inside it; if the whole range is mapped, every
  address of it has the new protection.
\<close>

theorem vma_mprotect_correct:
  assumes "vma_ok l"
  shows "\<exists>l'. vma_mprotect mem l start fin prot = Some (0, l') \<and> vma_ok l' \<and>
     ((\<forall>n. mem n) \<longrightarrow>
        (\<forall>a. \<not> in_range start fin a \<longrightarrow> vma_view l' a = vma_view l a) \<and>
        (\<forall>a. vma_view l' a = vma_view l a \<or> vma_view l' a = map_option (set_prot prot) (vma_view l a)) \<and>
        ((\<forall>a. in_range start fin a \<longrightarrow> vma_view l a \<noteq> None) \<longrightarrow>
           (\<forall>a. in_range start fin a \<longrightarrow> vma_view l' a = map_option (set_prot prot) (vma_view l a))))"
  using vma_mprotect_loop_spec[OF assms order_refl[of start], of mem fin prot]
  by (auto simp: vma_mprotect_def protects_def)

theorem vma_mprotect_correct_witness:
  "\<exists>l'. vma_mprotect (\<lambda>_. True) demo_list 0x2000 0x2800 1 = Some (0, l') \<and>
     vma_view l' 0x2400 = Some (1, 0x22, -1, 0x1400) \<and> vma_view l' 0x2900 = Some (3, 0x22, -1, 0x1900)"
proof -
  have full: "\<forall>a. in_range 0x2000 0x2800 a \<longrightarrow> vma_view demo_list a \<noteq> None"
  proof (intro allI impI)
    fix a :: u64
    assume "in_range 0x2000 0x2800 a"
    then have "0x1000 \<le> a \<and> a < 0x3000" "a < 0x7000"
      by (auto simp: in_range_def elim: order_trans[rotated] less_trans order.strict_trans)
    then show "vma_view demo_list a \<noteq> None" by (simp add: demo_list_eq vma_view_def vma_find_def)
  qed
  obtain l' where l': "vma_mprotect (\<lambda>_. True) demo_list 0x2000 0x2800 1 = Some (0, l')"
    "\<forall>a. \<not> in_range 0x2000 0x2800 a \<longrightarrow> vma_view l' a = vma_view demo_list a"
    "\<forall>a. in_range 0x2000 0x2800 a \<longrightarrow> vma_view l' a = map_option (set_prot 1) (vma_view demo_list a)"
    using vma_mprotect_correct[OF demo_list_ok, of "\<lambda>_. True" "0x2000" "0x2800" 1] full by blast
  have "vma_view l' 0x2400 = Some (1, 0x22, -1, 0x1400)" "vma_view l' 0x2900 = Some (3, 0x22, -1, 0x1900)"
    using l'(2,3) demo_list_views by (simp_all add: in_range_def set_prot_def)
  then show ?thesis using l'(1) by blast
qed

definition skip_list :: vma_list where
  "skip_list =
     (let add = (\<lambda>s l. snd (vma_add (\<lambda>_. True) l s (s + 0x1000) 3 0x22 (-1) 0))
      in add 0x5000 (add 0x1000 (add 0x3000 \<lparr>vl_root = NULLV, vl_count = 0, vl_allocs = 0\<rparr>)))"

lemma skip_list_eq:
  "skip_list = \<lparr>vl_root =
       Vma (Vma NULLV (mk_region 0x1000 0x2000 3 0x22 (-1) 0) 0x2000 1 NULLV) (mk_region 0x3000 0x4000 3 0x22 (-1) 0) 0x6000 2
         (Vma NULLV (mk_region 0x5000 0x6000 3 0x22 (-1) 0) 0x6000 1 NULLV),
     vl_count = 3, vl_allocs = 3\<rparr>"
  by code_simp

text \<open>
  C8. \<open>vma_mprotect\<close> misses mapped addresses behind a hole: it continues at whichever overlapping
  region the tree search meets first, which need not be the lowest one. In any well formed list,
  when the range starts in a hole and meets the region at the root of the tree, all addresses below that
  region keep their attributes, those of the range included, although the call returns 0.
\<close>

theorem vma_mprotect_skips:
  assumes "vma_ok l" "\<forall>n. mem n" "start < fin" "vma_view l start = None" "vl_root l = Vma lt d m h rt" "overlaps d start fin"
  shows "\<exists>l'. vma_mprotect mem l start fin prot = Some (0, l') \<and> (\<forall>a. a < v_start d \<longrightarrow> vma_view l' a = vma_view l a)"
proof -
  have d: "d \<in> vl_regions l" using assms(5) by (simp add: vl_regions_def)
  have f: "vma_find l start = None" "vma_find_overlap l start fin = Some d"
    using assms(4-6) by (simp_all add: vma_view_def vma_find_overlap_def overlaps_def)
  then have "\<not> covers d start" using vma_find_None[OF assms(1)] d by blast
  then have st: "start \<le> v_start d" using assms(6) by (auto simp: covers_def overlaps_def)
  have "bounded_at (v_start d) l"
    using vl_regions_disjoint[OF assms(1)] d by (fastforce simp: bounded_at_def disjoint_regions_def apart_def)
  note e = mprotect_boundary[OF assms(1) this st order.refl, of mem fin prot]
  obtain l' where l': "vma_mprotect_loop mem l (v_start d) fin prot (v_start d) = Some l'" "protects (v_start d) fin prot (v_start d) l l'"
    using vma_mprotect_loop_spec[OF assms(1) order.refl[of "v_start d"], of mem fin prot] assms(2) by blast
  have "vma_mprotect mem l start fin prot = Some (0, l')"
    unfolding vma_mprotect_def using mprotect_loop_unfold[of mem l start fin prot start] assms(3) f e l'(1) by simp
  moreover have "vma_view l' a = vma_view l a" if "a < v_start d" for a
  proof -
    have "\<not> in_range (v_start d) fin a" using that by (auto simp: in_range_def)
    then show ?thesis using l'(2) unfolding protects_def by blast
  qed
  ultimately show ?thesis by blast
qed

theorem vma_mprotect_skips_witness:
  "\<exists>l'. vma_mprotect (\<lambda>_. True) skip_list 0 0x6000 1 = Some (0, l') \<and> in_range 0 0x6000 0x1000 \<and>
     vma_view l' 0x1000 = Some (3, 0x22, -1, 0)"
proof -
  have ok: "vma_ok skip_list"
    by (simp add: skip_list_eq vma_ok_def vl_regions_def tree_ok_def disjoint_regions_def apart_def)
  have v: "vma_view skip_list 0 = None" "vma_view skip_list 0x1000 = Some (3, 0x22, -1, 0)" unfolding skip_list_eq by code_simp+
  obtain l' where "vma_mprotect (\<lambda>_. True) skip_list 0 0x6000 1 = Some (0, l')"
    "\<forall>a. a < v_start (mk_region 0x3000 0x4000 3 0x22 (-1) 0) \<longrightarrow> vma_view l' a = vma_view skip_list a"
    using vma_mprotect_skips[OF ok _ _ v(1), of "\<lambda>_. True" "0x6000" _ "mk_region 0x3000 0x4000 3 0x22 (-1) 0" "0x6000" 2 _ 1]
    by (auto simp: skip_list_eq overlaps_def)
  then show ?thesis using v(2) by (auto simp: in_range_def)
qed

text \<open>
  C5. \<open>vma_find_gap\<close> is sound and complete: an address it returns starts at or after the base,
  and a window of the requested length there is unmapped; if it returns 0 although the scan array
  was allocated, every window between a non-zero base and the limit meets a region.
\<close>

theorem vma_find_gap_correct:
  assumes "vma_ok l"
  shows "case vma_find_gap mem l len base limit of (g, l') \<Rightarrow>
     vma_view l' = vma_view l \<and>
     (g \<noteq> 0 \<longrightarrow> base \<le> g \<and> (\<forall>a. in_window g len a \<longrightarrow> vma_view l a = None)) \<and>
     (g = 0 \<and> base \<noteq> 0 \<and> 0 < len \<and> mem (vl_allocs l) \<longrightarrow>
        (\<forall>w. base \<le> w \<and> unat w + unat len \<le> unat limit \<longrightarrow> (\<exists>a. in_window w len a \<and> vma_view l a \<noteq> None)))"
proof -
  let ?g = "fst (vma_find_gap mem l len base limit)"
  have 1: "base \<le> ?g \<and> (\<forall>a. in_window ?g len a \<longrightarrow> vma_view l a = None)" if "?g \<noteq> 0"
    using vma_find_gap_sound[OF assms refl that] gap_not_covers vma_view_None[OF assms] by blast
  have 2: "\<exists>a. in_window w len a \<and> vma_view l a \<noteq> None"
    if h: "?g = 0" "base \<noteq> 0" "0 < len" "mem (vl_allocs l)" "base \<le> w" "unat w + unat len \<le> unat limit" for w
  proof -
    obtain x where x: "x \<in> vl_regions l" "\<not> window_free w len x"
      using vma_find_gap_complete[OF assms h(1-6)] by blast
    have "v_start x < v_end x" using x(1) vl_regions_disjoint[OF assms] by (simp add: disjoint_regions_def)
    then have "in_window w len (max w (v_start x)) \<and> covers x (max w (v_start x))"
      using x(2) h(3) by (auto simp: window_free_def in_window_def covers_def max_def word_less_nat_alt word_le_nat_alt unat_sub)
    then show ?thesis using x(1) vma_view_None[OF assms] by blast
  qed
  obtain n where "snd (vma_find_gap mem l len base limit) = l\<lparr>vl_allocs := n\<rparr>" using find_gap_list by blast
  then show ?thesis using 1 2 by (auto simp: split_def)
qed

theorem vma_find_gap_correct_witness:
  "in_window 0x3000 0x1000 0x3abc \<and> vma_view demo_list 0x3abc = None \<and>
   fst (vma_find_gap (\<lambda>_. True) demo_list 0x1000 0x1000 0x10000) = 0x3000"
proof -
  have g: "fst (vma_find_gap (\<lambda>_. True) demo_list 0x1000 0x1000 0x10000) = 0x3000"
    unfolding demo_list_eq by code_simp
  moreover have "in_window 0x3000 0x1000 0x3abc" by (simp add: in_window_def)
  ultimately show ?thesis
    using vma_find_gap_correct[OF demo_list_ok, where mem = "\<lambda>_. True" and len = "0x1000"
        and base = "0x1000" and limit = "0x10000"] by (auto simp: split_def)
qed

text \<open>
  C6. \<open>vma_merge_adjacent\<close> always returns and keeps the list well formed, never with more
  regions than before. With memory available every address keeps its attributes (the offset of
  an anonymous mapping aside) and no two neighbours that could be merged are left.
\<close>

theorem vma_merge_adjacent_correct:
  assumes "vma_ok l"
  shows "\<exists>l'. vma_merge_adjacent mem l = Some l' \<and> vma_ok l' \<and> vl_count l' \<le> vl_count l \<and>
     (\<forall>a. vma_view l' a = None \<or> map_option anon_attr (vma_view l' a) = map_option anon_attr (vma_view l a)) \<and>
     ((\<forall>n. mem n) \<longrightarrow>
        (\<forall>a. map_option anon_attr (vma_view l' a) = map_option anon_attr (vma_view l a)) \<and>
        (\<forall>x\<in>vl_regions l'. \<forall>y\<in>vl_regions l'. \<not> mergeable x y))"
  using vma_merge_adjacent_spec[OF assms, of mem] unfolding merges_def fully_merged_def by metis

theorem vma_merge_adjacent_correct_witness:
  "\<exists>l'. vma_merge_adjacent (\<lambda>_. True) demo_list = Some l' \<and> vma_ok l' \<and>
     map_option anon_attr (vma_view l' 0x2400) = Some (3, 0x22, -1, 0)"
proof -
  obtain l' where "vma_merge_adjacent (\<lambda>_. True) demo_list = Some l'" "vma_ok l'"
    "\<forall>a. map_option anon_attr (vma_view l' a) = map_option anon_attr (vma_view demo_list a)"
    using vma_merge_adjacent_correct[OF demo_list_ok, of "\<lambda>_. True"] by auto
  moreover have "map_option anon_attr (vma_view demo_list 0x2400) = Some (3, 0x22, -1, 0)"
    by (simp add: demo_list_views anon_attr_def)
  ultimately show ?thesis by metis
qed

text \<open>
  C7. \<open>vma_list_clone\<close> gives a list that is well formed and maps no address the source does not map the same way;
  with memory available it maps exactly the same addresses with the same attributes and the same regions.
\<close>

theorem vma_list_clone_correct:
  assumes "vma_ok src"
  shows "vma_ok (vma_list_clone mem dst src) \<and>
     (\<forall>a. vma_view (vma_list_clone mem dst src) a = None \<or>
          vma_view (vma_list_clone mem dst src) a = vma_view src a) \<and>
     ((\<forall>n. mem n) \<longrightarrow> vma_view (vma_list_clone mem dst src) = vma_view src \<and>
        vl_count (vma_list_clone mem dst src) = vl_count src)"
proof -
  let ?c = "vma_list_clone mem dst src"
  obtain Q where Q: "vma_ok ?c" "vl_regions ?c = Q" "Q \<subseteq> vl_regions src" "(\<forall>n. mem n) \<longrightarrow> Q = vl_regions src"
    using vma_list_clone_spec[OF assms, of mem dst] by (auto simp: adds_back_def)
  have "vma_view ?c a = None \<or> vma_view ?c a = vma_view src a" for a
  proof (cases "vma_view ?c a")
    case (Some t)
    then have "vma_view src a = Some t" using Q(2,3) vma_view_regions[OF assms] vma_view_regions[OF Q(1)] by blast
    then show ?thesis using Some by simp
  qed simp
  moreover have "vma_view ?c = vma_view src \<and> vl_count ?c = vl_count src" if "\<forall>n. mem n"
  proof
    show "vma_view ?c = vma_view src" using same_regions_view(1)[OF assms Q(1)] Q that by auto
    show "vl_count ?c = vl_count src" using Q that assms by (simp add: vma_ok_def)
  qed
  ultimately show ?thesis using Q(1) by blast
qed

theorem vma_list_clone_correct_witness:
  "vma_view (vma_list_clone (\<lambda>_. True) demo_list demo_list) 0x5010 = Some (1, 2, 4, 0x810)"
proof -
  have "vma_view (vma_list_clone (\<lambda>_. True) demo_list demo_list) = vma_view demo_list"
    using vma_list_clone_correct[OF demo_list_ok, of "\<lambda>_. True" demo_list] by simp
  then show ?thesis by (simp add: demo_list_views)
qed

end
