(* ===== verification/Vmm_Props.thy ===== *)
theory Vmm_Props
  imports Vmm_User Pmm_Props Vma_Correct
begin

text \<open>
  The properties of the page-table manager: mapping and unmapping refine updates of the map
  from virtual pages to entries, translation reads that map, a copy-on-write fault gives a
  private copy, demand paging gives a zeroed page, and the validation of user ranges.
\<close>

unbundle bit_operations_syntax

section \<open>A small machine\<close>

text \<open>
  Memory is all zero and the page allocator is the one of the example boot. The empty PML4
  is page 1, which the allocator does not manage.
\<close>

definition demo_thread :: thread where
  "demo_thread = \<lparr>t_tid = 7, t_cr3 = 0x1000, t_mm = Some demo_list\<rparr>"

definition demo_vmm :: vmm_state where
  "demo_vmm = \<lparr>pmm = demo_pmm, mem = (\<lambda>_. 0), cr3 = 0x1000, kernel_pml4 = 0x1000, vmm_initialized = True,
     current_thread = Some demo_thread, tlb_flushes = [], exit_events = []\<rparr>"

lemma zero_tab: "tab (\<lambda>_. 0) t p = (if p = [] then Some t else None)"
  by (cases p) auto

lemma zero_pt_wf: "4096 dvd t \<Longrightarrow> pt_wf (\<lambda>_. 0) t"
  unfolding pt_wf_def page_tables_def by (auto simp: zero_tab split: if_splits)

lemma zero_aspace: "aspace (\<lambda>_. 0) t p = None"
proof -
  have "snd (walk (\<lambda>_. 0) t p) = 0"
    by (induction "\<lambda>_ :: nat. 0 :: u64" t p rule: walk.induct) auto
  then show ?thesis by (auto simp: aspace_def split: prod.splits)
qed

lemma demo_vmm_ok: "vmm_ok demo_vmm 0x1000"
proof -
  have "page_tables (\<lambda>_. 0) 0x1000 = {0x1000}"
    unfolding page_tables_def by (auto simp: zero_tab vpath_def split: if_splits)
  moreover have "pt_wf (\<lambda>_. 0) 0x1000" by (rule zero_pt_wf) simp
  ultimately show ?thesis
    by (simp add: vmm_ok_def table_pages_def demo_vmm_def demo_pmm_spec)
qed

lemma demo_vmm_mem [simp]: "mem demo_vmm = (\<lambda>_. 0)" "pmm demo_vmm = demo_pmm"
  "current_thread demo_vmm = Some demo_thread"
  by (simp_all add: demo_vmm_def)

lemma demo_no_huge: "no_huge (mem demo_vmm) t q"
  by (simp add: no_huge_def zero_aspace)

section \<open>Mapping and unmapping\<close>

text \<open>
  C18. On an address that no huge page covers, which the code does not test,
  \<open>vmm_map_page\<close> refines the update of a map from virtual pages to entries: it returns, and
  on success the page has exactly the given frame and flags, present, while every other
  virtual page keeps its entry, and the TLB entry is flushed. It fails only with no page
  left for a table, and then maps nothing. The tables stay well formed, apart from the free
  pages, and no other page of memory is written.
\<close>

theorem vmm_map_page_correct:
  assumes "vmm_ok s t" "no_huge (mem s) t (va_path va)"
  shows "\<exists>r s'. vmm_map_page t va pa flags s = Some (r, s') \<and> vmm_ok s' t \<and>
    (\<forall>q. vpath 4 q \<and> length q = 4 \<longrightarrow> aspace (mem s') t q =
       (if r \<and> q = va_path va then Some (0, (pa AND PAGE_MASK) OR flags OR PAGE_FLAG_PRESENT)
        else aspace (mem s) t q)) \<and>
    tlb_flushes s' = tlb_flushes s @ (if r then [va] else []) \<and> (r \<or> free_set (pmm s') = {}) \<and>
    (\<forall>x. 4096 dvd x \<and> x \<notin> page_tables (mem s') t \<longrightarrow> (\<forall>a\<in>words x. mem s' a = mem s a))"
proof -
  obtain r s' where r: "vmm_map_page t va pa flags s = Some (r, s')"
    "if r then mapped t s va (map_entry pa flags) s' else map_failed t s s'"
    using vmm_map_page_spec[OF assms] by blast
  show ?thesis
  proof (cases r)
    case True
    then have m: "mapped t s va (map_entry pa flags) s'" using r(2) by simp
    then show ?thesis using r(1) True table_stepD(4)[of t s s'] by (auto simp: mapped_def map_entry_def)
  next
    case False
    then have m: "map_failed t s s'" using r(2) by simp
    then show ?thesis using r(1) False table_stepD(4)[of t s s'] by (auto simp: map_failed_def)
  qed
qed

theorem vmm_map_page_correct_witness:
  "\<exists>r s'. vmm_map_page 0x1000 0x400000 0x110000 0x6 demo_vmm = Some (r, s') \<and> vmm_ok s' 0x1000 \<and>
     (r \<longrightarrow> aspace (mem s') 0x1000 [0, 0, 2, 0] = Some (0, 0x110007))"
proof -
  have v: "va_path 0x400000 = [0, 0, 2, 0]" by code_simp
  have e: "(0x110000 AND PAGE_MASK) OR 0x6 OR PAGE_FLAG_PRESENT = (0x110007 :: u64)" by code_simp
  obtain r s' where m: "vmm_map_page 0x1000 0x400000 0x110000 0x6 demo_vmm = Some (r, s')" "vmm_ok s' 0x1000"
    "\<forall>q. vpath 4 q \<and> length q = 4 \<longrightarrow> aspace (mem s') 0x1000 q =
       (if r \<and> q = va_path 0x400000 then Some (0, (0x110000 AND PAGE_MASK) OR 0x6 OR PAGE_FLAG_PRESENT)
        else aspace (mem demo_vmm) 0x1000 q)"
    using vmm_map_page_correct[OF demo_vmm_ok demo_no_huge, of "0x400000" "0x110000" "0x6"] by (elim exE conjE) blast
  have "r \<longrightarrow> aspace (mem s') 0x1000 [0, 0, 2, 0] = Some (0, 0x110007)"
    using m(3)[rule_format, of "[0, 0, 2, 0]"] v e by (simp add: vpath_def)
  then show ?thesis using m(1,2) by blast
qed

text \<open>
  C19. \<open>vmm_unmap_page\<close> removes the entry of the page, unless a huge page covers it, and keeps
  the entry of every other virtual page, although it also frees the tables that became
  empty: the tables stay well formed and apart from the free pages, the new set of tables is
  a part of the old one and nothing outside the old tables is written.
\<close>

theorem vmm_unmap_page_correct:
  assumes "vmm_ok s t" and "s' = vmm_unmap_page t va s"
  shows "vmm_ok s' t \<and> page_tables (mem s') t \<subseteq> page_tables (mem s) t \<and>
    (\<forall>q. vpath 4 q \<and> length q = 4 \<longrightarrow> aspace (mem s') t q =
       (if q = va_path va \<and> no_huge (mem s) t q then None else aspace (mem s) t q)) \<and>
    (\<forall>x. 4096 dvd x \<and> x \<notin> page_tables (mem s) t \<longrightarrow> (\<forall>a\<in>words x. mem s' a = mem s a))"
  using vmm_unmap_page_spec[OF assms(1), of va] unfolding assms(2) unmapped_def by simp

theorem vmm_unmap_page_correct_witness:
  "\<exists>r s'. vmm_map_page 0x1000 0x400000 0x110000 0x6 demo_vmm = Some (r, s') \<and>
     (r \<longrightarrow> aspace (mem s') 0x1000 [0, 0, 2, 0] = Some (0, 0x110007)) \<and>
     aspace (mem (vmm_unmap_page 0x1000 0x400000 s')) 0x1000 [0, 0, 2, 0] = None"
proof -
  have v: "va_path 0x400000 = [0, 0, 2, 0]" and e: "map_entry 0x110000 0x6 = 0x110007" by code_simp+
  obtain r s' where m: "vmm_map_page 0x1000 0x400000 0x110000 0x6 demo_vmm = Some (r, s')"
    "if r then mapped 0x1000 demo_vmm 0x400000 (map_entry 0x110000 0x6) s' else map_failed 0x1000 demo_vmm s'"
    using vmm_map_page_spec[OF demo_vmm_ok demo_no_huge, of "0x400000" "0x110000" "0x6"] by blast
  have ok: "vmm_ok s' 0x1000" using m(2) by (auto simp: mapped_def map_failed_def split: if_splits)
  have p: "vpath 4 [0, 0, 2, 0]" by (simp add: vpath_def)
  then have a: "aspace (mem s') 0x1000 [0, 0, 2, 0] = (if r then Some (0, 0x110007) else None)"
    using m(2) v e by (auto simp: mapped_def map_failed_def zero_aspace split: if_splits)
  then have "no_huge (mem s') 0x1000 [0, 0, 2, 0]" by (simp add: no_huge_def)
  then show ?thesis using vmm_unmap_page_correct[OF ok refl, of "0x400000"] m(1) v a p by auto
qed

section \<open>Translation\<close>

text \<open>
  C20. Round trip of mapping and translation, for an address that no huge page covers: after a
  successful \<open>vmm_map_page\<close> with flags outside the address bits, \<open>vmm_virt_to_phys\<close> gives the frame with the offset of the address, and the
  translation of every other page is the one before. After \<open>vmm_unmap_page\<close> of the page the
  translation is 0, and the others are still as before.
\<close>

theorem vmm_translate_roundtrip:
  assumes ok: "vmm_ok s t" and nh: "no_huge (mem s) t (va_path va)" and fl: "flags AND PAGE_MASK = 0"
  shows "\<exists>r s'. vmm_map_page t va pa flags s = Some (r, s') \<and>
    (r \<longrightarrow> vmm_virt_to_phys s' t va = (pa AND PAGE_MASK) OR (va AND 0xFFF) \<and>
           vmm_virt_to_phys (vmm_unmap_page t va s') t va = 0) \<and>
    (\<forall>va'. va_path va' \<noteq> va_path va \<longrightarrow> vmm_virt_to_phys s' t va' = vmm_virt_to_phys s t va' \<and>
       vmm_virt_to_phys (vmm_unmap_page t va s') t va' = vmm_virt_to_phys s t va')"
proof -
  obtain r s' where r: "vmm_map_page t va pa flags s = Some (r, s')"
    "if r then mapped t s va (map_entry pa flags) s' else map_failed t s s'"
    using vmm_map_page_spec[OF ok nh] by blast
  let ?u = "vmm_unmap_page t va s'"
  have ok': "vmm_ok s' t" using r(2) by (auto simp: mapped_def map_failed_def split: if_splits)
  have u: "unmapped t s' va ?u" by (rule vmm_unmap_page_spec[OF ok'])
  then have oku: "vmm_ok ?u t" by (simp add: unmapped_def)
  have a1: "aspace (mem s') t (va_path x) =
      (if r \<and> va_path x = va_path va then Some (0, map_entry pa flags) else aspace (mem s) t (va_path x))" for x
    using r(2) by (auto simp: mapped_def map_failed_def split: if_splits)
  have a2: "aspace (mem ?u) t (va_path x) =
      (if va_path x = va_path va \<and> no_huge (mem s') t (va_path x) then None else aspace (mem s') t (va_path x))" for x
    using u by (simp add: unmapped_def)
  have "r \<Longrightarrow> no_huge (mem s') t (va_path va)" using a1[of va] by (simp add: no_huge_def)
  moreover have "map_entry pa flags AND PAGE_MASK = pa AND PAGE_MASK"
  proof -
    have "\<not> (bit flags n \<and> 12 \<le> n \<and> n < 52)" for n
      using arg_cong[OF fl, of "\<lambda>w. bit w n"] by (simp add: bit_and_iff PAGE_MASK_bits)
    then show ?thesis
      by (intro bit_eqI) (auto simp: map_entry_def bit_simps PAGE_MASK_bits flag_bits)
  qed
  ultimately show ?thesis
    using r(1) a1 a2 vmm_virt_to_phys_aspace[OF vmm_okD(2)[OF ok]] vmm_virt_to_phys_aspace[OF vmm_okD(2)[OF ok']]
      vmm_virt_to_phys_aspace[OF vmm_okD(2)[OF oku]]
    by (intro exI[of _ r] exI[of _ s']) (simp add: translate_def)
qed

theorem vmm_translate_roundtrip_witness:
  "\<exists>r s'. vmm_map_page 0x1000 0x400123 0x110000 0x6 demo_vmm = Some (r, s') \<and>
     (r \<longrightarrow> vmm_virt_to_phys s' 0x1000 0x400123 = 0x110123)"
proof -
  have e: "(0x6 AND PAGE_MASK) = 0" "(0x110000 AND PAGE_MASK) OR (0x400123 AND 0xFFF) = (0x110123 :: u64)"
    by code_simp+
  show ?thesis
    using vmm_translate_roundtrip[OF demo_vmm_ok demo_no_huge e(1), of "0x400123" "0x110000"] e(2) by auto
qed

section \<open>User ranges\<close>



text \<open>
  C28. The sum of address and size may wrap around, and then the check accepts a range that
  covers the whole kernel half: for every thread, \<^verbatim>\<open>0xFFFFFFFFFFFFF000\<close> bytes from
  \<^verbatim>\<open>0x1000\<close> are valid, whatever regions the thread has.
\<close>

theorem user_range_wraps:
  assumes "current_thread s = Some t"
  shows "vmm_is_user_addr_range_valid s 0x1000 0xFFFFFFFFFFFFF000 = Some True"
  using range_valid_wraps_spec[OF assms] .

theorem user_range_wraps_witness:
  "vmm_is_user_addr_range_valid (demo_vmm\<lparr>current_thread := Some (demo_thread\<lparr>t_mm := None\<rparr>)\<rparr>)
     0x1000 0xFFFFFFFFFFFFF000 = Some True"
  by (rule user_range_wraps[where t = "demo_thread\<lparr>t_mm := None\<rparr>"]) simp

section \<open>Page faults\<close>

text \<open>A machine with one copy-on-write page: frame 5 at the address 0.\<close>

definition cow_mem :: "nat \<Rightarrow> u64" where
  "cow_mem = (\<lambda>_. 0)(0x1000 := 0x2007, 0x2000 := 0x3007, 0x3000 := 0x4007, 0x4000 := 0x5205)"

definition cow_vmm :: vmm_state where
  "cow_vmm = demo_vmm\<lparr>mem := cow_mem\<rparr>"

lemma cow_entries:
  assumes "i < 512"
  shows "cow_mem (0x1000 + 8 * i) = (if i = 0 then 0x2007 else 0)"
    "cow_mem (0x2000 + 8 * i) = (if i = 0 then 0x3007 else 0)"
    "cow_mem (0x3000 + 8 * i) = (if i = 0 then 0x4007 else 0)"
    "cow_mem (0x4000 + 8 * i) = (if i = 0 then 0x5205 else 0)"
  using assms by (auto simp: cow_mem_def)

lemma cow_entry_bits:
  "is_table 0x2007" "is_table 0x3007" "is_table 0x4007" "has_flag 0x5205 PAGE_FLAG_PRESENT"
  "has_flag 0x5205 PAGE_FLAG_COW" "\<not> has_flag 0x2007 PAGE_FLAG_PS"
  "entry_phys 0x2007 = 0x2000" "entry_phys 0x3007 = 0x3000" "entry_phys 0x4007 = 0x4000" "entry_phys 0x5205 = 0x5000"
  by code_simp+

lemma cow_tab:
  assumes "vpath 3 p" "tab cow_mem 0x1000 p = Some u"
  shows "(p, u) \<in> {([], 0x1000), ([0], 0x2000), ([0, 0], 0x3000), ([0, 0, 0], 0x4000)}"
proof -
  consider "p = []" | i where "p = [i]" "i < 512" | i j where "p = [i, j]" "i < 512" "j < 512"
    | i j k where "p = [i, j, k]" "i < 512" "j < 512" "k < 512"
    using assms(1) by (cases p rule: remdups_adj.cases; cases "tl (tl p)"; cases "tl (tl (tl p))") (auto simp: vpath_def)
  then show ?thesis
    by cases (use assms(2) in \<open>auto simp: cow_entries cow_entry_bits split: if_splits\<close>)
qed

lemma cow_vmm_ok: "vmm_ok cow_vmm 0x1000"
proof -
  have "page_tables cow_mem 0x1000 \<subseteq> {0x1000, 0x2000, 0x3000, 0x4000}"
    unfolding page_tables_def using cow_tab by fastforce
  moreover from this have "4096 dvd u" if "u \<in> page_tables cow_mem 0x1000" for u using that by auto
  moreover have "p = q" if "vpath 3 p" "vpath 3 q" "tab cow_mem 0x1000 p = Some u" "tab cow_mem 0x1000 q = Some u" for p q u
    using cow_tab[OF that(1,3)] cow_tab[OF that(2,4)] by auto
  ultimately have w: "pt_wf cow_mem 0x1000"
    unfolding pt_wf_def using cow_entries(1) cow_entry_bits by auto
  have "(\<lambda>u. u div 4096) ` page_tables cow_mem 0x1000 \<inter> {257..<288} = {}"
    using \<open>page_tables cow_mem 0x1000 \<subseteq> _\<close> by auto
  then show ?thesis using w by (simp add: vmm_ok_def table_pages_def cow_vmm_def demo_pmm_spec)
qed

text \<open>
  C21. A write to a present copy-on-write page: the handler returns 0 and the page is then
  writable, no longer copy-on-write, with all other flags and with the same contents, and no
  other virtual page changes. A frame with more than one reference is copied to a free frame
  and loses one reference, its contents unchanged; otherwise the frame is kept. The handler
  returns -1, changing nothing, exactly when it has to copy and no page is free.
\<close>

theorem cow_fault_correct:
  assumes th: "current_thread s = Some th" "t_cr3 th \<noteq> 0" and t: "t = unat (t_cr3 th)"
    and ec: "has_flag ec 0x1" "has_flag ec 0x2"
    and ok: "vmm_ok s t" and e: "aspace (mem s) t (va_path va) = Some (0, e)" "has_flag e PAGE_FLAG_COW"
    and frame: "entry_phys e \<notin> page_tables (mem s) t" "entry_phys e div 4096 \<notin> free_set (pmm s)"
  shows "\<exists>r s'. vmm_handle_page_fault kmem va ec s = Some (r, s') \<and>
    (r = 0 \<and> cow_resolved t s va e s' \<or>
     r = - 1 \<and> s' = s \<and> free_set (pmm s) = {} \<and> pmm_get_ref (pmm s) (entry_phys e) > 1)"
  using cow_fault_spec[OF ok e frame] th ec t by (auto simp: vmm_handle_page_fault_def)

theorem cow_fault_correct_witness:
  "\<exists>s'. vmm_handle_page_fault (\<lambda>_. True) 0 0x7 cow_vmm = Some (0, s') \<and> cow_resolved 0x1000 cow_vmm 0 0x5205 s'"
proof -
  have "pml4_index 0 = 0" "pdpt_index 0 = 0" "pd_index 0 = 0" "pt_index 0 = 0" by code_simp+
  then have e: "aspace (mem cow_vmm) 0x1000 (va_path 0) = Some (0, 0x5205)"
    using cow_entries[of 0] by (simp add: aspace_def va_path_def cow_vmm_def cow_entry_bits)
  have n: "entry_phys 0x5205 \<notin> page_tables (mem cow_vmm) 0x1000"
    using cow_tab by (fastforce simp: page_tables_def cow_vmm_def cow_entry_bits)
  have f: "has_flag 0x7 0x1" "has_flag 0x7 0x2" by code_simp+
  have th: "current_thread cow_vmm = Some demo_thread" "t_cr3 demo_thread \<noteq> 0" "0x1000 = unat (t_cr3 demo_thread)"
    by (simp_all add: cow_vmm_def demo_thread_def)
  show ?thesis
    using cow_fault_correct[OF th f cow_vmm_ok e cow_entry_bits(5) n, of "\<lambda>_. True"]
    by (auto simp: cow_vmm_def demo_pmm_spec cow_entry_bits)
qed

text \<open>
  C22. Demand paging: on a fault at an absent page inside a region, an access the region
  forbids gives -1 and changes nothing. Otherwise the handler returns 0 with a free frame,
  all zero, mapped at the page with the region's protection and every other page as before;
  or memory is exhausted but for one frame, no mapping changes, and the thread is ended when the fault came
  from user mode, and -1 is returned when it did not.
\<close>

theorem demand_paging_correct:
  assumes th: "current_thread s = Some th" "t_cr3 th \<noteq> 0" "t_mm th = Some vmas" and t: "t = unat (t_cr3 th)"
    and ec: "\<not> has_flag ec 0x1" and ok: "vmm_ok s t" and nh: "no_huge (mem s) t (va_path va)"
    and v: "vma_find vmas va = Some v"
  shows "\<exists>r s'. vmm_handle_page_fault kmem va ec s = Some (r, s') \<and>
    (if v_prot v = PROT_NONE \<or> has_flag ec 0x2 \<and> \<not> has_flag (v_prot v) PROT_WRITE then r = - 1 \<and> s' = s
     else r = 0 \<and> exit_events s' = exit_events s \<and> paged_in t s va (dp_build_flags (v_prot v)) s' \<or>
       r = (if has_flag ec 0x4 then 0 else - 1) \<and> page_in_failed t s s' \<and>
       exit_events s' = exit_events s @ (if has_flag ec 0x4 then [Sched_terminate_thread (t_tid th)] else []))"
proof -
  have "set_mm vmas s = s" using th(1,3) by (simp add: set_mm_def)
  then have h: "vmm_handle_page_fault kmem va ec s =
      (if v_prot v = PROT_NONE \<or> has_flag ec 0x2 \<and> \<not> has_flag (v_prot v) PROT_WRITE then Some (- 1, s)
       else demand_page th t va (has_flag ec 0x4) (v_prot v) s)"
    using th t ec v by (auto simp: vmm_handle_page_fault_def fault_region_def)
  show ?thesis
  proof (cases "v_prot v = PROT_NONE \<or> has_flag ec 0x2 \<and> \<not> has_flag (v_prot v) PROT_WRITE")
    case True
    then show ?thesis unfolding h by simp
  next
    case False
    then show ?thesis unfolding h using demand_page_spec[OF ok nh, of th "has_flag ec 0x4" "v_prot v"]
      by (simp only: if_False)
  qed
qed

theorem demand_paging_correct_witness:
  "\<exists>s'. vmm_handle_page_fault (\<lambda>_. True) 0x2345 0x6 demo_vmm = Some (0, s') \<and> vmm_ok s' 0x1000 \<and>
     vmm_handle_page_fault (\<lambda>_. True) 0x5000 0x6 demo_vmm = Some (- 1, demo_vmm)"
proof -
  have f: "\<not> has_flag 0x6 0x1" "has_flag 0x6 0x2" "has_flag 0x6 0x4" "has_flag 3 PROT_WRITE" "\<not> has_flag 1 PROT_WRITE" by code_simp+
  have th: "current_thread demo_vmm = Some demo_thread" "t_cr3 demo_thread \<noteq> 0" "t_mm demo_thread = Some demo_list"
    "0x1000 = unat (t_cr3 demo_thread)" by (simp_all add: demo_thread_def)
  have v: "vma_find demo_list 0x2345 =
      Some \<lparr>v_start = 0x1000, v_end = 0x3000, v_prot = 3, v_flags = 0x22, v_offset = 0, v_fd = -1\<rparr>"
    "vma_find demo_list 0x5000 =
      Some \<lparr>v_start = 0x5000, v_end = 0x7000, v_prot = 1, v_flags = 0x02, v_offset = 0x800, v_fd = 4\<rparr>"
    unfolding demo_list_eq by code_simp+
  note d = demand_paging_correct[OF th f(1) demo_vmm_ok demo_no_huge, of _ _ "\<lambda>_. True"]
  show ?thesis using d[OF v(1)] d[OF v(2)] f(2-5)
    by (auto simp: PROT_NONE_def paged_in_def page_in_failed_def)
qed

end
