(* ===== verification/Slab_Props.thy ===== *)
theory Slab_Props
  imports Slab_Cache_Correct Object_Allocator Vmm_Props
begin

unbundle bit_operations_syntax

text \<open>
  The properties of the object caches, for a client that knows objects by their addresses.
\<close>

section \<open>Objects by address\<close>

definition live_objs :: "slab_state \<Rightarrow> nat \<Rightarrow> u64 set" where
  "live_objs s i = (\<lambda>(p, k). obj_addr (the_cache s i) p k) ` live_slots s i"

definition obj_bytes :: "slab_state \<Rightarrow> nat \<Rightarrow> u64 \<Rightarrow> nat set" where
  "obj_bytes s i a = {unat a ..< unat a + unat (obj_aligned (the_cache s i))}"

abbreviation in_use :: "slab_state \<Rightarrow> nat \<Rightarrow> bool" where
  "in_use s i \<equiv> i < 32 \<and> cache_used s ! i"

lemma live_slots_slab: "(p, k) \<in> live_slots s i \<Longrightarrow> p \<in> cache_slabs (the_cache s i) (slab_pages s) \<and> k < per_slab (the_cache s i)"
  by (simp add: live_slots_def)

text \<open>The bytes of an object, in the page of its slab and after the header.\<close>

lemma obj_bytes_place:
  assumes "slab_ok lim s" "in_use s i" "p \<in> cache_slabs (the_cache s i) (slab_pages s)" "k < per_slab (the_cache s i)"
  shows "obj_bytes s i (obj_addr (the_cache s i) p k) =
      {unat p + 64 + k * unat (obj_aligned (the_cache s i)) ..< unat p + 64 + (k + 1) * unat (obj_aligned (the_cache s i))}"
    "obj_bytes s i (obj_addr (the_cache s i) p k) \<subseteq> {unat p + 64 ..< unat p + 4096}"
    "KERNEL_HEAP_BASE \<le> p \<and> p < slab_vaddr_cursor s \<and> 4096 dvd unat p"
proof -
  have ok: "slab_okE i {} lim s" using assms(1,2) slab_ok_iff by blast
  note pl = slab_place[OF ok _ _ assms(3,4)]
  have i: "i < 32" "cache_used s ! i" using assms(2) by simp_all
  note d = obj_addr_decode(1)[OF pl(1-4)[OF i]]
  show e: "obj_bytes s i (obj_addr (the_cache s i) p k) =
      {unat p + 64 + k * unat (obj_aligned (the_cache s i)) ..< unat p + 64 + (k + 1) * unat (obj_aligned (the_cache s i))}"
    unfolding obj_bytes_def d by (simp add: algebra_simps)
  show "obj_bytes s i (obj_addr (the_cache s i) p k) \<subseteq> {unat p + 64 ..< unat p + 4096}"
    unfolding e using pl(3)[OF i] by auto
  show "KERNEL_HEAP_BASE \<le> p \<and> p < slab_vaddr_cursor s \<and> 4096 dvd unat p"
    using other_slabs_apart(2)[OF ok i] assms(3) by blast
qed

lemma page_apart:
  assumes "4096 dvd (x :: nat)" "4096 dvd y" "x \<noteq> y" "A \<subseteq> {x + 64 ..< x + 4096}" "B \<subseteq> {y + 64 ..< y + 4096}"
  shows "A \<inter> B = {}"
proof -
  obtain m n where x: "x = 4096 * m" "y = 4096 * n" using assms(1,2) by (elim dvdE)
  then have "m < n \<or> n < m" using assms(3) by auto
  then have "{x + 64 ..< x + 4096} \<inter> {y + 64 ..< y + 4096} = {}" unfolding x by auto
  then show ?thesis using assms(4,5) by blast
qed

lemma slot_apart:
  assumes "k \<noteq> (l :: nat)"
  shows "{b + k * a ..< b + (k + 1) * a} \<inter> {b + l * a ..< b + (l + 1) * (a :: nat)} = {}"
proof -
  have "(k + 1) * a \<le> l * a \<or> (l + 1) * a \<le> k * a" using assms by (metis Suc_eq_plus1 Suc_leI mult_le_mono1 nat_neq_iff)
  then show ?thesis by auto
qed

lemma slabs_apart:
  assumes "slab_ok lim s" "in_use s i" "in_use s j" "i \<noteq> j"
    "p \<in> cache_slabs (the_cache s i) (slab_pages s)" "q \<in> cache_slabs (the_cache s j) (slab_pages s)"
  shows "p \<noteq> q"
proof -
  have "slab_okE i {} lim s" using assms(1,2) slab_ok_iff by blast
  then have "other_slabs s i \<inter> cache_slabs (the_cache s i) (slab_pages s) = {}"
    using assms(2) by (intro other_slabs_apart(1)) auto
  moreover have "q \<in> other_slabs s i" using assms(3,4,6) by (auto simp: other_slabs_def)
  ultimately show ?thesis using assms(5) by blast
qed

lemma slots_disjoint:
  assumes "slab_ok lim s" "in_use s i" "in_use s j" "(p, k) \<in> live_slots s i" "(q, l) \<in> live_slots s j"
    "(i, p, k) \<noteq> (j, q, l)"
  shows "obj_bytes s i (obj_addr (the_cache s i) p k) \<inter> obj_bytes s j (obj_addr (the_cache s j) q l) = {}"
proof -
  note pk = live_slots_slab[OF assms(4)] and ql = live_slots_slab[OF assms(5)]
  note P = obj_bytes_place[OF assms(1,2) conjunct1[OF pk] conjunct2[OF pk]]
  note Q = obj_bytes_place[OF assms(1,3) conjunct1[OF ql] conjunct2[OF ql]]
  show ?thesis
  proof (cases "p = q")
    case True
    then have "i = j" using slabs_apart[OF assms(1,2,3)] pk ql by blast
    then show ?thesis using True assms(6) slot_apart[of k l] unfolding P(1) Q(1) by auto
  next
    case False
    then have "unat p \<noteq> unat q" by (simp add: word_unat_eq_iff)
    then show ?thesis using page_apart[OF _ _ _ P(2) Q(2)] P(3) Q(3) by simp
  qed
qed

lemma obj_bytes_ne:
  assumes "slab_ok lim s" "in_use s i" shows "unat a \<in> obj_bytes s i a"
proof -
  have "slab_okE i {} lim s" using assms slab_ok_iff by blast
  then have "cache_ok {} s i" using slab_okE_D(8) assms(2) by blast
  then show ?thesis by (auto simp: obj_bytes_def cache_ok_def Let_def)
qed

lemma obj_addr_inj:
  assumes "slab_ok lim s" "in_use s i" "(p, k) \<in> live_slots s i" "(q, l) \<in> live_slots s i"
    "obj_addr (the_cache s i) p k = obj_addr (the_cache s i) q l"
  shows "(p, k) = (q, l)"
  using slots_disjoint[OF assms(1,2,2,3,4)] obj_bytes_ne[OF assms(1,2)] assms(5) by fastforce

lemma obj_addr_step:
  assumes "cache_step i lim s s'" shows "obj_addr (the_cache s' i) = obj_addr (the_cache s i)"
  using assms by (simp add: cache_step_def obj_addr_def fun_eq_iff)

lemma live_objs_step:
  assumes "cache_step i lim s s'"
  shows "in_use s j \<Longrightarrow> j \<noteq> i \<Longrightarrow> the_cache s' j = the_cache s j \<Longrightarrow> live_objs s' j = live_objs s j"
    "live_objs s' i = (\<lambda>(p, k). obj_addr (the_cache s i) p k) ` live_slots s' i"
  using assms by (auto simp: live_objs_def cache_step_def obj_addr_step[OF assms])

lemma taken_objs:
  assumes s: "slab_ok lim s" "in_use s i" and t: "object_taken i lim s ptr s'"
  shows "slab_ok lim s'" "in_use s' i" "ptr \<notin> live_objs s i" "live_objs s' i = insert ptr (live_objs s i)"
proof -
  obtain p k where p: "ptr = obj_addr (the_cache s i) p k" "(p, k) \<notin> live_slots s i"
    "live_slots s' i = insert (p, k) (live_slots s i)" and st: "cache_step i lim s s'"
    using t by (auto simp: object_taken_def)
  show s': "slab_ok lim s'" "in_use s' i" using st s(2) by (auto simp: cache_step_def)
  show "live_objs s' i = insert ptr (live_objs s i)"
    using live_objs_step(2)[OF st] p(1,3) by (simp add: live_objs_def)
  have "obj_addr (the_cache s i) q l \<noteq> ptr" if "(q, l) \<in> live_slots s i" for q l
  proof
    assume "obj_addr (the_cache s i) q l = ptr"
    then have "obj_addr (the_cache s' i) p k = obj_addr (the_cache s' i) q l" using p(1) by (simp add: obj_addr_step[OF st])
    moreover have "(p, k) \<in> live_slots s' i" "(q, l) \<in> live_slots s' i" using p(3) that by simp_all
    ultimately have "(p, k) = (q, l)" using obj_addr_inj[OF s'] by blast
    then show False using p(2) that by simp
  qed
  then show "ptr \<notin> live_objs s i" by (auto simp: live_objs_def)
qed

lemma kmem_alloc_objs:
  assumes s: "slab_ok lim s" "in_use s i" and r: "slab_vaddr_cursor s < lim"
  shows "\<exists>ptr s'. kmem_cache_alloc (Some i) s = Some (ptr, s') \<and> cache_step i lim s s' \<and>
    (if ptr = 0 then live_objs s' i = live_objs s i \<and> card (free_set (pmm (vmm s))) \<le> 4
     else ptr \<notin> live_objs s i \<and> live_objs s' i = insert ptr (live_objs s i))"
proof -
  obtain ptr s' where ok: "outside_kept i s s'" and a: "kmem_cache_alloc (Some i) s = Some (ptr, s')" "cache_step i lim s s'"
    "if ptr = 0 then live_slots s' i = live_slots s i \<and> card (free_set (pmm (vmm s))) \<le> 4
     else \<exists>p k. ptr = obj_addr (the_cache s i) p k \<and> (p, k) \<notin> live_slots s i \<and>
       live_slots s' i = insert (p, k) (live_slots s i)"
    using kmem_cache_alloc_spec[OF s(1) _ _ r] s(2) by blast
  show ?thesis
  proof (cases "ptr = 0")
    case True
    then have "live_objs s' i = live_objs s i" using a(3) live_objs_step(2)[OF a(2)] by (simp add: live_objs_def)
    then show ?thesis using a True by auto
  next
    case False
    then have "object_taken i lim s ptr s'" using a(2,3) ok by (simp add: object_taken_def)
    then show ?thesis using taken_objs[OF s] a(1,2) False by auto
  qed
qed

lemma kmem_free_objs:
  assumes s: "slab_ok lim s" "in_use s i" and p: "ptr \<in> live_objs s i"
  shows "\<exists>s'. kmem_cache_free (Some i) ptr s = Some s' \<and> cache_step i lim s s' \<and> live_objs s' i = live_objs s i - {ptr} \<and>
    (\<exists>p k. p \<in> cache_slabs (the_cache s' i) (slab_pages s') \<and> k < per_slab (the_cache s' i) \<and> (p, k) \<notin> live_slots s' i \<and>
      ptr = obj_addr (the_cache s' i) p k)"
proof -
  obtain q k where q: "ptr = obj_addr (the_cache s i) q k" "(q, k) \<in> live_slots s i" using p by (auto simp: live_objs_def)
  note l = live_slots_slab[OF q(2)]
  obtain s' where f: "kmem_cache_free (Some i) ptr s = Some s'" "cache_step i lim s s'"
    "live_slots s' i = live_slots s i - {(q, k)}"
    "cache_slabs (the_cache s' i) (slab_pages s') = cache_slabs (the_cache s i) (slab_pages s)"
    using kmem_cache_free_spec[OF s(1) _ _ conjunct1[OF l] conjunct2[OF l]] s(2) q by auto
  have "inj_on (\<lambda>(p, k). obj_addr (the_cache s i) p k) (live_slots s i)"
    using obj_addr_inj[OF s] by (auto simp: inj_on_def)
  then have "live_objs s' i = live_objs s i - {ptr}"
    using live_objs_step(2)[OF f(2)] f(3) q by (simp add: live_objs_def inj_on_image_set_diff[where C = "live_slots s i"])
  moreover have "per_slab (the_cache s' i) = per_slab (the_cache s i)" using f(2) by (simp add: cache_step_def)
  ultimately show ?thesis using f l q(1) obj_addr_step[OF f(2)] by (intro exI[of _ s'] conjI exI[of _ q] exI[of _ k]) auto
qed

text \<open>Objects in use, of one cache or of two, do not overlap, and are in mapped pages.\<close>

lemma objs_disjoint:
  assumes "slab_ok lim s" "in_use s i" "in_use s j" "a \<in> live_objs s i" "b \<in> live_objs s j" "(i, a) \<noteq> (j, b)"
  shows "obj_bytes s i a \<inter> obj_bytes s j b = {}"
proof -
  obtain p k q l where p: "a = obj_addr (the_cache s i) p k" "(p, k) \<in> live_slots s i"
    and q: "b = obj_addr (the_cache s j) q l" "(q, l) \<in> live_slots s j"
    using assms(4,5) by (auto simp: live_objs_def)
  have "(i, p, k) \<noteq> (j, q, l)" using assms(6) p(1) q(1) by auto
  then show ?thesis using slots_disjoint[OF assms(1-3) p(2) q(2)] unfolding p(1) q(1) by blast
qed

lemma objs_place:
  assumes "slab_ok lim s" "in_use s i" "a \<in> live_objs s i"
  shows "\<exists>p \<ge> KERNEL_HEAP_BASE. p < slab_vaddr_cursor s \<and> 4096 dvd unat p \<and> page_present (vmm s) p \<and>
    obj_bytes s i a \<subseteq> {unat p + 64 ..< unat p + 4096}"
proof -
  obtain p k where p: "a = obj_addr (the_cache s i) p k" "(p, k) \<in> live_slots s i" using assms(3) by (auto simp: live_objs_def)
  note l = live_slots_slab[OF p(2)]
  have "p \<in> other_slabs s 32" using conjunct1[OF l] assms(2) by (auto simp: other_slabs_def)
  then have "page_present (vmm s) p"
    using assms(1) by (auto simp: slab_okE_def backed_def backed_page_def page_present_def)
  then show ?thesis using obj_bytes_place(2,3)[OF assms(1,2) conjunct1[OF l] conjunct2[OF l]] p(1) by blast
qed

text \<open>An allocation does not touch the descriptors of the other caches.\<close>

lemma slab_page_alloc_other: "slab_page_alloc i s = Some (p, s') \<Longrightarrow> j \<noteq> i \<Longrightarrow> the_cache s' j = the_cache s j"
  by (auto simp: slab_page_alloc_def slab_allocate_vaddr_def put_cache_def Let_def bind_eq_Some_conv split: prod.splits if_splits)

lemma slab_for_alloc_other: "slab_for_alloc i s = Some (p, s') \<Longrightarrow> j \<noteq> i \<Longrightarrow> the_cache s' j = the_cache s j"
  by (auto simp: slab_for_alloc_def put_cache_def Let_def bind_eq_Some_conv dest: slab_page_alloc_other
    split: prod.splits if_splits)

lemma kmem_alloc_other: "kmem_cache_alloc (Some i) s = Some (p, s') \<Longrightarrow> j \<noteq> i \<Longrightarrow> the_cache s' j = the_cache s j"
  by (auto simp: kmem_cache_alloc_def put_cache_def Let_def bind_eq_Some_conv dest: slab_for_alloc_other
    split: prod.splits if_splits option.splits)

interpretation kc: object_allocator
  "\<lambda>s. slab_ok lim s \<and> in_use s i" "\<lambda>(_ :: unit) s. slab_vaddr_cursor s < lim" "\<lambda>s. live_objs s i"
  "\<lambda>_ :: unit. kmem_cache_alloc (Some i)" "kmem_cache_free (Some i)" for i lim
proof unfold_locales
  fix s and r :: unit assume s: "slab_ok lim s \<and> in_use s i" and r: "slab_vaddr_cursor s < lim"
  then show "\<exists>p s'. kmem_cache_alloc (Some i) s = Some (p, s') \<and> (slab_ok lim s' \<and> in_use s' i) \<and>
      (if p = 0 then live_objs s' i = live_objs s i else p \<notin> live_objs s i \<and> live_objs s' i = insert p (live_objs s i))"
    using kmem_alloc_objs[of lim s i] by (fastforce simp: cache_step_def)
next
  fix s p assume s: "slab_ok lim s \<and> in_use s i" and p: "p \<in> live_objs s i"
  then show "\<exists>s'. kmem_cache_free (Some i) p s = Some s' \<and> (slab_ok lim s' \<and> in_use s' i) \<and> live_objs s' i = live_objs s i - {p}"
    using kmem_free_objs[of lim s i p] by (auto simp: cache_step_def)
qed

text \<open>An allocation takes at most one page of the address range.\<close>

lemma slab_page_alloc_cursor: "slab_page_alloc i s = Some (p, s') \<Longrightarrow>
    slab_vaddr_cursor s' = slab_vaddr_cursor s \<or> slab_vaddr_cursor s' = slab_vaddr_cursor s + 4096"
  by (auto simp: slab_page_alloc_def slab_allocate_vaddr_def put_cache_def Let_def bind_eq_Some_conv split: prod.splits if_splits)

lemma slab_for_alloc_cursor: "slab_for_alloc i s = Some (p, s') \<Longrightarrow>
    slab_vaddr_cursor s' = slab_vaddr_cursor s \<or> slab_vaddr_cursor s' = slab_vaddr_cursor s + 4096"
  by (auto simp: slab_for_alloc_def put_cache_def Let_def bind_eq_Some_conv dest: slab_page_alloc_cursor
    split: prod.splits if_splits)

lemma kmem_alloc_cursor: "kmem_cache_alloc (Some i) s = Some (p, s') \<Longrightarrow>
    slab_vaddr_cursor s' = slab_vaddr_cursor s \<or> slab_vaddr_cursor s' = slab_vaddr_cursor s + 4096"
  by (auto simp: kmem_cache_alloc_def put_cache_def Let_def bind_eq_Some_conv dest: slab_for_alloc_cursor
    split: prod.splits if_splits option.splits)

section \<open>A concrete registry\<close>

text \<open>The first address of the slabs, the initial value of the cursor.\<close>

definition SLAB_BASE :: u64 where "SLAB_BASE = KERNEL_HEAP_BASE + 0x100000000"

definition demo_slab :: slab_state where
  "demo_slab = \<lparr>vmm = demo_vmm, slab_pages = (\<lambda>_. undefined), cache_pool = [], cache_used = [], cache_count = 0,
     slab_vaddr_cursor = SLAB_BASE, obj_calls = []\<rparr>"

definition demo_lim :: u64 where "demo_lim = 0xFFFFE00200000000"

definition demo_caches :: slab_state where
  "demo_caches = snd (kmem_cache_create (Some ''inode'') 100 0 None None (slab_cache_init demo_slab))"

lemma slab_init_ok:
  assumes "vmm_ok (vmm s) (slab_pml4 s)" "KERNEL_HEAP_BASE \<le> slab_vaddr_cursor s" "4096 dvd unat (slab_vaddr_cursor s)"
    "lim \<le> 0xFFFFFFFFFFFFF000" "arena (vmm s) (slab_pml4 s) (slab_vaddr_cursor s) lim"
  shows "slab_ok lim (slab_cache_init s)"
  using assms by (simp add: slab_okE_def slab_cache_init_def SLAB_CACHE_MAX_CACHES_def other_slabs_def backed_def)

lemma demo_slab_ok: "slab_ok demo_lim (slab_cache_init demo_slab)"
proof (rule slab_init_ok)
  have "entry_phys 0x1000 = 0x1000" by code_simp
  then have t: "slab_pml4 demo_slab = 0x1000" by (simp add: demo_slab_def demo_vmm_def vmm_get_active_pml4_def)
  show "vmm_ok (vmm demo_slab) (slab_pml4 demo_slab)" unfolding t using demo_vmm_ok by (simp add: demo_slab_def)
  show "arena (vmm demo_slab) (slab_pml4 demo_slab) (slab_vaddr_cursor demo_slab) demo_lim"
    by (simp add: arena_def demo_slab_def zero_aspace)
qed (simp_all add: demo_slab_def SLAB_BASE_def KERNEL_HEAP_BASE_def demo_lim_def)

lemma demo_create:
  "kmem_cache_create (Some ''inode'') 100 0 None None (slab_cache_init demo_slab) = (Some 0, demo_caches)"
  "aligned_size 100 8 = 104" "slab_capacity 104 = 38"
proof -
  show a: "aligned_size 100 8 = 104" and b: "slab_capacity 104 = 38" by code_simp+
  have "free_slot (cache_used (slab_cache_init demo_slab)) 0 = Some 0"
    by (simp add: slab_cache_init_def SLAB_CACHE_MAX_CACHES_def numeral_eq_Suc)
  then show "kmem_cache_create (Some ''inode'') 100 0 None None (slab_cache_init demo_slab) = (Some 0, demo_caches)"
    by (simp add: demo_caches_def kmem_cache_create_def Let_def new_cache_def a b)
qed

lemma demo_caches_ok:
  "slab_ok demo_lim demo_caches" "in_use demo_caches 0" "slab_vaddr_cursor demo_caches = SLAB_BASE"
  "slab_vaddr_cursor demo_caches < demo_lim" "vmm demo_caches = demo_vmm" "live_slots demo_caches 0 = {}"
  "per_slab (the_cache demo_caches 0) = 38"
proof -
  have "created 100 0 (slab_cache_init demo_slab) 0 demo_caches" "slab_ok demo_lim demo_caches"
    using kmem_cache_create_spec[OF demo_slab_ok demo_create(1)] by blast+
  then show "slab_ok demo_lim demo_caches" "in_use demo_caches 0" "live_slots demo_caches 0 = {}" by (auto simp: created_def)
  have k: "slab_vaddr_cursor (snd (kmem_cache_create nm sz al ct dt s)) = slab_vaddr_cursor s"
    "vmm (snd (kmem_cache_create nm sz al ct dt s)) = vmm s" for nm sz al ct dt s
    by (simp_all add: kmem_cache_create_def put_cache_def Let_def split: option.splits)
  then show c: "slab_vaddr_cursor demo_caches = SLAB_BASE" "vmm demo_caches = demo_vmm"
    by (simp_all add: demo_caches_def slab_cache_init_def demo_slab_def)
  have "free_slot (cache_used (slab_cache_init demo_slab)) 0 = Some 0"
    by (simp add: slab_cache_init_def SLAB_CACHE_MAX_CACHES_def numeral_eq_Suc)
  then show "per_slab (the_cache demo_caches 0) = 38"
    by (simp add: demo_caches_def kmem_cache_create_def put_cache_def Let_def new_cache_def demo_create(2,3)
        slab_cache_init_def SLAB_CACHE_MAX_CACHES_def)
  show "slab_vaddr_cursor demo_caches < demo_lim"
    by (simp add: c SLAB_BASE_def KERNEL_HEAP_BASE_def demo_lim_def)
qed

text \<open>The registry after one and after two allocations.\<close>

definition demo_obj :: u64 where "demo_obj = fst (the (kmem_cache_alloc (Some 0) demo_caches))"
definition demo_one :: slab_state where "demo_one = snd (the (kmem_cache_alloc (Some 0) demo_caches))"

lemma demo_one:
  "kmem_cache_alloc (Some 0) demo_caches = Some (demo_obj, demo_one)" "demo_obj \<noteq> 0"
  "slab_ok demo_lim demo_one" "in_use demo_one 0" "live_objs demo_one 0 = {demo_obj}"
  "per_slab (the_cache demo_one 0) = 38" "\<exists>x. live_slots demo_one 0 = {x}" "slab_vaddr_cursor demo_one < demo_lim"
proof -
  have i: "0 < (32 :: nat)" "cache_used demo_caches ! 0" using demo_caches_ok(2) by simp_all
  obtain a s where a: "kmem_cache_alloc (Some 0) demo_caches = Some (a, s)" "cache_step 0 demo_lim demo_caches s"
    "if a = 0 then live_slots s 0 = live_slots demo_caches 0 \<and> card (free_set (pmm (vmm demo_caches))) \<le> 4
     else \<exists>p k. a = obj_addr (the_cache demo_caches 0) p k \<and> (p, k) \<notin> live_slots demo_caches 0 \<and>
       live_slots s 0 = insert (p, k) (live_slots demo_caches 0)"
    using kmem_cache_alloc_spec[OF demo_caches_ok(1) i demo_caches_ok(4)] by blast
  show e: "kmem_cache_alloc (Some 0) demo_caches = Some (demo_obj, demo_one)" using a(1) by (simp add: demo_obj_def demo_one_def)
  then have as: "a = demo_obj" "s = demo_one" using a(1) by simp_all
  show ne: "demo_obj \<noteq> 0" using a(3) as by (auto simp: demo_caches_ok(5) demo_pmm_spec(2) split: if_splits)
  show "slab_ok demo_lim demo_one" "in_use demo_one 0" "per_slab (the_cache demo_one 0) = 38"
    using a(2) i as demo_caches_ok(7) by (auto simp: cache_step_def)
  show "\<exists>x. live_slots demo_one 0 = {x}" "live_objs demo_one 0 = {demo_obj}"
    using a(3) ne as live_objs_step(2)[OF a(2)] by (auto simp: demo_caches_ok(6))
  show "slab_vaddr_cursor demo_one < demo_lim"
    using kmem_alloc_cursor[OF e] by (auto simp: demo_caches_ok(3) SLAB_BASE_def KERNEL_HEAP_BASE_def demo_lim_def)
qed

lemma demo_two:
  "\<exists>b s. kmem_cache_alloc (Some 0) demo_one = Some (b, s) \<and> slab_ok demo_lim s \<and> in_use s 0 \<and>
     b \<noteq> 0 \<and> b \<noteq> demo_obj \<and> live_objs s 0 = {b, demo_obj}"
proof -
  obtain p k where x: "live_slots demo_one 0 = {(p, k)}" using demo_one(7) by fast
  then have p: "p \<in> cache_slabs (the_cache demo_one 0) (slab_pages demo_one)" using live_slots_slab by blast
  have i: "0 < (32 :: nat)" "cache_used demo_one ! 0" using demo_one(4) by simp_all
  obtain k' where k': "k' < 38" "(p, k') \<notin> live_slots demo_one 0" by (rule that[of "if k = 0 then 1 else 0"]) (simp_all add: x)
  obtain b s where b: "kmem_cache_alloc (Some 0) demo_one = Some (b, s)" "object_taken 0 demo_lim demo_one b s"
    using kmem_alloc_free_slot[OF demo_one(3) i p, of k'] k' demo_one(6) by auto
  note t = taken_objs[OF demo_one(3,4) b(2)]
  then have "b \<noteq> 0" using kmem_alloc_objs[OF demo_one(3,4,8)] b(1) by (auto simp: demo_one(5) split: if_splits)
  then show ?thesis using b(1) t by (auto simp: demo_one(5))
qed

section \<open>Creating a cache\<close>

lemma round_down:
  fixes x :: u64 assumes "n < 64" shows "unat (x AND NOT (2 ^ n - 1)) = unat x div 2 ^ n * 2 ^ n"
proof -
  have "x AND NOT (2 ^ n - 1) = push_bit n (drop_bit n x)"
    by (rule bit_eqI) (auto simp: bit_simps simp flip: mask_eq_exp_minus_1)
  moreover have "unat x div 2 ^ n * 2 ^ n < 2 ^ 64"
    using order.strict_trans1[OF div_times_less_eq_dividend[of "unat x" "2 ^ n"] unsigned_less[of x]] by simp
  moreover have "take_bit 64 (unat x) = unat x" using unsigned_less[of x, where ?'a = nat] by (intro take_bit_nat_eq_self) simp
  ultimately show ?thesis
    by (simp add: unsigned_push_bit_eq unsigned_drop_bit_eq take_bit_nat_eq_self push_bit_nat_def drop_bit_nat_def)
qed

lemma aligned_size_ok:
  assumes n: "n < 64" and sz: "sz \<noteq> 0" "unat sz + 2 ^ n \<le> 2 ^ 64"
  shows "sz \<le> aligned_size sz (2 ^ n)" "2 ^ n dvd unat (aligned_size sz (2 ^ n))"
proof -
  let ?m = "(2 :: nat) ^ n" let ?x = "unat sz + ?m - 1" let ?w = "(sz + 2 ^ n - 1) AND NOT (2 ^ n - 1)"
  have "of_nat ?x = (of_nat (unat sz + ?m) - of_nat 1 :: u64)" by (rule of_nat_diff) (simp add: trans_le_add2)
  then have "sz + 2 ^ n - 1 = of_nat ?x" by simp
  then have "unat (sz + 2 ^ n - 1) = ?x" using sz by (simp add: unat_of_nat take_bit_nat_eq_self)
  then have w: "unat ?w = ?x div ?m * ?m" using round_down[OF n] by simp
  have pos: "0 < unat sz" "0 < ?m" using sz(1) by (simp_all add: unat_gt_0)
  have d: "?m * (?x div ?m) + ?x mod ?m = ?x" "?x mod ?m < ?m" by (simp_all add: mult.commute)
  have le: "unat sz \<le> unat ?w" using d pos unfolding w mult.commute[of _ ?m] by linarith
  show "sz \<le> aligned_size sz (2 ^ n)"
    using le by (auto simp: aligned_size_def Let_def word_le_nat_alt word_less_nat_alt)
  show "2 ^ n dvd unat (aligned_size sz (2 ^ n))"
  proof (cases "?w < 16")
    case True
    have "?m \<le> unat ?w" using le pos unfolding w by (metis dvd_imp_le dvd_triv_right le_eq_less_or_eq less_le_trans)
    then have "?m < 2 ^ 4" using True by (simp add: word_less_nat_alt)
    then have "n \<le> 4" using power_less_imp_less_exp[of "2 :: nat" n 4] by simp
    then have "2 ^ n dvd (2 :: nat) ^ 4" by (rule le_imp_power_dvd)
    then show ?thesis using True by (simp add: aligned_size_def)
  next
    case False
    then show ?thesis using w by (simp add: aligned_size_def)
  qed
qed



section \<open>Allocation and release\<close>

text \<open>
  C30. An object that \<open>kmem_cache_alloc\<close> hands out overlaps no object in use, of this cache or of any
  other: all objects in use before the call stay in use with the same bytes, and none of these
  bytes is in the new object. The new object is after the header of a slab whose page is in the address
  range of the slabs and is mapped.
\<close>

theorem kmem_cache_objects_disjoint:
  assumes "slab_ok lim s" "in_use s i" "slab_vaddr_cursor s < lim" "kmem_cache_alloc (Some i) s = Some (ptr, s')" "ptr \<noteq> 0"
  shows "(\<forall>j b. in_use s j \<and> b \<in> live_objs s j \<longrightarrow> b \<in> live_objs s' j \<and> obj_bytes s' j b = obj_bytes s j b \<and>
        obj_bytes s' i ptr \<inter> obj_bytes s j b = {}) \<and>
    (\<exists>p \<ge> KERNEL_HEAP_BASE. p < slab_vaddr_cursor s' \<and> 4096 dvd unat p \<and> page_present (vmm s') p \<and>
        obj_bytes s' i ptr \<subseteq> {unat p + 64 ..< unat p + 4096})"
proof -
  have st: "cache_step i lim s s'" and new: "ptr \<notin> live_objs s i" "live_objs s' i = insert ptr (live_objs s i)"
    using kmem_alloc_objs[OF assms(1-3)] assms(4,5) by auto
  have ok: "slab_ok lim s'" and u: "in_use s' j \<longleftrightarrow> in_use s j" for j using st by (simp_all add: cache_step_def)
  have kept: "b \<in> live_objs s' j" "obj_bytes s' j b = obj_bytes s j b" if "in_use s j" "b \<in> live_objs s j" for j b
    using that new(2) live_objs_step(1)[OF st, of j] kmem_alloc_other[OF assms(4), of j] st
    by (cases "j = i"; simp add: obj_bytes_def cache_step_def)+
  have "obj_bytes s' i ptr \<inter> obj_bytes s j b = {}" if "in_use s j" "b \<in> live_objs s j" for j b
    using objs_disjoint[OF ok, of i j ptr b] assms(2) new kept[OF that] that u by auto
  moreover have "\<exists>p \<ge> KERNEL_HEAP_BASE. p < slab_vaddr_cursor s' \<and> 4096 dvd unat p \<and> page_present (vmm s') p \<and>
        obj_bytes s' i ptr \<subseteq> {unat p + 64 ..< unat p + 4096}"
    using objs_place[OF ok, of i ptr] assms(2) new(2) u by auto
  ultimately show ?thesis using kept by blast
qed

theorem kmem_cache_objects_disjoint_witness:
  "\<exists>b s. kmem_cache_alloc (Some 0) demo_one = Some (b, s) \<and> live_objs s 0 = {b, demo_obj} \<and>
     obj_bytes s 0 b \<inter> obj_bytes demo_one 0 demo_obj = {}"
proof -
  obtain b s where b: "kmem_cache_alloc (Some 0) demo_one = Some (b, s)" "b \<noteq> 0" "live_objs s 0 = {b, demo_obj}"
    using demo_two by blast
  then show ?thesis
    using kmem_cache_objects_disjoint[OF demo_one(3,4,8) b(1,2)] demo_one(4,5) by auto
qed

text \<open>
  C31. \<open>kmem_cache_alloc\<close> returns, keeps the registry well formed and does not touch the objects
  of other caches. An object it hands out was not in use and is in use after the call. It fails
  only when at most four physical pages were free: a slab takes one page, and three page tables to
  map it.
\<close>

theorem kmem_cache_alloc_correct:
  assumes "slab_ok lim s" "in_use s i" "slab_vaddr_cursor s < lim"
  shows "\<exists>ptr s'. kmem_cache_alloc (Some i) s = Some (ptr, s') \<and> slab_ok lim s' \<and> cache_used s' = cache_used s \<and>
    (\<forall>j. in_use s j \<and> j \<noteq> i \<longrightarrow> live_slots s' j = live_slots s j) \<and>
    (if ptr = 0 then live_objs s' i = live_objs s i \<and> card (free_set (pmm (vmm s))) \<le> 4
     else ptr \<notin> live_objs s i \<and> live_objs s' i = insert ptr (live_objs s i))"
  using kmem_alloc_objs[OF assms] by (fastforce simp: cache_step_def)

theorem kmem_cache_alloc_correct_witness:
  "\<exists>ptr s'. kmem_cache_alloc (Some 0) demo_caches = Some (ptr, s') \<and> slab_ok demo_lim s' \<and> in_use s' 0"
  using kmem_cache_alloc_correct[OF demo_caches_ok(1,2,4)] demo_caches_ok(2) by fastforce

text \<open>
  C32. \<open>kmem_cache_free\<close> of an object in use ends its use, keeps the registry well formed and
  does not touch the objects of other caches. A second release of the object does nothing.
\<close>

theorem kmem_cache_free_correct:
  assumes "slab_ok lim s" "in_use s i" "ptr \<in> live_objs s i"
  shows "\<exists>s'. kmem_cache_free (Some i) ptr s = Some s' \<and> slab_ok lim s' \<and> cache_used s' = cache_used s \<and>
    (\<forall>j. in_use s j \<and> j \<noteq> i \<longrightarrow> live_slots s' j = live_slots s j) \<and> live_objs s' i = live_objs s i - {ptr} \<and>
    kmem_cache_free (Some i) ptr s' = Some s'"
proof -
  obtain s' p k where f: "kmem_cache_free (Some i) ptr s = Some s'" "cache_step i lim s s'" "live_objs s' i = live_objs s i - {ptr}"
    "p \<in> cache_slabs (the_cache s' i) (slab_pages s')" "k < per_slab (the_cache s' i)" "(p, k) \<notin> live_slots s' i"
    "ptr = obj_addr (the_cache s' i) p k"
    using kmem_free_objs[OF assms] by blast
  have s': "slab_ok lim s'" "i < 32" "cache_used s' ! i" using f(2) assms(2) by (auto simp: cache_step_def)
  have "kmem_cache_free (Some i) ptr s' = Some s'"
    using kmem_cache_free_spec[OF s' f(4,5)] f(6,7) by simp
  then show ?thesis using f(1-3) by (auto simp: cache_step_def)
qed

theorem kmem_cache_free_correct_witness:
  "\<exists>s'. kmem_cache_free (Some 0) demo_obj demo_one = Some s' \<and> live_objs s' 0 = {} \<and>
     kmem_cache_free (Some 0) demo_obj s' = Some s'"
  using kmem_cache_free_correct[OF demo_one(3,4), of demo_obj] by (auto simp: demo_one(5))

text \<open>
  C33. Memory given back is found again: after the release of an object the next allocation
  from the cache succeeds, and takes no page from the page allocator.
\<close>

theorem kmem_cache_free_then_alloc:
  assumes "slab_ok lim s" "in_use s i" "ptr \<in> live_objs s i" "kmem_cache_free (Some i) ptr s = Some s1"
  shows "\<exists>ptr' s2. kmem_cache_alloc (Some i) s1 = Some (ptr', s2) \<and> ptr' \<noteq> 0 \<and> vmm s2 = vmm s1 \<and>
    live_objs s2 i = insert ptr' (live_objs s i - {ptr})"
proof -
  obtain p k where f: "cache_step i lim s s1" "live_objs s1 i = live_objs s i - {ptr}"
    "p \<in> cache_slabs (the_cache s1 i) (slab_pages s1)" "k < per_slab (the_cache s1 i)" "(p, k) \<notin> live_slots s1 i"
    using kmem_free_objs[OF assms(1-3)] assms(4) by auto
  have s1: "slab_ok lim s1" "i < 32" "cache_used s1 ! i" using f(1) assms(2) by (auto simp: cache_step_def)
  obtain ptr' s2 where a: "kmem_cache_alloc (Some i) s1 = Some (ptr', s2)" "object_taken i lim s1 ptr' s2" "vmm s2 = vmm s1"
    using kmem_alloc_free_slot[OF s1 f(3-5)] by blast
  moreover have "live_objs s2 i = insert ptr' (live_objs s1 i)" using taken_objs(4)[OF s1(1) _ a(2)] s1 by blast
  ultimately show ?thesis using f(2) by (auto simp: object_taken_def)
qed

theorem kmem_cache_free_then_alloc_witness:
  "\<exists>s1 p s2. kmem_cache_free (Some 0) demo_obj demo_one = Some s1 \<and> kmem_cache_alloc (Some 0) s1 = Some (p, s2) \<and>
     live_objs s2 0 = {p}"
proof -
  obtain s1 where s1: "kmem_cache_free (Some 0) demo_obj demo_one = Some s1"
    using kmem_free_objs[OF demo_one(3,4), of demo_obj] by (auto simp: demo_one(5))
  then show ?thesis using kmem_cache_free_then_alloc[OF demo_one(3,4) _ s1] by (auto simp: demo_one(5))
qed

text \<open>
  C34. In every history of a cache, however allocations and releases follow each other, an
  object is handed out only while it is not in use, and the objects in use at the end are those
  that the events leave.
\<close>

theorem kmem_cache_history:
  assumes "slab_ok lim s" "in_use s i"
    "history (\<lambda>(_ :: unit) s. slab_vaddr_cursor s < lim) (\<lambda>s. live_objs s i) (\<lambda>_ :: unit. kmem_cache_alloc (Some i)) (kmem_cache_free (Some i)) s es s'"
  shows "slab_ok lim s' \<and> replay es (live_objs s i) = Some (live_objs s' i)"
  using kc.history_replay[OF assms(3)] assms(1,2) by blast

theorem kmem_cache_history_witness:
  "\<exists>s'. history (\<lambda>(_ :: unit) s. slab_vaddr_cursor s < demo_lim) (\<lambda>s. live_objs s 0) (\<lambda>_ :: unit. kmem_cache_alloc (Some 0))
       (kmem_cache_free (Some 0)) demo_caches [Got demo_obj, Gone demo_obj] s' \<and> live_objs s' 0 = {}"
proof -
  obtain s' where s': "kmem_cache_free (Some 0) demo_obj demo_one = Some s'"
    using kmem_free_objs[OF demo_one(3,4), of demo_obj] by (auto simp: demo_one(5))
  have h: "history (\<lambda>(_ :: unit) s. slab_vaddr_cursor s < demo_lim) (\<lambda>s. live_objs s 0) (\<lambda>_ :: unit. kmem_cache_alloc (Some 0))
       (kmem_cache_free (Some 0)) demo_caches [Got demo_obj, Gone demo_obj] s'"
    by (rule history.got, rule demo_caches_ok(4), rule demo_one(1), rule demo_one(2), rule history.gone,
        simp add: demo_one(5), rule s', rule history.stop)
  have "live_objs demo_caches 0 = {}" by (simp add: live_objs_def demo_caches_ok(6))
  then show ?thesis using kmem_cache_history[OF demo_caches_ok(1,2) h] h by auto
qed

section \<open>Shrinking\<close>

text \<open>
  C35. \<open>kmem_cache_shrink\<close> returns: it empties the list of free slabs, gives exactly the frames
  of these slabs back to the page allocator, and keeps every object in use.
\<close>

theorem kmem_cache_shrink_correct:
  assumes "slab_ok lim s" "in_use s i"
  shows "\<exists>s'. kmem_cache_shrink (Some i) s = Some s' \<and> slab_ok lim s' \<and> slabs_free (the_cache s' i) = 0 \<and>
    (\<forall>j. in_use s j \<longrightarrow> live_slots s' j = live_slots s j) \<and>
    free_set (pmm (vmm s')) = free_set (pmm (vmm s)) \<union>
      slab_frame s ` (cache_slabs (the_cache s i) (slab_pages s) - cache_slabs (the_cache s' i) (slab_pages s'))"
proof -
  have ok: "slab_okE i {} lim s" and i: "i < 32" "cache_used s ! i" using assms slab_ok_iff by blast+
  from slab_okE_D(8)[OF ok i] obtain xs ys zs where
    o: "slabs_ok {} SLAB_PAGE_MAGIC i (per_slab (the_cache s i)) (the_cache s i) (slab_pages s) xs ys zs"
    "cache_slabs (the_cache s i) (slab_pages s) = set (xs @ ys @ zs)" by (rule cache_okD)
  have "distinct (xs @ ys @ zs)" using o(1) by (simp add: slabs_ok_def triple_def)
  then have "set (xs @ ys @ zs) - set (xs @ ys) = set zs" by auto
  then show ?thesis using shrink_loop_spec[OF ok i o(1)] o(2) by (fastforce simp: kmem_cache_shrink_def cache_step_def)
qed

theorem kmem_cache_shrink_correct_witness:
  "\<exists>s'. kmem_cache_shrink (Some 0) demo_one = Some s' \<and> slab_ok demo_lim s' \<and> live_slots s' 0 = live_slots demo_one 0"
  using kmem_cache_shrink_correct[OF demo_one(3,4)] demo_one(4) by blast

end
