(* ===== verification/Heap_Correct.thy ===== *)
theory Heap_Correct
  imports Heap Slab_Props
begin

text \<open>
  The slab path of the heap implements the object caches: its six caches are caches of the
  registry, and \<open>kmalloc\<close> and \<open>kfree\<close> do what \<open>kmem_cache_alloc\<close> and \<open>kmem_cache_free\<close>
  do. So what is proved of the object caches holds of the heap.
\<close>

unbundle bit_operations_syntax

section \<open>Lists without reset links\<close>

lemma slab_unlink_remove:
  "list_remove h s st = (h', st') \<Longrightarrow> slab_unlink h s st = (h', st'(s := (st' s)\<lparr>sl_next := 0, sl_prev := 0\<rparr>))"
  by (auto simp: slab_unlink_def list_remove_def Let_def split: if_splits)

lemma slab_push_reset: "slab_push h s (st(s := (st s)\<lparr>sl_next := 0, sl_prev := 0\<rparr>)) = slab_push h s st"
  by (simp add: slab_push_def)

lemma remove_push:
  "(case list_remove h s st of (h1, st1) \<Rightarrow> f h1 (slab_push (g h1) s st1)) =
   (case slab_unlink h s st of (h1, st1) \<Rightarrow> f h1 (slab_push (g h1) s st1))"
proof -
  obtain h1 st1 where r: "list_remove h s st = (h1, st1)" by fastforce
  show ?thesis unfolding r slab_unlink_remove[OF r] by (simp add: slab_push_reset)
qed

lemma heap_claim_eq: "heap_claim = slab_claim"
  and heap_reopen_eq: "heap_reopen = slab_reopen"
  and heap_retire_eq: "heap_retire = slab_retire"
  unfolding heap_claim_def slab_claim_def heap_reopen_def slab_reopen_def heap_retire_def slab_retire_def Let_def
  by (intro ext, simp add: remove_push[where f = "\<lambda>h x. case x of (h', st) \<Rightarrow> F h h' st" for F] split: prod.splits; fail)+

lemma heap_unclaim_eq: "heap_unclaim = slab_unclaim"
  by (intro ext) (simp add: heap_unclaim_def slab_unclaim_def heap_reopen_eq heap_retire_eq)

lemma pop_push:
  assumes "sl_prev (st s) = 0" "list_pop s st = (h, st1)" "slab_unlink h0 s st = (h', st2)"
  shows "h = h' \<and> slab_push g s st1 = slab_push g s st2"
proof -
  let ?b = "if sl_next (st s) \<noteq> 0 then st(sl_next (st s) := (st (sl_next (st s)))\<lparr>sl_prev := 0\<rparr>) else st"
  have l: "list_pop s st = (sl_next (st s), ?b(s := (?b s)\<lparr>sl_next := 0\<rparr>))" by (simp add: list_pop_def Let_def)
  have u: "slab_unlink h0 s st = (sl_next (st s), ?b(s := (?b s)\<lparr>sl_next := 0, sl_prev := 0\<rparr>))"
    using assms(1) by (simp add: slab_unlink_def Let_def)
  have "slab_push g s (b(s := (b s)\<lparr>sl_next := 0\<rparr>)) = slab_push g s b" for b :: "u64 \<Rightarrow> 'a slab_links_scheme"
    by (simp add: slab_push_def)
  then show ?thesis using l u assms(2,3) slab_push_reset by (metis prod.inject)
qed

section \<open>The simulation\<close>

text \<open>The header of a heap page as the header of an object cache.\<close>

definition cache_page :: "heap_page \<Rightarrow> slab_page" where
  "cache_page pg = \<lparr>sl_next = sl_next pg, sl_prev = sl_prev pg,
     sp_magic = (if sp_magic pg = SLAB_MAGIC then SLAB_PAGE_MAGIC else 0), sp_cache = sp_cache pg,
     free_count = free_count pg, total_count = total_count pg, sp_bitmap = sp_bitmap pg\<rparr>"

lemma cache_page_simps [simp]:
  "sl_next (cache_page pg) = sl_next pg" "sl_prev (cache_page pg) = sl_prev pg" "sp_cache (cache_page pg) = sp_cache pg"
  "free_count (cache_page pg) = free_count pg" "total_count (cache_page pg) = total_count pg"
  "sp_bitmap (cache_page pg) = sp_bitmap pg"
  "cache_page (pg\<lparr>sl_next := x\<rparr>) = (cache_page pg)\<lparr>sl_next := x\<rparr>"
  "cache_page (pg\<lparr>sl_prev := x\<rparr>) = (cache_page pg)\<lparr>sl_prev := x\<rparr>"
  "cache_page (pg\<lparr>free_count := n\<rparr>) = (cache_page pg)\<lparr>free_count := n\<rparr>"
  "cache_page (pg\<lparr>sp_bitmap := b\<rparr>) = (cache_page pg)\<lparr>sp_bitmap := b\<rparr>"
  by (simp_all add: cache_page_def)

lemma cache_page_magic: "sp_magic (cache_page pg) = SLAB_PAGE_MAGIC \<longleftrightarrow> sp_magic pg = SLAB_MAGIC"
  by (simp add: cache_page_def SLAB_PAGE_MAGIC_def)

definition cache_pages :: "(u64 \<Rightarrow> heap_page) \<Rightarrow> u64 \<Rightarrow> slab_page" where
  "cache_pages st = (\<lambda>p. cache_page (st p))"

lemma cache_pages_simps [simp]:
  "cache_pages st p = cache_page (st p)"
  "cache_pages (st(p := pg)) = (cache_pages st)(p := cache_page pg)"
  by (simp_all add: cache_pages_def fun_eq_iff)

text \<open>A cache of the heap and a cache of the registry with the same lists and sizes.\<close>

definition cache_sim :: "slab_cache \<Rightarrow> kmem_cache \<Rightarrow> bool" where
  "cache_sim c k \<longleftrightarrow> slabs_partial k = slabs_partial c \<and> slabs_full k = slabs_full c \<and> slabs_free k = slabs_free c \<and>
     obj_aligned k = h_obj_size c \<and> objs_per_slab k = slab_capacity (h_obj_size c) \<and> ctor k = None \<and> dtor k = None"

definition heap_sim :: "heap_state \<Rightarrow> slab_state \<Rightarrow> bool" where
  "heap_sim h s \<longleftrightarrow> vmm s = hvmm h \<and> slab_pages s = cache_pages (hpages h) \<and> slab_vaddr_cursor s = current_heap_vaddr h \<and>
     length (caches h) = 6 \<and> length (cache_pool s) = 32 \<and> length (cache_used s) = 32 \<and>
     (\<forall>i<32. cache_used s ! i \<longleftrightarrow> i < 6) \<and> (\<forall>i<6. cache_sim (caches h ! i) (the_cache s i))"

lemma push_sim: "slab_push g s st = (h, st') \<Longrightarrow> slab_push g s (cache_pages st) = (h, cache_pages st')"
  by (auto simp: slab_push_def Let_def)

lemma unlink_sim: "slab_unlink g s st = (h, st') \<Longrightarrow> slab_unlink g s (cache_pages st) = (h, cache_pages st')"
  by (auto simp: slab_unlink_def Let_def split: if_splits)

definition pair_sim :: "slab_cache \<times> (u64 \<Rightarrow> heap_page) \<Rightarrow> kmem_cache \<times> (u64 \<Rightarrow> slab_page) \<Rightarrow> bool" where
  "pair_sim x y \<longleftrightarrow> cache_sim (fst x) (fst y) \<and> snd y = cache_pages (snd x)"

lemma move_sim:
  obtains h1 st1 h2 st2 where "slab_unlink a p st = (h1, st1)" "slab_push b p st1 = (h2, st2)"
    "slab_unlink a p (cache_pages st) = (h1, cache_pages st1)" "slab_push b p (cache_pages st1) = (h2, cache_pages st2)"
proof -
  obtain h1 st1 where u: "slab_unlink a p st = (h1, st1)" by fastforce
  obtain h2 st2 where "slab_push b p st1 = (h2, st2)" by fastforce
  then show thesis using that[OF u] unlink_sim[OF u] push_sim by blast
qed

lemma claim_sim:
  assumes "pair_sim x y" shows "pair_sim (slab_claim p k x) (slab_claim p k y)"
proof -
  obtain c st c' where x: "x = (c, st)" "y = (c', cache_pages st)" "cache_sim c c'"
    using assms by (cases x, cases y) (auto simp: pair_sim_def)
  let ?st = "st(p := (st p)\<lparr>sp_bitmap := BITMAP_SET (sp_bitmap (st p)) k, free_count := free_count (st p) - 1\<rparr>)"
  obtain h1 st1 h2 st2 where m: "slab_unlink (slabs_partial c) p ?st = (h1, st1)" "slab_push (slabs_full c) p st1 = (h2, st2)"
    "slab_unlink (slabs_partial c) p (cache_pages ?st) = (h1, cache_pages st1)"
    "slab_push (slabs_full c) p (cache_pages st1) = (h2, cache_pages st2)" by (rule move_sim)
  show ?thesis
    using x m by (auto simp: slab_claim_def Let_def pair_sim_def cache_sim_def)
qed

lemma reopen_sim:
  assumes "pair_sim x y" shows "pair_sim (slab_reopen p x) (slab_reopen p y)"
proof -
  obtain c st c' where x: "x = (c, st)" "y = (c', cache_pages st)" "cache_sim c c'"
    using assms by (cases x, cases y) (auto simp: pair_sim_def)
  obtain h1 st1 h2 st2 where m: "slab_unlink (slabs_full c) p st = (h1, st1)" "slab_push (slabs_partial c) p st1 = (h2, st2)"
    "slab_unlink (slabs_full c) p (cache_pages st) = (h1, cache_pages st1)"
    "slab_push (slabs_partial c) p (cache_pages st1) = (h2, cache_pages st2)" by (rule move_sim)
  show ?thesis using x m by (auto simp: slab_reopen_def Let_def pair_sim_def cache_sim_def)
qed

lemma retire_sim:
  assumes "pair_sim x y" shows "pair_sim (slab_retire p x) (slab_retire p y)"
proof -
  obtain c st c' where x: "x = (c, st)" "y = (c', cache_pages st)" "cache_sim c c'"
    using assms by (cases x, cases y) (auto simp: pair_sim_def)
  obtain h1 st1 h2 st2 where m: "slab_unlink (slabs_partial c) p st = (h1, st1)" "slab_push (slabs_free c) p st1 = (h2, st2)"
    "slab_unlink (slabs_partial c) p (cache_pages st) = (h1, cache_pages st1)"
    "slab_push (slabs_free c) p (cache_pages st1) = (h2, cache_pages st2)" by (rule move_sim)
  show ?thesis using x m by (auto simp: slab_retire_def Let_def pair_sim_def cache_sim_def)
qed

lemma unclaim_sim:
  assumes "pair_sim x y" shows "pair_sim (slab_unclaim p k x) (slab_unclaim p k y)"
proof -
  obtain c st c' where x: "x = (c, st)" "y = (c', cache_pages st)" "cache_sim c c'"
    using assms by (cases x, cases y) (auto simp: pair_sim_def)
  let ?pg = "(st p)\<lparr>sp_bitmap := BITMAP_CLEAR (sp_bitmap (st p)) k, free_count := free_count (st p) + 1\<rparr>"
  have "pair_sim (c, st(p := ?pg)) (c', (cache_pages st)(p := cache_page ?pg))"
    using x(3) by (simp add: pair_sim_def)
  from retire_sim[OF reopen_sim[OF this]] show ?thesis
    unfolding x slab_unclaim_def by simp
qed

lemma new_slab_sim: "cache_sim c k \<Longrightarrow> cache_page (new_heap_slab i c) = new_slab_hdr i k"
  by (simp add: new_heap_slab_def new_slab_hdr_def cache_page_def cache_sim_def slab_capacity_def HEAP_SLAB_HDR_def
      SLAB_HDR_def Let_def)

section \<open>Allocation\<close>

abbreviation result_sim :: "(u64 \<times> heap_state) option \<Rightarrow> (u64 \<times> slab_state) option \<Rightarrow> bool" where
  "result_sim \<equiv> rel_option (rel_prod (=) heap_sim)"

lemma heap_simD:
  assumes "heap_sim h s"
  shows "vmm s = hvmm h" "slab_pages s = cache_pages (hpages h)" "slab_vaddr_cursor s = current_heap_vaddr h"
    "length (caches h) = 6" "length (cache_pool s) = 32" "length (cache_used s) = 32" "i < 6 \<Longrightarrow> cache_used s ! i"
    "i < 6 \<Longrightarrow> cache_sim (caches h ! i) (the_cache s i)"
    "i < 6 \<Longrightarrow> slabs_partial (the_cache s i) = slabs_partial (caches h ! i)"
    "i < 6 \<Longrightarrow> slabs_free (the_cache s i) = slabs_free (caches h ! i)"
  using assms by (auto simp: heap_sim_def cache_sim_def)

lemma put_sim:
  assumes "heap_sim h s" "i < 6" "cache_sim c k"
  shows "heap_sim (put_hcache i c (h\<lparr>hpages := st\<rparr>)) (put_cache i k (s\<lparr>slab_pages := cache_pages st\<rparr>))"
  using assms by (auto simp: heap_sim_def put_hcache_def put_cache_def nth_list_update)

lemma new_slab_result_sim:
  assumes h: "heap_sim h s" and i: "i < 6"
  shows "result_sim (allocate_new_slab i h) (slab_page_alloc i s)"
proof (cases "alloc_page (hvmm h)")
  case None
  then show ?thesis by (simp add: allocate_new_slab_def slab_page_alloc_def heap_simD[OF h])
next
  case (Some av)
  obtain a v where av: "av = (a, v)" by fastforce
  note D = heap_simD[OF h] and d = allocate_new_slab_def slab_page_alloc_def allocate_virtual_space_def
    slab_allocate_vaddr_def Let_def
  show ?thesis
  proof (cases "a = 0")
    case True
    then show ?thesis using Some av h by (simp add: d D) (simp add: heap_sim_def)
  next
    case False
    let ?m = "vmm_map_page (vmm_get_active_pml4 v) (current_heap_vaddr h) (of_nat a) (PAGE_FLAG_PRESENT OR PAGE_FLAG_RW) v"
    show ?thesis
    proof (cases ?m)
      case None
      then show ?thesis using Some av False by (simp add: d D)
    next
      case m: (Some ow)
      obtain ok w where ow: "ow = (ok, w)" by fastforce
      show ?thesis
      proof (cases ok)
        case True
        have c: "cache_sim (caches h ! i) ((the_cache s i)\<lparr>total_slabs := n\<rparr>)" for n
          using D(8)[OF i] by (simp add: cache_sim_def)
        show ?thesis using Some av False m ow True h new_slab_sim[OF D(8)[OF i], of i] c i
          by (simp add: d D put_cache_def) (auto simp: heap_sim_def nth_list_update)
      next
        case False
        then show ?thesis using Some av \<open>a \<noteq> 0\<close> m ow h by (simp add: d D) (simp add: heap_sim_def)
      qed
    qed
  qed
qed

lemma slab_for_alloc_sim:
  assumes h: "heap_sim h s" and i: "i < 6"
    and p: "slabs_free (caches h ! i) \<noteq> 0 \<Longrightarrow> sl_prev (hpages h (slabs_free (caches h ! i))) = 0"
  shows "result_sim (heap_slab_for_alloc i h) (slab_for_alloc i s)"
proof (cases "slabs_partial (caches h ! i) = 0")
  case False
  then show ?thesis using h heap_simD(9)[OF h i] by (simp add: heap_slab_for_alloc_def slab_for_alloc_def)
next
  case True
  note D = heap_simD[OF h]
  let ?c = "caches h ! i" and ?k = "the_cache s i" let ?f = "slabs_free ?c"
  show ?thesis
  proof (cases "?f = 0")
    case False
    obtain h1 st1 where l: "list_pop ?f (hpages h) = (h1, st1)" by fastforce
    obtain h1' st1' where u: "slab_unlink ?f ?f (hpages h) = (h1', st1')" by fastforce
    obtain h2 st2 where q: "slab_push 0 ?f st1' = (h2, st2)" by fastforce
    have e: "h1' = h1" "slab_push 0 ?f st1 = (h2, st2)" using pop_push[OF p[OF False] l u, of 0] q by simp_all
    have "heap_sim (put_hcache i (?c\<lparr>slabs_free := h1, slabs_partial := h2\<rparr>) (h\<lparr>hpages := st2\<rparr>))
        (put_cache i (?k\<lparr>slabs_free := h1, slabs_partial := h2\<rparr>) (s\<lparr>slab_pages := cache_pages st2\<rparr>))"
      by (rule put_sim[OF h i]) (use D(8)[OF i] in \<open>simp add: cache_sim_def\<close>)
    then show ?thesis
      using True False l e unlink_sim[OF u] push_sim[OF q] i
      by (simp add: heap_slab_for_alloc_def slab_for_alloc_def D put_hcache_def put_cache_def)
  next
    case f: True
    have step: "result_sim (if sl = 0 then Some (0, h') else
          (let (x, st) = slab_push (slabs_partial (caches h' ! i)) sl (hpages h')
           in Some (sl, put_hcache i ((caches h' ! i)\<lparr>slabs_partial := x\<rparr>) (h'\<lparr>hpages := st\<rparr>))))
        (if sl = 0 then Some (0, s') else
          (let (x, st) = slab_push (slabs_partial (the_cache s' i)) sl (slab_pages s')
           in Some (sl, put_cache i ((the_cache s' i)\<lparr>slabs_partial := x\<rparr>) (s'\<lparr>slab_pages := st\<rparr>))))"
      if h': "heap_sim h' s'" for sl h' s'
    proof -
      obtain x st where q: "slab_push (slabs_partial (caches h' ! i)) sl (hpages h') = (x, st)" by fastforce
      have "cache_sim ((caches h' ! i)\<lparr>slabs_partial := x\<rparr>) ((the_cache s' i)\<lparr>slabs_partial := x\<rparr>)"
        using heap_simD(8)[OF h' i] by (simp add: cache_sim_def)
      then show ?thesis using h' put_sim[OF h' i] push_sim[OF q] heap_simD(2,9)[OF h'] i q by simp
    qed
    show ?thesis
      using new_slab_result_sim[OF h i] True f step i D(9,10)[OF i]
      by (cases "allocate_new_slab i h"; cases "slab_page_alloc i s")
        (auto simp: heap_slab_for_alloc_def slab_for_alloc_def)
  qed
qed

lemma kmalloc_slab_sim:
  assumes h: "heap_sim h s" and i: "i < 6"
    and p: "slabs_free (caches h ! i) \<noteq> 0 \<Longrightarrow> sl_prev (hpages h (slabs_free (caches h ! i))) = 0"
  shows "result_sim (kmalloc_slab i h) (kmem_cache_alloc (Some i) s)"
proof -
  from slab_for_alloc_sim[OF assms] consider
    (none) "heap_slab_for_alloc i h = None" "slab_for_alloc i s = None"
  | (some) sl h1 s1 where "heap_slab_for_alloc i h = Some (sl, h1)" "slab_for_alloc i s = Some (sl, s1)" "heap_sim h1 s1"
    by (cases "heap_slab_for_alloc i h"; cases "slab_for_alloc i s") auto
  then show ?thesis
  proof cases
    case none
    then show ?thesis by (simp add: kmalloc_slab_def kmem_cache_alloc_def)
  next
    case some
    note D = heap_simD[OF some(3)]
    let ?ff = "find_free (sp_bitmap (hpages h1 sl)) 0 (unat (total_count (hpages h1 sl)))"
    show ?thesis
    proof (cases "sl = 0 \<or> ?ff = None")
      case True
      then show ?thesis using some D(2) by (auto simp: kmalloc_slab_def kmem_cache_alloc_def)
    next
      case False
      then obtain k where k: "?ff = Some k" "sl \<noteq> 0" by auto
      obtain c st where c: "slab_claim sl k (caches h1 ! i, hpages h1) = (c, st)" by fastforce
      obtain c' st' where c': "slab_claim sl k (the_cache s1 i, slab_pages s1) = (c', st')" by fastforce
      have "pair_sim (c, st) (c', st')"
        unfolding c[symmetric] c'[symmetric] by (rule claim_sim) (simp add: pair_sim_def D(2) D(8)[OF i])
      then have ps: "cache_sim c c'" "st' = cache_pages st" by (simp_all add: pair_sim_def)
      let ?c' = "c'\<lparr>total_allocs := total_allocs c' + 1, active_objects := active_objects c' + 1\<rparr>"
      have "cache_sim c ?c'" using ps(1) by (simp add: cache_sim_def)
      note put = put_sim[OF some(3) i this, of st]
      have "ctor ?c' = None" "obj_aligned ?c' = h_obj_size c" using ps(1) by (simp_all add: cache_sim_def)
      then show ?thesis
        using some(1,2) k c c' put ps(2) D(2)
        by (simp add: kmalloc_slab_def kmem_cache_alloc_def heap_claim_eq Let_def HEAP_SLAB_HDR_def SLAB_HDR_def)
    qed
  qed
qed

section \<open>The invariant\<close>

definition heap_sizes :: "u64 list" where "heap_sizes = [32, 64, 128, 256, 512, 1024]"

definition small_ok :: "u64 \<Rightarrow> heap_state \<Rightarrow> bool" where
  "small_ok lim h \<longleftrightarrow> map h_obj_size (caches h) = heap_sizes \<and> (\<exists>s. heap_sim h s \<and> slab_ok lim s)"

text \<open>The objects in use of the cache \<open>i\<close>, by slab and index.\<close>

definition small_slots :: "heap_state \<Rightarrow> nat \<Rightarrow> (u64 \<times> nat) set" where
  "small_slots h i = {(p, k). p \<in> cache_slabs (caches h ! i) (hpages h) \<and>
     k < unat (slab_capacity (h_obj_size (caches h ! i))) \<and> used (hpages h) p k}"

definition small_addr :: "nat \<Rightarrow> u64 \<times> nat \<Rightarrow> u64" where
  "small_addr i = (\<lambda>(p, k). p + HEAP_SLAB_HDR + of_nat k * heap_sizes ! i)"

lemma seg_sim: "seg (cache_pages st) p xs h m \<longleftrightarrow> seg st p xs h m"
  by (induction xs arbitrary: p h) simp_all

lemma cache_slabs_sim:
  assumes "cache_sim c k" shows "cache_slabs k (cache_pages st) = cache_slabs c st"
  using assms by (simp add: cache_slabs_def triple_def seg_sim cache_sim_def)

lemma live_sim:
  assumes "heap_sim h s" "i < 6" shows "live_slots s i = small_slots h i"
  using heap_simD(2)[OF assms(1)] heap_simD(8)[OF assms] cache_slabs_sim[OF heap_simD(8)[OF assms]]
  by (simp add: live_slots_def small_slots_def cache_sim_def)

lemma size_sim:
  assumes "map h_obj_size (caches h) = heap_sizes" "i < 6" shows "h_obj_size (caches h ! i) = heap_sizes ! i"
proof -
  have "length (caches h) = 6" using arg_cong[OF assms(1), of length] by (simp add: heap_sizes_def)
  then show ?thesis using assms by (metis nth_map)
qed

lemma addr_sim:
  assumes "map h_obj_size (caches h) = heap_sizes" "heap_sim h s" "i < 6"
  shows "obj_addr (the_cache s i) p k = small_addr i (p, k)" "obj_aligned (the_cache s i) = heap_sizes ! i"
  using heap_simD(8)[OF assms(2,3)] size_sim[OF assms(1,3)]
  by (simp_all add: obj_addr_def small_addr_def cache_sim_def SLAB_HDR_def HEAP_SLAB_HDR_def)

lemma free_head_prev:
  assumes ok: "slab_ok lim s" and h: "heap_sim h s" "i < 6" and f: "slabs_free (caches h ! i) \<noteq> 0"
  shows "sl_prev (hpages h (slabs_free (caches h ! i))) = 0"
proof -
  have "slab_okE i {} lim s" using ok slab_ok_iff[of i s lim] heap_simD(7)[OF h(1)] h(2) by simp
  then have "cache_ok {} s i" using slab_okE_D(8) heap_simD(7)[OF h(1)] h(2) by simp
  then obtain xs ys zs where "chain (slab_pages s) zs (slabs_free (the_cache s i))"
    by (rule cache_okD) (auto simp: slabs_ok_def triple_def)
  then show ?thesis using f heap_simD(2)[OF h(1)] heap_simD(10)[OF h] by (cases zs) (auto simp: seg_sim)
qed

section \<open>Small requests\<close>

text \<open>The kind of a page and the size of a large block.\<close>

definition same_tags :: "(u64 \<Rightarrow> heap_page) \<Rightarrow> (u64 \<Rightarrow> heap_page) \<Rightarrow> bool" where
  "same_tags st st' \<longleftrightarrow> (\<forall>p. sp_magic (st' p) = sp_magic (st p) \<and> big_pages (st' p) = big_pages (st p))"

lemma same_tags_trans: "same_tags st st1 \<Longrightarrow> same_tags st1 st2 \<Longrightarrow> same_tags st st2"
  by (simp add: same_tags_def)

lemma push_tags: "slab_push g s st = (h, st') \<Longrightarrow> same_tags st st'"
  and pop_tags: "list_pop s st = (h, st') \<Longrightarrow> same_tags st st'"
  and remove_tags: "list_remove g s st = (h, st') \<Longrightarrow> same_tags st st'"
  and unlink_tags: "slab_unlink g s st = (h, st') \<Longrightarrow> same_tags st st'"
  by (auto simp: same_tags_def slab_push_def list_pop_def list_remove_def slab_unlink_def Let_def split: if_splits)

lemma upd_tags: "sp_magic pg = sp_magic (st p) \<Longrightarrow> big_pages pg = big_pages (st p) \<Longrightarrow> same_tags st (st(p := pg))"
  by (simp add: same_tags_def)

lemma move_tags:
  assumes "slab_unlink a p st = (h1, st1)" "slab_push b p st1 = (h2, st2)" shows "same_tags st st2"
  by (rule same_tags_trans[OF unlink_tags[OF assms(1)] push_tags[OF assms(2)]])

lemma claim_tags: "same_tags (snd x) (snd (slab_claim p k x))"
  and reopen_tags: "same_tags (snd x) (snd (slab_reopen p x))"
  and retire_tags: "same_tags (snd x) (snd (slab_retire p x))"
proof -
  obtain c st where x: "x = (c, st)" by fastforce
  let ?st = "st(p := (st p)\<lparr>sp_bitmap := BITMAP_SET (sp_bitmap (st p)) k, free_count := free_count (st p) - 1\<rparr>)"
  have u: "same_tags st ?st" by (rule upd_tags) simp_all
  show "same_tags (snd x) (snd (slab_claim p k x))"
    unfolding x slab_claim_def using u same_tags_trans[OF u move_tags] by (auto simp: Let_def split: prod.splits)
  show "same_tags (snd x) (snd (slab_reopen p x))" "same_tags (snd x) (snd (slab_retire p x))"
    unfolding x slab_reopen_def slab_retire_def using move_tags by (auto simp: Let_def same_tags_def split: prod.splits)
qed

lemma unclaim_tags: "same_tags (snd x) (snd (slab_unclaim p k x))"
proof -
  obtain c st where x: "x = (c, st)" by fastforce
  let ?st = "st(p := (st p)\<lparr>sp_bitmap := BITMAP_CLEAR (sp_bitmap (st p)) k, free_count := free_count (st p) + 1\<rparr>)"
  have "same_tags st ?st" by (rule upd_tags) simp_all
  then show ?thesis
    unfolding x slab_unclaim_def
    using same_tags_trans[OF same_tags_trans[OF _ reopen_tags] retire_tags, of st "(c, ?st)" p p] by simp
qed

text \<open>What the slab path leaves alone.\<close>

definition rest_kept :: "nat \<Rightarrow> heap_state \<Rightarrow> heap_state \<Rightarrow> bool" where
  "rest_kept n h h' \<longleftrightarrow> map h_obj_size (caches h') = map h_obj_size (caches h) \<and> big_alloc_head h' = big_alloc_head h \<and>
     (\<forall>a<n. hmem h' a = hmem h a) \<and>
     (\<forall>p. unat p < n \<longrightarrow> sp_magic (hpages h' p) = sp_magic (hpages h p) \<and> big_pages (hpages h' p) = big_pages (hpages h p))"

lemma rest_kept_trans: "rest_kept n h h1 \<Longrightarrow> rest_kept n h1 h2 \<Longrightarrow> rest_kept n h h2"
  by (simp add: rest_kept_def)

lemma put_kept:
  assumes "h_obj_size c = h_obj_size (caches h ! i)" "same_tags (hpages h) st"
  shows "rest_kept n h (put_hcache i c (h\<lparr>hpages := st\<rparr>))"
proof -
  have "map h_obj_size ((caches h)[i := c]) = map h_obj_size (caches h)"
    using assms(1) by (cases "i < length (caches h)") (simp_all add: map_update list_update_same_conv list_update_beyond)
  then show ?thesis using assms(2) by (simp add: rest_kept_def put_hcache_def same_tags_def)
qed

lemma new_slab_kept:
  assumes "allocate_new_slab i h = Some (sl, h')" shows "rest_kept (unat (current_heap_vaddr h)) h h'"
  using assms
  by (auto simp: allocate_new_slab_def allocate_virtual_space_def Let_def rest_kept_def memset_mfill mfill_def
      split: Option.bind_splits if_splits)

lemma slab_for_alloc_kept:
  assumes "heap_slab_for_alloc i h = Some (sl, h')" shows "rest_kept (unat (current_heap_vaddr h)) h h'"
proof (cases "slabs_partial (caches h ! i) = 0")
  case False
  then show ?thesis using assms by (auto simp: heap_slab_for_alloc_def rest_kept_def)
next
  case True
  have one: "rest_kept n h1 h2"
    if "(if sl1 = 0 then Some (0, h1) else (let (x, st) = slab_push (slabs_partial (caches h1 ! i)) sl1 (hpages h1)
           in Some (sl1, put_hcache i ((caches h1 ! i)\<lparr>slabs_partial := x\<rparr>) (h1\<lparr>hpages := st\<rparr>)))) = Some (sl2, h2)" for sl1 h1 sl2 h2 n
    using that by (auto simp: put_kept[OF _ push_tags] split: if_splits prod.splits) (auto simp: rest_kept_def)
  show ?thesis
  proof (cases "slabs_free (caches h ! i) = 0")
    case False
    obtain x st where l: "list_pop (slabs_free (caches h ! i)) (hpages h) = (x, st)" by fastforce
    let ?h1 = "put_hcache i ((caches h ! i)\<lparr>slabs_free := x\<rparr>) (h\<lparr>hpages := st\<rparr>)"
    have "rest_kept n h ?h1" for n by (rule put_kept[OF _ pop_tags[OF l]]) simp
    moreover have "rest_kept n ?h1 h'" for n
      using assms True False l by (intro one[of "slabs_free (caches h ! i)"]) (simp add: heap_slab_for_alloc_def)
    ultimately show ?thesis using rest_kept_trans by blast
  next
    case f: True
    then obtain sl1 h1 where n: "allocate_new_slab i h = Some (sl1, h1)"
      using assms True by (auto simp: heap_slab_for_alloc_def split: Option.bind_splits)
    have "rest_kept (unat (current_heap_vaddr h)) h1 h'"
      using assms True f n by (intro one[of sl1]) (simp add: heap_slab_for_alloc_def)
    then show ?thesis using new_slab_kept[OF n] rest_kept_trans by blast
  qed
qed

lemma claim_size: "h_obj_size (fst (slab_claim p k x)) = h_obj_size (fst x)"
  and unclaim_size: "h_obj_size (fst (slab_unclaim p k x)) = h_obj_size (fst x)"
  by (cases x; auto simp: slab_claim_def slab_unclaim_def slab_reopen_def slab_retire_def Let_def split: prod.splits)+

lemma kmalloc_slab_kept:
  assumes "kmalloc_slab i h = Some (ptr, h')" shows "rest_kept (unat (current_heap_vaddr h)) h h'"
proof -
  obtain sl h1 where f: "heap_slab_for_alloc i h = Some (sl, h1)"
    using assms by (auto simp: kmalloc_slab_def split: Option.bind_splits)
  have "rest_kept n h1 h1" for n by (simp add: rest_kept_def)
  moreover have "rest_kept n h1 (put_hcache i c (h1\<lparr>hpages := st\<rparr>))"
    if "heap_claim sl k (caches h1 ! i, hpages h1) = (c, st)" for n k c st
    using claim_size[of sl k "(caches h1 ! i, hpages h1)"] claim_tags[of "(caches h1 ! i, hpages h1)" sl k] that
    by (intro put_kept) (simp_all add: heap_claim_eq)
  ultimately have "rest_kept n h1 h'" for n
    using assms f by (auto simp: kmalloc_slab_def Let_def split: if_splits option.splits prod.splits)
  then show ?thesis using slab_for_alloc_kept[OF f] rest_kept_trans by blast
qed

lemma cache_for_Some: "cache_for sz cs n = Some i \<Longrightarrow> n \<le> i \<and> i - n < length cs \<and> sz \<le> h_obj_size (cs ! (i - n))"
proof (induction cs arbitrary: n)
  case (Cons c cs)
  show ?case
  proof (cases "sz \<le> h_obj_size c")
    case True
    then show ?thesis using Cons.prems by simp
  next
    case False
    then have "n + 1 \<le> i \<and> i - (n + 1) < length cs \<and> sz \<le> h_obj_size (cs ! (i - (n + 1)))" using Cons by simp
    moreover from this have "i - n = Suc (i - (n + 1))" by arith
    ultimately show ?thesis by simp
  qed
qed simp

lemma cache_for_None: "cache_for sz cs n = None \<longleftrightarrow> (\<forall>c\<in>set cs. \<not> sz \<le> h_obj_size c)"
  by (induction cs arbitrary: n) auto

lemma cache_for_small:
  assumes "map h_obj_size (caches h) = heap_sizes" "sz \<le> 1024"
  obtains i where "cache_for sz (caches h) 0 = Some i" "i < 6" "sz \<le> heap_sizes ! i"
proof -
  have "1024 \<in> h_obj_size ` set (caches h)" using arg_cong[OF assms(1), of set] by (simp add: heap_sizes_def)
  then obtain c where "c \<in> set (caches h)" "h_obj_size c = 1024" by auto
  then have "cache_for sz (caches h) 0 \<noteq> None" unfolding cache_for_None using assms(2) by metis
  then obtain i where i: "cache_for sz (caches h) 0 = Some i" by auto
  have "length (caches h) = 6" using arg_cong[OF assms(1), of length] by (simp add: heap_sizes_def)
  then show thesis using that[OF i] cache_for_Some[OF i] size_sim[OF assms(1), of i] by simp
qed

lemma small_ok_cases:
  assumes "small_ok lim h"
  obtains s where "heap_sim h s" "slab_ok lim s" "map h_obj_size (caches h) = heap_sizes"
    "\<forall>i<6. in_use s i"
  using assms heap_simD(7) unfolding small_ok_def by fastforce

text \<open>What happens outside the slabs of the cache \<open>i\<close>.\<close>

abbreviation heap_pml4 :: "heap_state \<Rightarrow> nat" where
  "heap_pml4 h \<equiv> vmm_get_active_pml4 (hvmm h)"

definition other_small :: "nat \<Rightarrow> heap_state \<Rightarrow> u64 set" where
  "other_small i h = (\<Union>j\<in>{j. j < 6 \<and> j \<noteq> i}. cache_slabs (caches h ! j) (hpages h))"

definition heap_outside :: "nat \<Rightarrow> heap_state \<Rightarrow> heap_state \<Rightarrow> bool" where
  "heap_outside i h h' \<longleftrightarrow> other_small i h' = other_small i h \<and> cr3 (hvmm h') = cr3 (hvmm h) \<and> vmm_grown (heap_pml4 h) (hvmm h) (hvmm h') \<and>
     (\<forall>q. vpath 4 q \<and> length q = 4 \<and> q \<noteq> va_path (current_heap_vaddr h) \<longrightarrow>
        aspace (mem (hvmm h')) (heap_pml4 h) q = aspace (mem (hvmm h)) (heap_pml4 h) q) \<and>
     (\<forall>p. p \<notin> cache_slabs (caches h ! i) (hpages h) \<and> p < current_heap_vaddr h \<longrightarrow> hpages h' p = hpages h p) \<and>
     cache_slabs (caches h' ! i) (hpages h') \<subseteq> insert (current_heap_vaddr h) (cache_slabs (caches h ! i) (hpages h)) \<and>
     (\<forall>p\<in>cache_slabs (caches h' ! i) (hpages h') - cache_slabs (caches h ! i) (hpages h).
        frame (hvmm h') (heap_pml4 h) p div 4096 \<in> free_set (pmm (hvmm h))) \<and>
     current_heap_vaddr h \<le> current_heap_vaddr h'"

lemma cache_page_inj:
  assumes "cache_page a = cache_page b" "sp_magic a = sp_magic b" "big_pages a = big_pages b" shows "a = b"
  using assms by (cases a; cases b) (simp add: cache_page_def)

lemma other_sim:
  assumes "heap_sim h s" shows "other_slabs s i = other_small i h"
proof -
  note D = heap_simD[OF assms]
  have "{j. j < 32 \<and> j \<noteq> i \<and> cache_used s ! j} = {j. j < 6 \<and> j \<noteq> i}" using assms by (auto simp: heap_sim_def)
  then show ?thesis using cache_slabs_sim[OF D(8)] D(2) by (simp add: other_slabs_def other_small_def)
qed

lemma outside_sim:
  assumes h: "heap_sim h s" "heap_sim h' s'" "i < 6" and o: "outside_kept i s s'"
    and r: "rest_kept (unat (current_heap_vaddr h)) h h'"
  shows "heap_outside i h h'"
proof -
  note D = heap_simD[OF h(1)] and D' = heap_simD[OF h(2)]
  have cs: "cache_slabs (the_cache s i) (slab_pages s) = cache_slabs (caches h ! i) (hpages h)"
    "cache_slabs (the_cache s' i) (slab_pages s') = cache_slabs (caches h' ! i) (hpages h')"
    using cache_slabs_sim[OF D(8)[OF h(3)]] cache_slabs_sim[OF D'(8)[OF h(3)]] D(2) D'(2) by simp_all
  have "hpages h' p = hpages h p" if p: "p \<notin> cache_slabs (caches h ! i) (hpages h)" "p < current_heap_vaddr h" for p
  proof -
    have "slab_pages s' p = slab_pages s p" using o p D(3) cs(1) unfolding outside_kept_def by auto
    then have "cache_page (hpages h' p) = cache_page (hpages h p)" using D(2) D'(2) by simp
    then show ?thesis using r p(2) cache_page_inj unfolding rest_kept_def word_less_nat_alt by blast
  qed
  then show ?thesis using o unfolding outside_kept_def heap_outside_def cs D(1,3) D'(1,3) other_sim[OF h(1)] other_sim[OF h(2)] by blast
qed

lemma kmalloc_slab_spec:
  assumes ok: "small_ok lim h" and i: "i < 6" and r: "current_heap_vaddr h < lim"
  shows "\<exists>ptr h'. kmalloc_slab i h = Some (ptr, h') \<and> small_ok lim h' \<and> rest_kept (unat (current_heap_vaddr h)) h h' \<and>
    heap_outside i h h' \<and>
    (\<forall>j<6. j \<noteq> i \<longrightarrow> small_slots h' j = small_slots h j) \<and>
    (if ptr = 0 then small_slots h' i = small_slots h i \<and> card (free_set (pmm (hvmm h))) \<le> 4
     else \<exists>x. x \<notin> small_slots h i \<and> small_slots h' i = insert x (small_slots h i) \<and> ptr = small_addr i x)"
proof -
  from ok obtain s where s: "heap_sim h s" "slab_ok lim s" "map h_obj_size (caches h) = heap_sizes" "\<forall>i<6. in_use s i"
    by (rule small_ok_cases)
  have u: "i < 32" "cache_used s ! i" and r': "slab_vaddr_cursor s < lim" using s(4)[rule_format, OF i] r heap_simD(3)[OF s(1)] by simp_all
  obtain ptr s' where ok': "outside_kept i s s'" and a: "kmem_cache_alloc (Some i) s = Some (ptr, s')" "cache_step i lim s s'"
    "if ptr = 0 then live_slots s' i = live_slots s i \<and> card (free_set (pmm (vmm s))) \<le> 4
     else \<exists>p k. ptr = obj_addr (the_cache s i) p k \<and> (p, k) \<notin> live_slots s i \<and>
       live_slots s' i = insert (p, k) (live_slots s i)"
    using kmem_cache_alloc_spec[OF s(2) u r'] by blast
  have "result_sim (kmalloc_slab i h) (kmem_cache_alloc (Some i) s)"
    by (rule kmalloc_slab_sim[OF s(1) i free_head_prev[OF s(2,1) i]])
  then obtain h' where h': "kmalloc_slab i h = Some (ptr, h')" "heap_sim h' s'" using a(1) by (auto simp: option_rel_Some2)
  note kept = kmalloc_slab_kept[OF h'(1)]
  have "small_ok lim h'" using h'(2) a(2) s(3) kept by (auto simp: small_ok_def cache_step_def rest_kept_def)
  moreover have "small_slots h' j = small_slots h j" if "j < 6" "j \<noteq> i" for j
    using a(2) that s(4)[rule_format, OF that(1)] live_sim[OF s(1) that(1)] live_sim[OF h'(2) that(1)] by (auto simp: cache_step_def)
  moreover have "if ptr = 0 then small_slots h' i = small_slots h i \<and> card (free_set (pmm (hvmm h))) \<le> 4
     else \<exists>x. x \<notin> small_slots h i \<and> small_slots h' i = insert x (small_slots h i) \<and> ptr = small_addr i x"
    using a(3) unfolding live_sim[OF s(1) i] live_sim[OF h'(2) i] addr_sim(1)[OF s(3,1) i] heap_simD(1)[OF s(1)]
    by (cases "ptr = 0") (simp, simp only: if_False, blast)
  moreover have "heap_outside i h h'" by (rule outside_sim[OF s(1) h'(2) i ok' kept])
  ultimately show ?thesis using h'(1) kept by blast
qed

section \<open>Release of small objects\<close>

lemma kfree_small_sim:
  assumes h: "heap_sim h s" "map h_obj_size (caches h) = heap_sizes" "slab_ok lim s" and i: "i < 6"
    and p: "p \<in> cache_slabs (caches h ! i) (hpages h)" "k < unat (slab_capacity (h_obj_size (caches h ! i)))"
    and f: "kmem_cache_free (Some i) (small_addr i (p, k)) s = Some s'"
  shows "\<exists>h'. kfree (small_addr i (p, k)) h = Some h' \<and> heap_sim h' s' \<and> (\<forall>n. rest_kept n h h') \<and>
    ((p, k) \<notin> small_slots h i \<longrightarrow> h' = h)"
proof -
  note D = heap_simD[OF h(1)] and c = heap_simD(8)[OF h(1) i] and ad = addr_sim[OF h(2,1) i]
  have u: "i < 32" "cache_used s ! i" using D(7)[OF i] i by simp_all
  have p': "p \<in> cache_slabs (the_cache s i) (slab_pages s)" "k < per_slab (the_cache s i)"
    using p cache_slabs_sim[OF c] D(2) c by (simp_all add: cache_sim_def)
  note ob = slab_object[OF h(3) u p', unfolded ad(1)]
  have sz: "h_obj_size (caches h ! i) = obj_aligned (the_cache s i)" using c by (simp add: cache_sim_def)
  have b: "sp_magic (hpages h p) = SLAB_MAGIC" "sp_cache (hpages h p) = i" "\<not> (of_nat k :: u32) \<ge> 128"
    using ob(5,6,7,9) D(2) cache_page_magic by (simp_all add: word_le_nat_alt)
  have live: "(p, k) \<in> small_slots h i \<longleftrightarrow> used (hpages h) p k" using p by (simp add: small_slots_def)
  show ?thesis
  proof (cases "used (hpages h) p k")
    case False
    then have "kfree (small_addr i (p, k)) h = Some h" "s' = s"
      using ob b f D(1,2) sz by (simp_all add: kfree_def kfree_slab_def kmem_cache_free_def Let_def HEAP_SLAB_HDR_def SLAB_HDR_def)
    then show ?thesis using h(1) by (simp add: rest_kept_def)
  next
    case True
    obtain d st where d: "slab_unclaim p k (caches h ! i, hpages h) = (d, st)" by fastforce
    obtain d' st' where d': "slab_unclaim p k (the_cache s i, slab_pages s) = (d', st')" by fastforce
    have "pair_sim (d, st) (d', st')"
      unfolding d[symmetric] d'[symmetric] by (rule unclaim_sim) (simp add: pair_sim_def D(2) c)
    then have ps: "cache_sim d d'" "st' = cache_pages st" by (simp_all add: pair_sim_def)
    let ?d' = "d'\<lparr>total_frees := total_frees d' + 1, active_objects := active_objects d' - 1\<rparr>"
    have "cache_sim d ?d'" using ps(1) by (simp add: cache_sim_def)
    note put = put_sim[OF h(1) i this, of st]
    have "kfree (small_addr i (p, k)) h = Some (put_hcache i d (h\<lparr>hpages := st\<rparr>))"
      using True ob b D(1) d sz
      by (simp add: kfree_def kfree_slab_def Let_def heap_unclaim_eq HEAP_SLAB_HDR_def SLAB_HDR_def)
    moreover have "s' = put_cache i ?d' (s\<lparr>slab_pages := st'\<rparr>)"
      using True ob f d' D(2) c by (simp add: kmem_cache_free_def Let_def cache_sim_def)
    moreover have "rest_kept n h (put_hcache i d (h\<lparr>hpages := st\<rparr>))" for n
      using unclaim_size[of p k "(caches h ! i, hpages h)"] unclaim_tags[of "(caches h ! i, hpages h)" p k] d
      by (intro put_kept) simp_all
    ultimately show ?thesis using put ps(2) True live by auto
  qed
qed

lemma kfree_small_spec:
  assumes ok: "small_ok lim h" and i: "i < 6" and p: "p \<in> cache_slabs (caches h ! i) (hpages h)"
    "k < unat (slab_capacity (h_obj_size (caches h ! i)))"
  shows "\<exists>h'. kfree (small_addr i (p, k)) h = Some h' \<and>
    (if (p, k) \<in> small_slots h i
     then small_ok lim h' \<and> hvmm h' = hvmm h \<and> (\<forall>n. rest_kept n h h') \<and> (\<forall>j<6. j \<noteq> i \<longrightarrow> small_slots h' j = small_slots h j) \<and>
       small_slots h' i = small_slots h i - {(p, k)} \<and> heap_outside i h h' \<and>
       cache_slabs (caches h' ! i) (hpages h') = cache_slabs (caches h ! i) (hpages h)
     else h' = h)"
proof -
  from ok obtain s where s: "heap_sim h s" "slab_ok lim s" "map h_obj_size (caches h) = heap_sizes" "\<forall>i<6. in_use s i"
    by (rule small_ok_cases)
  note c = heap_simD(8)[OF s(1) i]
  have u: "i < 32" "cache_used s ! i" using s(4)[rule_format, OF i] by simp_all
  have p': "p \<in> cache_slabs (the_cache s i) (slab_pages s)" "k < per_slab (the_cache s i)"
    using p cache_slabs_sim[OF c] heap_simD(2)[OF s(1)] c by (simp_all add: cache_sim_def)
  obtain s' where f: "kmem_cache_free (Some i) (small_addr i (p, k)) s = Some s'"
    "if (p, k) \<in> live_slots s i then cache_step i lim s s' \<and> live_slots s' i = live_slots s i - {(p, k)} \<and>
       cache_slabs (the_cache s' i) (slab_pages s') = cache_slabs (the_cache s i) (slab_pages s) \<and> outside_kept i s s' else s' = s"
    using kmem_cache_free_spec[OF s(2) u p'] unfolding addr_sim(1)[OF s(3,1) i] by blast
  obtain h' where h': "kfree (small_addr i (p, k)) h = Some h'" "heap_sim h' s'" "\<forall>n. rest_kept n h h'"
    "(p, k) \<notin> small_slots h i \<longrightarrow> h' = h"
    using kfree_small_sim[OF s(1,3,2) i p f(1)] by blast
  show ?thesis
  proof (cases "(p, k) \<in> small_slots h i")
    case True
    then have t: "cache_step i lim s s'" "live_slots s' i = live_slots s i - {(p, k)}"
      "cache_slabs (the_cache s' i) (slab_pages s') = cache_slabs (the_cache s i) (slab_pages s)" "outside_kept i s s'"
      using f(2) live_sim[OF s(1) i] by simp_all
    have "heap_outside i h h'" using outside_sim[OF s(1) h'(2) i t(4)] h'(3) by blast
    moreover have sl: "cache_slabs (caches h' ! i) (hpages h') = cache_slabs (caches h ! i) (hpages h)"
      using t(3) cache_slabs_sim[OF c] cache_slabs_sim[OF heap_simD(8)[OF h'(2) i]] heap_simD(2)[OF s(1)] heap_simD(2)[OF h'(2)]
      by simp
    moreover have ot: "small_slots h' j = small_slots h j" if "j < 6" "j \<noteq> i" for j
      using t(1) that s(4)[rule_format, OF that(1)] live_sim[OF s(1) that(1)] live_sim[OF h'(2) that(1)] by (auto simp: cache_step_def)
    moreover have "small_ok lim h'" using h'(2,3) t(1) s(3) by (auto simp: small_ok_def cache_step_def rest_kept_def)
    moreover have "hvmm h' = hvmm h"
      using f(1) heap_simD(1)[OF s(1)] heap_simD(1)[OF h'(2)]
      by (auto simp: kmem_cache_free_def put_cache_def Let_def split: if_splits option.splits prod.splits)
    ultimately show ?thesis using h' True t(2) sl ot live_sim[OF s(1) i] live_sim[OF h'(2) i] by auto
  next
    case False
    then show ?thesis using h' by auto
  qed
qed

end
