(* ===== verification/Kernel_Blocks.thy ===== *)
theory Kernel_Blocks
  imports Kernel_Pages
begin

text \<open>
  Blocks of pages that a kernel allocator takes from the page allocator and maps at consecutive
  addresses: allocation and release of the block, and the loops that map and unmap its pages.
\<close>

unbundle bit_operations_syntax

section \<open>Blocks of the page allocator\<close>

definition owned_block :: "pmm_state \<Rightarrow> nat \<Rightarrow> nat \<Rightarrow> bool" where
  "owned_block q k p \<longleftrightarrow> k < MAX_ORDER \<and> 2 ^ k dvd p \<and> (\<forall>x\<in>pages k p. owned_page q x)"

lemma pages_self: "p \<in> pages k p"
  by (simp add: pages_def)

lemma pages_last:
  obtains x where "x \<in> pages k p" "p + 2 ^ k = Suc x"
proof -
  obtain e where e: "(2 :: nat) ^ k = Suc e" using gr0_implies_Suc[of "2 ^ k"] by auto
  then show thesis using that[of "p + e"] by (simp add: pages_def)
qed

lemma owned_block_ok:
  assumes "owned_block q k p" shows "block_ok q k p"
proof -
  obtain x where x: "x \<in> pages k p" "p + 2 ^ k = Suc x" by (rule pages_last)
  have "in_bounds q p" "in_bounds q x" using assms x(1) pages_self by (auto simp: owned_block_def owned_page_def)
  then show ?thesis using assms x(2) by (simp add: block_ok_def owned_block_def in_bounds_def)
qed

lemma block_taken:
  assumes i: "pmm_inv q" and n: "0 < n" "n \<le> 2 ^ 63" and a: "pmm_alloc_pages q n = Some (a, q')"
  obtains (none) "a = 0" "q' = q"
  | (block) k p where "get_order n = Some k" "n \<le> 2 ^ k" "a = p * 4096" "0 < p" "p + 2 ^ k \<le> 2 ^ 40" "pmm_inv q'" "pmm_keeps q q'"
      "owned_block q' k p" "pages k p \<subseteq> free_set q" "free_set q' = free_set q - pages k p"
proof -
  obtain k where k: "get_order n = Some k" "n \<le> 2 ^ k" using get_order_spec[OF n] by metis
  show thesis
  proof (cases "k < MAX_ORDER")
    case False
    then show thesis using a k n none by (simp add: pmm_alloc_pages_def)
  next
    case True
    from pmm_alloc_pages_spec[OF i n(1) k(1) True] consider
      (b) p s' where "pmm_alloc_pages q n = Some (p * PAGE_SIZE, s')" "block_allocated q k p s'"
        "\<forall>x. lowest_page q \<le> x \<longrightarrow> page_ref s' x = (if x \<in> pages k p then 1 else page_ref q x)"
    | (z) "pmm_alloc_pages q n = Some (0, q)" by blast
    then show thesis
    proof cases
      case z
      then show thesis using a none by simp
    next
      case b
      then have q': "a = p * 4096" "s' = q'" using a by (simp_all add: PAGE_SIZE_def)
      note d = b(2)[unfolded block_allocated_def q'(2)] and r = b(3)[unfolded q'(2)]
      have fb: "0 < x \<and> x < 2 ^ 40" if "x \<in> pages k p" for x using pmm_free_bounds[OF i] d that by blast
      obtain y where "y \<in> pages k p" "p + 2 ^ k = Suc y" by (rule pages_last)
      then have "p + 2 ^ k \<le> 2 ^ 40" using fb[of y] by simp
      moreover have "0 < p" using fb[OF pages_self] by simp
      moreover have "pmm_keeps q q'" using d r by (auto simp: pmm_keeps_def in_bounds_def)
      moreover have "owned_page q' x" if x: "x \<in> pages k p" for x
      proof -
        have "x \<in> free_set q" "page_managed q x" using d x by auto
        then show ?thesis using d r x by (auto simp: owned_page_def free_set_def in_bounds_def)
      qed
      then have "owned_block q' k p" using d True by (simp add: owned_block_def block_ok_def)
      ultimately show thesis using block[OF k q'(1)] d by blast
    qed
  qed
qed

lemma block_released:
  assumes i: "pmm_inv q" and n: "0 < n" "get_order n = Some k" and b: "owned_block q k p"
  obtains q' where "pmm_free_pages q (p * 4096) n = Some q'" "pmm_inv q'" "free_set q' = free_set q \<union> pages k p"
    "\<forall>x. owned_page q x \<longrightarrow> x \<notin> pages k p \<longrightarrow> owned_page q' x"
    "lowest_page q' = lowest_page q" "highest_page q' = highest_page q"
proof -
  have o: "k < MAX_ORDER" "block_ok q k p" "\<forall>x\<in>pages k p. page_used q x \<and> page_managed q x" "page_ref q p = 1"
    using b owned_block_ok[OF b] pages_self by (auto simp: owned_block_def owned_page_def free_set_def)
  obtain q' where q': "pmm_free_pages q (p * PAGE_SIZE) n = Some q'" "pmm_inv q'"
    "free_set q' = (if page_ref q p \<le> 1 then free_set q \<union> pages k p else free_set q)"
    "\<And>x. in_bounds q x \<Longrightarrow> page_ref q' x = (if x \<in> pages k p then dec_ref (page_ref q x) else page_ref q x)"
    "page_managed q' = page_managed q" "lowest_page q' = lowest_page q" "highest_page q' = highest_page q"
    by (rule pmm_free_pages_spec[OF i n o(1-3)], rule that; assumption)
  have "owned_page q' x" if "owned_page q x" "x \<notin> pages k p" for x
    using that q'(3-7) o(4) by (auto simp: owned_page_def in_bounds_def)
  then show thesis using that[OF _ q'(2)] q' o(4) by (simp add: PAGE_SIZE_def)
qed

section \<open>Consecutive pages\<close>

abbreviation page_at :: "u64 \<Rightarrow> nat \<Rightarrow> u64" where
  "page_at va i \<equiv> va + of_nat i * 4096"

lemma page_at_unat:
  assumes "unat va + i * 4096 < 2 ^ 64" shows "unat (page_at va i) = unat va + i * 4096"
proof -
  have "page_at va i = of_nat (unat va + i * 4096)" by simp
  then show ?thesis using assms by (simp only: unat_of_nat) (simp add: take_bit_nat_eq_self)
qed

text \<open>The paths of the pages of a range in the upper half are different.\<close>

definition kernel_range :: "u64 \<Rightarrow> nat \<Rightarrow> bool" where
  "kernel_range va n \<longleftrightarrow> 0xFFFF800000000000 \<le> va \<and> 4096 dvd unat va \<and> unat va + n * 4096 < 2 ^ 64"

lemma kernel_range_page:
  assumes "kernel_range va n" "i < n"
  shows "unat (page_at va i) = unat va + i * 4096" "0xFFFF800000000000 \<le> page_at va i" "4096 dvd unat (page_at va i)"
proof -
  have "unat va + i * 4096 < 2 ^ 64" using assms by (simp add: kernel_range_def)
  then show u: "unat (page_at va i) = unat va + i * 4096" by (rule page_at_unat)
  show "0xFFFF800000000000 \<le> page_at va i" "4096 dvd unat (page_at va i)"
    using assms(1) unfolding word_le_nat_alt u by (simp_all add: kernel_range_def word_le_nat_alt)
qed

lemma path_apart:
  assumes "0xFFFF800000000000 \<le> x" "0xFFFF800000000000 \<le> y" "4096 dvd unat x" "4096 dvd unat y" "x \<noteq> y"
  shows "va_path x \<noteq> va_path y"
proof
  assume "va_path x = va_path y"
  then have "unat x div 4096 = unat y div 4096" by (rule kernel_path_inj[OF assms(1,2)])
  then have "unat x = unat y" using assms(3,4) by (metis dvd_div_mult_self)
  then show False using assms(5) by (simp add: word_unat_eq_iff)
qed

lemma page_at_inj:
  assumes "kernel_range va n" "i < n" "j < n" "va_path (page_at va i) = va_path (page_at va j)" shows "i = j"
proof (rule ccontr)
  assume "i \<noteq> j"
  then have "page_at va i \<noteq> page_at va j"
    using kernel_range_page(1)[OF assms(1,2)] kernel_range_page(1)[OF assms(1,3)] by auto
  then show False
    using path_apart[OF kernel_range_page(2)[OF assms(1,2)] kernel_range_page(2)[OF assms(1,3)]
        kernel_range_page(3)[OF assms(1,2)] kernel_range_page(3)[OF assms(1,3)]] assms(4) by blast
qed

section \<open>Mapping a range\<close>

text \<open>The pages from \<open>lo\<close> up to \<open>m\<close> of the range are mapped to consecutive frames, all other pages are as before.\<close>

definition range_mapped :: "nat \<Rightarrow> vmm_state \<Rightarrow> u64 \<Rightarrow> u64 \<Rightarrow> u64 \<Rightarrow> nat \<Rightarrow> nat \<Rightarrow> vmm_state \<Rightarrow> bool" where
  "range_mapped t v va pa flags lo m v' \<longleftrightarrow> vmm_ok v' t \<and> table_step t v v' \<and>
     (\<forall>i. lo \<le> i \<and> i < m \<longrightarrow> aspace (mem v') t (va_path (page_at va i)) = Some (0, map_entry (page_at pa i) flags)) \<and>
     (\<forall>q. vpath 4 q \<and> length q = 4 \<and> (\<forall>i. lo \<le> i \<and> i < m \<longrightarrow> q \<noteq> va_path (page_at va i)) \<longrightarrow>
        aspace (mem v') t q = aspace (mem v) t q)"

lemma map_range_loop:
  assumes r: "kernel_range va n" and ok: "vmm_ok v t"
    and f: "\<forall>i. lo \<le> i \<and> i < n \<longrightarrow> aspace (mem v) t (va_path (page_at va i)) = None"
  shows "\<exists>r m v'. for_loop [lo..<n] (\<lambda>i s. do {
            (ok, s) \<leftarrow> vmm_map_page t (page_at va i) (page_at pa i) flags s;
            Some (if ok then None else Some False, s) }) v = Some (r, v') \<and> m \<le> n \<and>
     (r = None \<and> m = n \<or> r = Some False) \<and> range_mapped t v va pa flags lo m v'"
  using ok f
proof (induction "n - lo" arbitrary: lo v)
  case 0
  then have "[lo..<n] = []" by simp
  then show ?case using 0 by (intro exI[of _ None] exI[of _ n] exI[of _ v]) (auto simp: range_mapped_def table_step_refl)
next
  case (Suc d)
  then have l: "lo < n" "[lo..<n] = lo # [Suc lo..<n]" by (simp_all add: upt_conv_Cons)
  let ?p = "page_at va lo"
  have none: "aspace (mem v) t (va_path ?p) = None" using Suc.prems(2) l(1) by blast
  then have "no_huge (mem v) t (va_path ?p)" by (simp add: no_huge_def)
  then obtain ok v1 where m: "vmm_map_page t ?p (page_at pa lo) flags v = Some (ok, v1)"
    "if ok then mapped t v ?p (map_entry (page_at pa lo) flags) v1 else map_failed t v v1"
    using vmm_map_page_spec[OF Suc.prems(1)] by blast
  show ?case
  proof (cases ok)
    case False
    then have "range_mapped t v va pa flags lo lo v1" using m(2) by (auto simp: map_failed_def range_mapped_def)
    then show ?thesis using m(1) False l by (intro exI[of _ "Some False"] exI[of _ lo] exI[of _ v1]) simp
  next
    case True
    then have m1: "vmm_ok v1 t" "table_step t v v1"
      "\<And>q. vpath 4 q \<Longrightarrow> length q = 4 \<Longrightarrow> aspace (mem v1) t q =
        (if q = va_path ?p then Some (0, map_entry (page_at pa lo) flags) else aspace (mem v) t q)"
      using m(2) by (auto simp: mapped_def)
    have vp: "vpath 4 (va_path x)" "length (va_path x) = 4" for x by simp_all
    have ne: "va_path (page_at va i) \<noteq> va_path ?p" if "i < n" "i \<noteq> lo" for i
      using page_at_inj[OF r that(1) l(1)] that(2) by blast
    have f1: "\<forall>i. Suc lo \<le> i \<and> i < n \<longrightarrow> aspace (mem v1) t (va_path (page_at va i)) = None"
      using m1(3)[OF vp] ne Suc.prems(2) by simp
    obtain rr k v' where k: "for_loop [Suc lo..<n] (\<lambda>i s. do {
            (ok, s) \<leftarrow> vmm_map_page t (page_at va i) (page_at pa i) flags s;
            Some (if ok then None else Some False, s) }) v1 = Some (rr, v')" "k \<le> n"
      "rr = None \<and> k = n \<or> rr = Some False" "range_mapped t v1 va pa flags (Suc lo) k v'"
    proof -
      have "d = n - Suc lo" using Suc.hyps(2) by simp
      from Suc.hyps(1)[OF this m1(1) f1] show thesis using that by blast
    qed
    let ?k = "max (Suc lo) k"
    have "range_mapped t v va pa flags lo ?k v'"
      unfolding range_mapped_def
    proof (intro conjI allI impI)
      show "vmm_ok v' t" "table_step t v v'"
        using k(4) table_step_trans[OF m1(2)] by (simp_all add: range_mapped_def)
      fix i assume i: "lo \<le> i \<and> i < ?k"
      show "aspace (mem v') t (va_path (page_at va i)) = Some (0, map_entry (page_at pa i) flags)"
      proof (cases "i = lo")
        case True
        have "va_path ?p \<noteq> va_path (page_at va j)" if "Suc lo \<le> j \<and> j < k" for j
          using ne[of j] that k(2) by simp
        then have "aspace (mem v') t (va_path ?p) = aspace (mem v1) t (va_path ?p)"
          using k(4) vp unfolding range_mapped_def by blast
        then show ?thesis using True m1(3)[OF vp] by simp
      next
        case False
        then have "Suc lo \<le> i \<and> i < k" using i by auto
        then show ?thesis using k(4) unfolding range_mapped_def by blast
      qed
    next
      fix q assume q: "vpath 4 q \<and> length q = 4 \<and> (\<forall>i. lo \<le> i \<and> i < ?k \<longrightarrow> q \<noteq> va_path (page_at va i))"
      then have "aspace (mem v') t q = aspace (mem v1) t q" using k(4) unfolding range_mapped_def by auto
      moreover have "q \<noteq> va_path ?p" using q by simp
      ultimately show "aspace (mem v') t q = aspace (mem v) t q" using m1(3) q by simp
    qed
    then show ?thesis using m(1) True l k
      by (intro exI[of _ rr] exI[of _ ?k] exI[of _ v']) auto
  qed
qed

lemma vmm_map_range_spec:
  assumes "kernel_range va n" "vmm_ok v t" "\<forall>i<n. aspace (mem v) t (va_path (page_at va i)) = None"
  shows "\<exists>r m v'. vmm_map_range t va pa n flags v = Some (r, v') \<and> m \<le> n \<and> (r \<longrightarrow> m = n) \<and>
    range_mapped t v va pa flags 0 m v'"
proof -
  obtain r m v' where "for_loop [0..<n] (\<lambda>i s. do {
            (ok, s) \<leftarrow> vmm_map_page t (page_at va i) (page_at pa i) flags s;
            Some (if ok then None else Some False, s) }) v = Some (r, v')" "m \<le> n"
     "r = None \<and> m = n \<or> r = Some False" "range_mapped t v va pa flags 0 m v'"
    using map_range_loop[OF assms(1,2), of 0 pa flags] assms(3) by auto
  then show ?thesis by (auto simp: vmm_map_range_def)
qed

section \<open>Unmapping a range\<close>

lemma kernel_index:
  assumes "0xFFFF800000000000 \<le> (va :: u64)" shows "256 \<le> pml4_index va"
proof -
  have "0xFFFF800000000000 \<le> unat va" "unat va < 2 ^ 64" using assms unat_u64_less by (simp_all add: word_le_nat_alt)
  then have "0x1FFFF00 \<le> unat va div 2 ^ 39" "unat va div 2 ^ 39 < 0x2000000" by simp_all
  moreover have "256 \<le> y mod 512" if "0x1FFFF00 \<le> y" "y < 0x2000000" for y :: nat
  proof -
    have "y = (y - 0x1FFFE00) + 512 * 0xFFFF" using that by simp
    then have "y mod 512 = (y - 0x1FFFE00) mod 512" by (metis mod_mult_self2)
    then show ?thesis using that by simp
  qed
  ultimately have "256 \<le> unat va div 2 ^ 39 mod 512" by blast
  then show ?thesis unfolding index_nat div_mult2_eq[symmetric] by simp
qed

lemma unmap_kernel:
  assumes "KERNEL_HEAP_BASE \<le> va"
  shows "pmm (vmm_unmap_page t va v) = pmm v" "cr3 (vmm_unmap_page t va v) = cr3 v"
proof -
  have "0xFFFF800000000000 \<le> va" using assms by (rule order.trans[rotated]) (simp add: KERNEL_HEAP_BASE_def)
  then have "\<not> (pml4_index va < 256 \<or> pml4_index va \<ge> 256 \<and> va < KERNEL_HEAP_BASE)"
    using kernel_index[of va] assms by (simp add: not_less)
  then show "pmm (vmm_unmap_page t va v) = pmm v" "cr3 (vmm_unmap_page t va v) = cr3 v"
    by (simp_all add: vmm_unmap_page_def Let_def)
qed

definition range_unmapped :: "nat \<Rightarrow> vmm_state \<Rightarrow> u64 \<Rightarrow> nat \<Rightarrow> vmm_state \<Rightarrow> bool" where
  "range_unmapped t v va n v' \<longleftrightarrow> vmm_ok v' t \<and> page_tables (mem v') t \<subseteq> page_tables (mem v) t \<and> pmm v' = pmm v \<and> cr3 v' = cr3 v \<and>
     (\<forall>i<n. aspace (mem v') t (va_path (page_at va i)) = None) \<and>
     (\<forall>q. vpath 4 q \<and> length q = 4 \<and> (\<forall>i<n. q \<noteq> va_path (page_at va i)) \<longrightarrow> aspace (mem v') t q = aspace (mem v) t q)"

lemma unmap_range:
  assumes r: "kernel_range va n" "KERNEL_HEAP_BASE \<le> va" and ok: "vmm_ok v t"
    and nh: "\<forall>i<n. no_huge (mem v) t (va_path (page_at va i))" and m: "m \<le> n"
  shows "range_unmapped t v va m (fold (\<lambda>i. vmm_unmap_page t (page_at va i)) [0..<m] v)"
  using m
proof (induction m)
  case 0
  then show ?case using ok by (simp add: range_unmapped_def)
next
  case (Suc m)
  let ?v = "fold (\<lambda>i. vmm_unmap_page t (page_at va i)) [0..<m] v" and ?p = "page_at va m"
  have m: "m < n" and I: "range_unmapped t v va m ?v" using Suc by simp_all
  have vp: "vpath 4 (va_path x)" "length (va_path x) = 4" for x by simp_all
  have base: "KERNEL_HEAP_BASE \<le> ?p"
    using r kernel_range_page(1)[OF r(1) m] by (simp add: word_le_nat_alt)
  have ne: "va_path ?p \<noteq> va_path (page_at va i)" if "i < m" for i
    using page_at_inj[OF r(1) m, of i] that m by auto
  then have "no_huge (mem ?v) t (va_path ?p)" using I nh m vp unfolding range_unmapped_def no_huge_def by metis
  moreover have "unmapped t ?v ?p (vmm_unmap_page t ?p ?v)"
    by (rule vmm_unmap_page_spec) (use I in \<open>simp add: range_unmapped_def\<close>)
  ultimately have u: "vmm_ok (vmm_unmap_page t ?p ?v) t" "page_tables (mem (vmm_unmap_page t ?p ?v)) t \<subseteq> page_tables (mem ?v) t"
    "aspace (mem (vmm_unmap_page t ?p ?v)) t (va_path ?p) = None"
    "\<And>q. vpath 4 q \<and> length q = 4 \<and> q \<noteq> va_path ?p \<Longrightarrow> aspace (mem (vmm_unmap_page t ?p ?v)) t q = aspace (mem ?v) t q"
    using vp by (auto simp: unmapped_def)
  have "fold (\<lambda>i. vmm_unmap_page t (page_at va i)) [0..<Suc m] v = vmm_unmap_page t ?p ?v" by simp
  moreover have "aspace (mem (vmm_unmap_page t ?p ?v)) t (va_path (page_at va i)) = None" if "i < Suc m" for i
  proof (cases "i = m")
    case False
    then have i: "i < m" using that by simp
    then show ?thesis using u(4)[of "va_path (page_at va i)"] ne[OF i] I vp unfolding range_unmapped_def by simp
  qed (use u(3) in simp)
  moreover have "aspace (mem (vmm_unmap_page t ?p ?v)) t q = aspace (mem v) t q"
    if "vpath 4 q \<and> length q = 4 \<and> (\<forall>i<Suc m. q \<noteq> va_path (page_at va i))" for q
    using u(4)[of q] that I unfolding range_unmapped_def by simp
  ultimately show ?case
    using u(1,2) I unmap_kernel[OF base, of t ?v] unfolding range_unmapped_def by auto
qed

end
