(* ===== verification/Heap_Big.thy ===== *)
theory Heap_Big
  imports Heap_Correct Kernel_Blocks
begin

text \<open>
  The large blocks of the heap, and the invariant of the whole heap: the slabs of the six caches
  and the large blocks are at different addresses and on different frames.
\<close>

unbundle bit_operations_syntax

section \<open>The invariant\<close>

definition big_n :: "heap_state \<Rightarrow> u64 \<Rightarrow> nat" where
  "big_n h b = unat (big_pages (hpages h b))"

definition big_order :: "heap_state \<Rightarrow> u64 \<Rightarrow> nat" where
  "big_order h b = the (get_order (big_n h b))"

abbreviation heap_frame :: "heap_state \<Rightarrow> u64 \<Rightarrow> nat" where
  "heap_frame h p \<equiv> frame (hvmm h) (heap_pml4 h) p"

abbreviation heap_space :: "heap_state \<Rightarrow> u64 \<Rightarrow> (nat \<times> u64) option" where
  "heap_space h p \<equiv> aspace (mem (hvmm h)) (heap_pml4 h) (va_path p)"

definition big_frames :: "heap_state \<Rightarrow> u64 \<Rightarrow> nat set" where
  "big_frames h b = pages (big_order h b) (heap_frame h b div 4096)"

definition big_range :: "heap_state \<Rightarrow> u64 \<Rightarrow> nat set" where
  "big_range h b = {unat b ..< unat b + big_n h b * 4096}"

definition heap_slabs :: "heap_state \<Rightarrow> u64 set" where
  "heap_slabs h = (\<Union>i<6. cache_slabs (caches h ! i) (hpages h))"

definition big_block :: "heap_state \<Rightarrow> u64 \<Rightarrow> bool" where
  "big_block h b \<longleftrightarrow> sp_magic (hpages h b) = BIG_MAGIC \<and> 0 < big_n h b \<and> KERNEL_HEAP_BASE \<le> b \<and> 4096 dvd unat b \<and>
     unat b + big_n h b * 4096 \<le> unat (current_heap_vaddr h) \<and> get_order (big_n h b) = Some (big_order h b) \<and>
     owned_block (pmm (hvmm h)) (big_order h b) (heap_frame h b div 4096) \<and>
     (\<forall>x\<in>big_frames h b. x * 4096 \<notin> page_tables (mem (hvmm h)) (heap_pml4 h)) \<and>
     (\<forall>i<big_n h b. \<exists>e. heap_space h (page_at b i) = Some (0, e) \<and> entry_phys e = heap_frame h b + i * 4096)"

definition bigs_ok :: "heap_state \<Rightarrow> u64 list \<Rightarrow> bool" where
  "bigs_ok h bs \<longleftrightarrow> chain (hpages h) bs (big_alloc_head h) \<and> distinct bs \<and> (\<forall>b\<in>set bs. big_block h b) \<and>
     (\<forall>b\<in>set bs. \<forall>c\<in>set bs. b \<noteq> c \<longrightarrow> big_range h b \<inter> big_range h c = {} \<and> big_frames h b \<inter> big_frames h c = {}) \<and>
     (\<forall>b\<in>set bs. \<forall>p\<in>heap_slabs h. unat p \<notin> big_range h b \<and> heap_frame h p div 4096 \<notin> big_frames h b)"

definition heap_ok :: "u64 \<Rightarrow> heap_state \<Rightarrow> bool" where
  "heap_ok lim h \<longleftrightarrow> small_ok lim h \<and> (\<exists>bs. bigs_ok h bs)"

lemma big_blockD:
  assumes "big_block h b"
  shows "kernel_range b (big_n h b)" "b < current_heap_vaddr h" "KERNEL_HEAP_BASE \<le> b" "4096 dvd unat b"
    "unat b + big_n h b * 4096 \<le> unat (current_heap_vaddr h)" "0 < big_n h b"
    "i < big_n h b \<Longrightarrow> page_at b i < current_heap_vaddr h"
proof -
  have d: "0 < big_n h b" "KERNEL_HEAP_BASE \<le> b" "4096 dvd unat b" "unat b + big_n h b * 4096 \<le> unat (current_heap_vaddr h)"
    using assms by (simp_all add: big_block_def)
  show "KERNEL_HEAP_BASE \<le> b" "4096 dvd unat b" "unat b + big_n h b * 4096 \<le> unat (current_heap_vaddr h)" "0 < big_n h b"
    by (fact d)+
  show r: "kernel_range b (big_n h b)"
    using d unat_u64_less[of "current_heap_vaddr h"] by (auto simp: kernel_range_def KERNEL_HEAP_BASE_def word_le_nat_alt)
  show "b < current_heap_vaddr h" using d by (simp add: word_less_nat_alt)
  show "page_at b i < current_heap_vaddr h" if "i < big_n h b"
    using kernel_range_page(1)[OF r that] d(4) that by (simp add: word_less_nat_alt)
qed

text \<open>Whatever leaves a block, its pages and its frames alone keeps it.\<close>

lemma big_block_kept:
  assumes b: "big_block h b" and c: "cr3 (hvmm h') = cr3 (hvmm h)" "current_heap_vaddr h \<le> current_heap_vaddr h'"
    and p: "sp_magic (hpages h' b) = sp_magic (hpages h b)" "big_pages (hpages h' b) = big_pages (hpages h b)"
    and o: "\<forall>x\<in>big_frames h b. owned_page (pmm (hvmm h')) x \<and> x * 4096 \<notin> page_tables (mem (hvmm h')) (heap_pml4 h)"
    and a: "\<forall>i<big_n h b. aspace (mem (hvmm h')) (heap_pml4 h) (va_path (page_at b i)) = heap_space h (page_at b i)"
  shows "big_block h' b" "big_n h' b = big_n h b" "big_frames h' b = big_frames h b" "heap_frame h' b = heap_frame h b"
proof -
  have t: "heap_pml4 h' = heap_pml4 h" using c(1) by (simp add: vmm_get_active_pml4_def)
  show n: "big_n h' b = big_n h b" using p(2) by (simp add: big_n_def)
  then have k: "big_order h' b = big_order h b" by (simp add: big_order_def)
  have "0 < big_n h b" using b by (simp add: big_block_def)
  then have "aspace (mem (hvmm h')) (heap_pml4 h) (va_path b) = heap_space h b" using a[rule_format, of 0] by simp
  then have f': "frame (hvmm h') (heap_pml4 h) b = heap_frame h b" by (simp add: frame_def)
  then show f: "heap_frame h' b = heap_frame h b" by (simp add: t)
  show fr: "big_frames h' b = big_frames h b" by (simp add: big_frames_def k f)
  have "owned_block (pmm (hvmm h')) (big_order h b) (heap_frame h b div 4096)"
    using b o by (simp add: big_block_def owned_block_def big_frames_def)
  then show "big_block h' b"
    using b c p o a unfolding big_block_def n k fr t f' by (auto simp: word_le_nat_alt)
qed

text \<open>
  A step that may add slabs on fresh frames above the cursor: the large blocks stay as they are.
\<close>

lemma bigs_kept:
  assumes b: "bigs_ok h bs" and c: "cr3 (hvmm h') = cr3 (hvmm h)" "current_heap_vaddr h \<le> current_heap_vaddr h'"
    and hd: "big_alloc_head h' = big_alloc_head h" and p: "\<forall>b\<in>set bs. hpages h' b = hpages h b"
    and o: "\<forall>b\<in>set bs. \<forall>x\<in>big_frames h b. owned_page (pmm (hvmm h')) x \<and> x * 4096 \<notin> page_tables (mem (hvmm h')) (heap_pml4 h)"
    and a: "\<forall>b\<in>set bs. \<forall>i<big_n h b. aspace (mem (hvmm h')) (heap_pml4 h) (va_path (page_at b i)) = heap_space h (page_at b i)"
    and s: "\<forall>p\<in>heap_slabs h'. p \<in> heap_slabs h \<and> heap_frame h' p = heap_frame h p \<or>
      current_heap_vaddr h \<le> p \<and> heap_frame h' p div 4096 \<in> free_set (pmm (hvmm h))"
  shows "bigs_ok h' bs"
proof -
  have k: "big_block h' b" "big_n h' b = big_n h b" "big_frames h' b = big_frames h b" if "b \<in> set bs" for b
    using big_block_kept[of h b h'] b c p o a that by (simp_all add: bigs_ok_def)
  have r: "big_range h' b = big_range h b" if "b \<in> set bs" for b using k(2)[OF that] by (simp add: big_range_def)
  have bb: "big_block h b" if "b \<in> set bs" for b using b that by (simp add: bigs_ok_def)
  have ow: "x \<notin> free_set (pmm (hvmm h))" if "b \<in> set bs" "x \<in> big_frames h b" for b x
    using bb[OF that(1)] that(2) by (auto simp: big_block_def owned_block_def big_frames_def owned_page_def)
  have "unat p \<notin> big_range h b \<and> heap_frame h' p div 4096 \<notin> big_frames h b" if "b \<in> set bs" "p \<in> heap_slabs h'" for b p
    using s[rule_format, OF that(2)]
  proof
    assume "p \<in> heap_slabs h \<and> heap_frame h' p = heap_frame h p"
    then show ?thesis using b that(1) by (simp add: bigs_ok_def)
  next
    assume n: "current_heap_vaddr h \<le> p \<and> heap_frame h' p div 4096 \<in> free_set (pmm (hvmm h))"
    then have "unat (current_heap_vaddr h) \<le> unat p" by (simp add: word_le_nat_alt)
    then have "unat p \<notin> big_range h b" using big_blockD(5)[OF bb[OF that(1)]] by (auto simp: big_range_def)
    then show ?thesis using ow[OF that(1)] n by blast
  qed
  moreover have "chain (hpages h') bs (big_alloc_head h')" using b p hd seg_frame[of bs "hpages h'" "hpages h"] by (simp add: bigs_ok_def)
  ultimately show ?thesis using b k(1,3) r by (simp add: bigs_ok_def)
qed

section \<open>Small requests\<close>

lemma heap_slabs_split: "i < 6 \<Longrightarrow> heap_slabs h = cache_slabs (caches h ! i) (hpages h) \<union> other_small i h"
  by (auto simp: heap_slabs_def other_small_def)

lemma small_slab_place:
  assumes "small_ok lim h" "p \<in> heap_slabs h"
  shows "KERNEL_HEAP_BASE \<le> p" "p < current_heap_vaddr h" "4096 dvd unat p" "sp_magic (hpages h p) = SLAB_MAGIC"
    "backed_page (hvmm h) (heap_pml4 h) p"
proof -
  from assms(1) obtain s where s: "heap_sim h s" "slab_ok lim s" "\<forall>i<6. in_use s i" by (rule small_ok_cases)
  obtain i where i: "i < 6" "p \<in> cache_slabs (caches h ! i) (hpages h)" using assms(2) by (auto simp: heap_slabs_def)
  have p: "p \<in> cache_slabs (the_cache s i) (slab_pages s)"
    using i cache_slabs_sim[OF heap_simD(8)[OF s(1) i(1)]] heap_simD(2)[OF s(1)] by simp
  have u: "i < 32" "cache_used s ! i" using s(3) i(1) by auto
  have ok: "slab_okE i {} lim s" using s(2) slab_ok_iff[OF u] by simp
  show "KERNEL_HEAP_BASE \<le> p" "p < current_heap_vaddr h" "4096 dvd unat p"
    using other_slabs_apart(2)[OF ok u, of p] p heap_simD(3)[OF s(1)] by auto
  show "sp_magic (hpages h p) = SLAB_MAGIC"
    using cache_ok_owner(2)[OF slab_okE_D(8)[OF ok u] p] heap_simD(2)[OF s(1)] cache_page_magic by simp
  show "backed_page (hvmm h) (heap_pml4 h) p"
    using slab_okE_D(9)[OF ok u] p heap_simD(1)[OF s(1)] by (auto simp: backed_def)
qed

lemma cursor_facts:
  assumes "small_ok lim h"
  shows "KERNEL_HEAP_BASE \<le> current_heap_vaddr h" "4096 dvd unat (current_heap_vaddr h)" "vmm_ok (hvmm h) (heap_pml4 h)"
    "arena (hvmm h) (heap_pml4 h) (current_heap_vaddr h) lim" "lim \<le> 0xFFFFFFFFFFFFF000"
proof -
  from assms obtain s where s: "heap_sim h s" "slab_ok lim s" by (rule small_ok_cases)
  show "KERNEL_HEAP_BASE \<le> current_heap_vaddr h" "4096 dvd unat (current_heap_vaddr h)" "vmm_ok (hvmm h) (heap_pml4 h)"
    "arena (hvmm h) (heap_pml4 h) (current_heap_vaddr h) lim" "lim \<le> 0xFFFFFFFFFFFFF000"
    using slab_okE_D(1,4-7)[OF s(2)] heap_simD(1,3)[OF s(1)] by simp_all
qed

lemma upper_half: "KERNEL_HEAP_BASE \<le> p \<Longrightarrow> 0xFFFF800000000000 \<le> p"
  unfolding KERNEL_HEAP_BASE_def word_le_nat_alt by simp

lemma below_cursor_path:
  assumes "small_ok lim h" "KERNEL_HEAP_BASE \<le> p" "4096 dvd unat p" "p < current_heap_vaddr h"
  shows "va_path p \<noteq> va_path (current_heap_vaddr h)"
  using path_apart[OF upper_half[OF assms(2)] upper_half[OF cursor_facts(1)[OF assms(1)]] assms(3) cursor_facts(2)[OF assms(1)]]
    assms(4) by simp

lemma va_path_ok: "vpath 4 (va_path p)" "length (va_path p) = 4"
  by simp_all

lemma small_step_bigs:
  assumes ok: "small_ok lim h" and i: "i < 6" and o: "heap_outside i h h'" and r: "rest_kept (unat (current_heap_vaddr h)) h h'"
    and b: "bigs_ok h bs"
  shows "bigs_ok h' bs"
proof (rule bigs_kept[OF b])
  have as: "aspace (mem (hvmm h')) (heap_pml4 h) (va_path p) = heap_space h p"
    if "KERNEL_HEAP_BASE \<le> p" "4096 dvd unat p" "p < current_heap_vaddr h" for p
    using o va_path_ok below_cursor_path[OF ok that] unfolding heap_outside_def by blast
  have bb: "big_block h b" if "b \<in> set bs" for b using b that by (simp add: bigs_ok_def)
  show c: "cr3 (hvmm h') = cr3 (hvmm h)" "current_heap_vaddr h \<le> current_heap_vaddr h'" using o by (simp_all add: heap_outside_def)
  then have t: "heap_pml4 h' = heap_pml4 h" by (simp add: vmm_get_active_pml4_def)
  show "big_alloc_head h' = big_alloc_head h" using r by (simp add: rest_kept_def)
  show "\<forall>b\<in>set bs. hpages h' b = hpages h b"
  proof
    fix b assume x: "b \<in> set bs"
    have "b \<notin> heap_slabs h" using small_slab_place(4)[OF ok] bb[OF x] by (auto simp: big_block_def SLAB_MAGIC_def BIG_MAGIC_def)
    then have "b \<notin> cache_slabs (caches h ! i) (hpages h)" using heap_slabs_split[OF i] by blast
    then show "hpages h' b = hpages h b" using o big_blockD(2)[OF bb[OF x]] by (simp add: heap_outside_def)
  qed
  show "\<forall>b\<in>set bs. \<forall>x\<in>big_frames h b. owned_page (pmm (hvmm h')) x \<and> x * 4096 \<notin> page_tables (mem (hvmm h')) (heap_pml4 h)"
  proof (intro ballI)
    fix b x assume x: "b \<in> set bs" "x \<in> big_frames h b"
    have "owned_page (pmm (hvmm h)) x" "x * 4096 \<notin> page_tables (mem (hvmm h)) (heap_pml4 h)"
      using bb[OF x(1)] x(2) by (auto simp: big_block_def owned_block_def big_frames_def)
    then show "owned_page (pmm (hvmm h')) x \<and> x * 4096 \<notin> page_tables (mem (hvmm h')) (heap_pml4 h)"
      using vmm_grown_owned[of "heap_pml4 h" "hvmm h" "hvmm h'" "x * 4096"] o by (simp add: heap_outside_def)
  qed
  show "\<forall>b\<in>set bs. \<forall>j<big_n h b. aspace (mem (hvmm h')) (heap_pml4 h) (va_path (page_at b j)) = heap_space h (page_at b j)"
  proof (intro ballI allI impI)
    fix b j assume x: "b \<in> set bs" "j < big_n h b"
    note B = big_blockD[OF bb[OF x(1)]] and pg = kernel_range_page[OF big_blockD(1)[OF bb[OF x(1)]] x(2)]
    have "KERNEL_HEAP_BASE \<le> page_at b j" using B(3) pg(1) by (simp add: word_le_nat_alt)
    then show "aspace (mem (hvmm h')) (heap_pml4 h) (va_path (page_at b j)) = heap_space h (page_at b j)"
      using as[OF _ pg(3)] B(7)[OF x(2)] by simp
  qed
  show "\<forall>p\<in>heap_slabs h'. p \<in> heap_slabs h \<and> heap_frame h' p = heap_frame h p \<or>
      current_heap_vaddr h \<le> p \<and> heap_frame h' p div 4096 \<in> free_set (pmm (hvmm h))"
  proof
    fix p assume p: "p \<in> heap_slabs h'"
    show "p \<in> heap_slabs h \<and> heap_frame h' p = heap_frame h p \<or>
      current_heap_vaddr h \<le> p \<and> heap_frame h' p div 4096 \<in> free_set (pmm (hvmm h))"
    proof (cases "p \<in> heap_slabs h")
      case True
      then show ?thesis using as[OF small_slab_place(1,3,2)[OF ok True]] by (simp add: frame_def t)
    next
      case False
      then have "p \<in> cache_slabs (caches h' ! i) (hpages h') - cache_slabs (caches h ! i) (hpages h)"
        using p o heap_slabs_split[OF i, of h] heap_slabs_split[OF i, of h'] by (auto simp: heap_outside_def)
      then show ?thesis using o unfolding heap_outside_def t by blast
    qed
  qed
qed

section \<open>Changes outside the slabs\<close>

lemma cache_ok_frame:
  assumes ok: "cache_ok {} s j" and c: "the_cache s' j = the_cache s j" "slab_vaddr_cursor s \<le> slab_vaddr_cursor s'"
    and f: "\<And>p. p \<in> cache_slabs (the_cache s j) (slab_pages s) \<Longrightarrow> slab_pages s' p = slab_pages s p"
  shows "cache_ok {} s' j" "cache_slabs (the_cache s' j) (slab_pages s') = cache_slabs (the_cache s j) (slab_pages s)"
    "live_slots s' j = live_slots s j"
proof -
  obtain xs ys zs where o: "slabs_ok {} SLAB_PAGE_MAGIC j (per_slab (the_cache s j)) (the_cache s j) (slab_pages s) xs ys zs"
    "cache_slabs (the_cache s j) (slab_pages s) = set (xs @ ys @ zs)" using ok by (rule cache_okD)
  have o': "slabs_ok {} SLAB_PAGE_MAGIC j (per_slab (the_cache s j)) (the_cache s j) (slab_pages s') xs ys zs"
    by (rule slabs_ok_frame[OF o(1)]) (use f o(2) in auto)
  show cs: "cache_slabs (the_cache s' j) (slab_pages s') = cache_slabs (the_cache s j) (slab_pages s)"
    unfolding c(1) slabs_ok_slabs[OF o'] o(2) ..
  show lv: "live_slots s' j = live_slots s j"
    unfolding live_slots_def cs unfolding c(1) using f by auto
  have "\<forall>p\<in>cache_slabs (the_cache s j) (slab_pages s). KERNEL_HEAP_BASE \<le> p \<and> p < slab_vaddr_cursor s' \<and> 4096 dvd unat p"
    using ok c(2) by (auto simp: cache_ok_def Let_def)
  then show "cache_ok {} s' j" using ok o' unfolding cache_ok_def Let_def cs lv unfolding c(1) by blast
qed

lemma slab_ok_frame:
  assumes ok: "slab_ok lim s" and c: "cache_pool s' = cache_pool s" "cache_used s' = cache_used s" "cr3 (vmm s') = cr3 (vmm s)"
      "slab_vaddr_cursor s \<le> slab_vaddr_cursor s'" "4096 dvd unat (slab_vaddr_cursor s')"
    and f: "\<And>p. p \<in> other_slabs s 32 \<Longrightarrow> slab_pages s' p = slab_pages s p"
    and v: "vmm_ok (vmm s') (slab_pml4 s)" "arena (vmm s') (slab_pml4 s) (slab_vaddr_cursor s') lim"
      "backed (vmm s') (slab_pml4 s) (other_slabs s 32)"
  shows "slab_ok lim s'"
proof -
  have t: "slab_pml4 s' = slab_pml4 s" using c(3) by (simp add: vmm_get_active_pml4_def)
  have k: "cache_ok {} s' j" "cache_slabs (the_cache s' j) (slab_pages s') = cache_slabs (the_cache s j) (slab_pages s)"
    if "j < 32" "cache_used s ! j" for j
  proof -
    have "cache_ok {} s j" using ok that by (auto simp: slab_okE_def)
    moreover have "slab_pages s' p = slab_pages s p" if "p \<in> cache_slabs (the_cache s j) (slab_pages s)" for p
      using f[of p] that \<open>j < 32\<close> \<open>cache_used s ! j\<close> by (auto simp: other_slabs_def)
    ultimately show "cache_ok {} s' j" "cache_slabs (the_cache s' j) (slab_pages s') = cache_slabs (the_cache s j) (slab_pages s)"
      using cache_ok_frame[of s j s'] c by simp_all
  qed
  then have "other_slabs s' 32 = other_slabs s 32" using c(2) by (simp add: other_slabs_def)
  then show ?thesis using ok c k(1) v unfolding slab_okE_def t by (simp add: order.trans[of _ "slab_vaddr_cursor s"])
qed

text \<open>The heap with the same caches and slabs, while the rest of the memory changes.\<close>

lemma small_ok_frame:
  assumes ok: "small_ok lim h" and c: "caches h' = caches h" "cr3 (hvmm h') = cr3 (hvmm h)"
      "current_heap_vaddr h \<le> current_heap_vaddr h'" "4096 dvd unat (current_heap_vaddr h')"
    and f: "\<And>p. p \<in> heap_slabs h \<Longrightarrow> hpages h' p = hpages h p"
    and v: "vmm_ok (hvmm h') (heap_pml4 h)" "arena (hvmm h') (heap_pml4 h) (current_heap_vaddr h') lim"
      "\<And>p. p \<in> heap_slabs h \<Longrightarrow> aspace (mem (hvmm h')) (heap_pml4 h) (va_path p) = heap_space h p"
      "\<And>p. p \<in> heap_slabs h \<Longrightarrow> heap_frame h p \<notin> page_tables (mem (hvmm h')) (heap_pml4 h)"
      "\<And>p. p \<in> heap_slabs h \<Longrightarrow> owned_page (pmm (hvmm h')) (heap_frame h p div 4096)"
  shows "small_ok lim h'" "heap_slabs h' = heap_slabs h" "i < 6 \<Longrightarrow> small_slots h' i = small_slots h i"
    "p \<in> heap_slabs h \<Longrightarrow> heap_frame h' p = heap_frame h p"
proof -
  from ok obtain s where s: "heap_sim h s" "slab_ok lim s" "map h_obj_size (caches h) = heap_sizes" "\<forall>i<6. in_use s i" by (rule small_ok_cases)
  note D = heap_simD[OF s(1)]
  have t: "heap_pml4 h' = heap_pml4 h" using c(2) by (simp add: vmm_get_active_pml4_def)
  have sl: "other_slabs s 32 = heap_slabs h"
    using other_sim[OF s(1), of 32] by (auto simp: other_small_def heap_slabs_def)
  let ?s' = "s\<lparr>vmm := hvmm h', slab_pages := cache_pages (hpages h'), slab_vaddr_cursor := current_heap_vaddr h'\<rparr>"
  have sim: "heap_sim h' ?s'" using s(1) c(1) by (simp add: heap_sim_def)
  have "backed (vmm s) (slab_pml4 s) (heap_slabs h)" using s(2) sl by (simp add: slab_okE_def)
  then have "backed (hvmm h) (heap_pml4 h) (heap_slabs h)" using D(1) by simp
  then have "backed (hvmm h') (heap_pml4 h) (heap_slabs h)" by (rule backed_step) (fact v)+
  then have "slab_ok lim ?s'"
    using slab_ok_frame[OF s(2), of ?s'] c f v(1,2) sl D(1-3) by simp
  then show "small_ok lim h'" using sim s(3) c(1) by (auto simp: small_ok_def)
  have k: "cache_slabs (caches h' ! i) (hpages h') = cache_slabs (caches h ! i) (hpages h) \<and> small_slots h' i = small_slots h i"
    if i: "i < 6" for i
  proof -
    have "in_use s i" using s(4) i by blast
    then have "cache_ok {} s i" using s(2) by (auto simp: slab_okE_def)
    moreover have "slab_pages ?s' p = slab_pages s p" if "p \<in> cache_slabs (the_cache s i) (slab_pages s)" for p
    proof -
      have "p \<in> heap_slabs h" using that \<open>in_use s i\<close> sl by (auto simp: other_slabs_def)
      then show ?thesis using f D(2) by simp
    qed
    ultimately have "cache_slabs (the_cache ?s' i) (slab_pages ?s') = cache_slabs (the_cache s i) (slab_pages s)"
      "live_slots ?s' i = live_slots s i" using cache_ok_frame(2,3)[of s i ?s'] c(3) D(3) by simp_all
    then show ?thesis
      using cache_slabs_sim[OF heap_simD(8)[OF s(1) i]] cache_slabs_sim[OF heap_simD(8)[OF sim i]] heap_simD(2)[OF sim] D(2)
        live_sim[OF s(1) i] live_sim[OF sim i] by simp
  qed
  then show "heap_slabs h' = heap_slabs h" "i < 6 \<Longrightarrow> small_slots h' i = small_slots h i" by (simp_all add: heap_slabs_def)
  show "p \<in> heap_slabs h \<Longrightarrow> heap_frame h' p = heap_frame h p" using v(3) by (simp add: frame_def t)
qed

lemma big_frame_owned:
  assumes "big_block h b" "x \<in> big_frames h b"
  shows "owned_page (pmm (hvmm h)) x" "x * 4096 \<notin> page_tables (mem (hvmm h)) (heap_pml4 h)"
  using assms by (auto simp: big_block_def owned_block_def big_frames_def)

lemma big_page_place:
  assumes "big_block h b" "j < big_n h b"
  shows "KERNEL_HEAP_BASE \<le> page_at b j" "4096 dvd unat (page_at b j)" "page_at b j < current_heap_vaddr h"
proof -
  note B = big_blockD[OF assms(1)] and pg = kernel_range_page[OF big_blockD(1)[OF assms(1)] assms(2)]
  show "KERNEL_HEAP_BASE \<le> page_at b j" using B(3) pg(1) by (simp add: word_le_nat_alt)
  show "4096 dvd unat (page_at b j)" "page_at b j < current_heap_vaddr h" by (fact pg(3), rule B(7)[OF assms(2)])
qed

text \<open>More memory is mapped from the cursor on; everything below it is as before.\<close>

definition below_kept :: "heap_state \<Rightarrow> vmm_state \<Rightarrow> bool" where
  "below_kept h v \<longleftrightarrow> (\<forall>p. KERNEL_HEAP_BASE \<le> p \<and> 4096 dvd unat p \<and> p < current_heap_vaddr h \<longrightarrow>
     aspace (mem v) (heap_pml4 h) (va_path p) = heap_space h p)"

lemma heap_grow:
  assumes ok: "small_ok lim h" "bigs_ok h bs" and v: "cr3 v = cr3 (hvmm h)" "vmm_ok v (heap_pml4 h)"
      "vmm_grown (heap_pml4 h) (hvmm h) v" "below_kept h v" "arena v (heap_pml4 h) c lim"
    and c: "current_heap_vaddr h \<le> c" "4096 dvd unat c"
  shows "small_ok lim (h\<lparr>hvmm := v, current_heap_vaddr := c\<rparr>)" "bigs_ok (h\<lparr>hvmm := v, current_heap_vaddr := c\<rparr>) bs"
    "heap_slabs (h\<lparr>hvmm := v, current_heap_vaddr := c\<rparr>) = heap_slabs h"
    "i < 6 \<Longrightarrow> small_slots (h\<lparr>hvmm := v, current_heap_vaddr := c\<rparr>) i = small_slots h i"
    "b \<in> set bs \<Longrightarrow> big_n (h\<lparr>hvmm := v, current_heap_vaddr := c\<rparr>) b = big_n h b \<and>
       big_frames (h\<lparr>hvmm := v, current_heap_vaddr := c\<rparr>) b = big_frames h b"
    "q \<in> heap_slabs h \<Longrightarrow> heap_frame (h\<lparr>hvmm := v, current_heap_vaddr := c\<rparr>) q = heap_frame h q"
proof -
  let ?h = "h\<lparr>hvmm := v, current_heap_vaddr := c\<rparr>"
  have sp: "aspace (mem v) (heap_pml4 h) (va_path p) = heap_space h p" "heap_frame h p \<notin> page_tables (mem v) (heap_pml4 h)"
    "owned_page (pmm v) (heap_frame h p div 4096)" if "p \<in> heap_slabs h" for p
  proof -
    note pl = small_slab_place[OF ok(1) that]
    show "aspace (mem v) (heap_pml4 h) (va_path p) = heap_space h p" using v(4) pl(1-3) by (simp add: below_kept_def)
    show "heap_frame h p \<notin> page_tables (mem v) (heap_pml4 h)" "owned_page (pmm v) (heap_frame h p div 4096)"
      using vmm_grown_owned[OF v(3), of "heap_frame h p"] pl(5) by (simp_all add: backed_page_def)
  qed
  have fr: "small_ok lim ?h" "heap_slabs ?h = heap_slabs h" "\<And>i. i < 6 \<Longrightarrow> small_slots ?h i = small_slots h i"
    "\<And>p. p \<in> heap_slabs h \<Longrightarrow> heap_frame ?h p = heap_frame h p"
    using small_ok_frame[OF ok(1), of ?h] v c sp by simp_all
  show "small_ok lim ?h" "heap_slabs ?h = heap_slabs h" by (rule fr(1), rule fr(2))
  show "i < 6 \<Longrightarrow> small_slots ?h i = small_slots h i" by (rule fr(3))
  show "q \<in> heap_slabs h \<Longrightarrow> heap_frame ?h q = heap_frame h q" by (rule fr(4))
  have bb: "big_block h b" if "b \<in> set bs" for b using ok(2) that by (simp add: bigs_ok_def)
  have o: "\<forall>b\<in>set bs. \<forall>x\<in>big_frames h b. owned_page (pmm v) x \<and> x * 4096 \<notin> page_tables (mem v) (heap_pml4 h)"
    using vmm_grown_owned[OF v(3), of "x * 4096" for x] big_frame_owned[OF bb] by fastforce
  have a: "\<forall>b\<in>set bs. \<forall>j<big_n h b. aspace (mem v) (heap_pml4 h) (va_path (page_at b j)) = heap_space h (page_at b j)"
    using v(4) big_page_place[OF bb] by (simp add: below_kept_def)
  show "big_n ?h b = big_n h b \<and> big_frames ?h b = big_frames h b" if "b \<in> set bs"
    using big_block_kept(2,3)[OF bb[OF that], of ?h] v(1) c(1) o a that by simp
  show "bigs_ok ?h bs"
    by (rule bigs_kept[OF ok(2)]) (use v(1) c o a fr(2,4) in simp_all)
qed

section \<open>Large requests\<close>

lemma big_pages_for_ok:
  assumes "unat sz + 4159 < 2 ^ 64"
  shows "unat (big_pages_for sz) = (unat sz + 4159) div 4096" "0 < unat (big_pages_for sz)"
    "unat sz + 64 \<le> unat (big_pages_for sz) * 4096" "unat (big_pages_for sz) \<le> 2 ^ 63"
proof -
  have "sz + BIG_HDR + 4096 - 1 = of_nat (unat sz + 4159)" by (simp add: BIG_HDR_def)
  then have "unat (sz + BIG_HDR + 4096 - 1) = unat sz + 4159"
    using assms by (simp only: unat_of_nat) (simp add: take_bit_nat_eq_self)
  then show n: "unat (big_pages_for sz) = (unat sz + 4159) div 4096"
    unfolding big_pages_for_def Let_def by (simp add: unat_div)
  show "0 < unat (big_pages_for sz)" "unat sz + 64 \<le> unat (big_pages_for sz) * 4096" "unat (big_pages_for sz) \<le> 2 ^ 63"
    unfolding n using assms by simp_all
qed

lemma pmm_alloc_pages_total:
  assumes "pmm_inv q" "0 < n" "n \<le> 2 ^ 63" shows "\<exists>a q'. pmm_alloc_pages q n = Some (a, q')"
proof -
  obtain k where k: "get_order n = Some k" using get_order_spec[OF assms(2,3)] by metis
  then show ?thesis
    using pmm_alloc_pages_spec[OF assms(1,2) k] assms(2) by (cases "k < MAX_ORDER") (auto simp: pmm_alloc_pages_def)
qed

text \<open>The block is taken from the page allocator and mapped, as far as there are page tables.\<close>

definition big_prepared :: "u64 \<Rightarrow> heap_state \<Rightarrow> nat \<Rightarrow> nat \<Rightarrow> nat \<Rightarrow> nat \<Rightarrow> vmm_state \<Rightarrow> bool" where
  "big_prepared lim h n k p m v \<longleftrightarrow> vmm_ok v (heap_pml4 h) \<and> cr3 v = cr3 (hvmm h) \<and> vmm_grown (heap_pml4 h) (hvmm h) v \<and>
     below_kept h v \<and> arena v (heap_pml4 h) (current_heap_vaddr h + of_nat n * 4096) lim \<and>
     pages k p \<subseteq> free_set (pmm (hvmm h)) \<and> owned_block (pmm v) k p \<and>
     (\<forall>x\<in>pages k p. x * 4096 \<notin> page_tables (mem v) (heap_pml4 h)) \<and>
     (\<forall>i<m. aspace (mem v) (heap_pml4 h) (va_path (page_at (current_heap_vaddr h) i)) =
        Some (0, map_entry (page_at (of_nat (p * 4096)) i) (PAGE_FLAG_PRESENT OR PAGE_FLAG_RW)))"

lemma range_below:
  assumes "kernel_range va n" "i < n" "0xFFFF800000000000 \<le> p" "4096 dvd unat p" "p < va"
  shows "va_path p \<noteq> va_path (page_at va i)"
proof -
  have "p \<noteq> page_at va i" using kernel_range_page(1)[OF assms(1,2)] assms(5) by (auto simp: word_less_nat_alt)
  then show ?thesis using path_apart[OF assms(3) kernel_range_page(2)[OF assms(1,2)] assms(4) kernel_range_page(3)[OF assms(1,2)]] by blast
qed

lemma range_above:
  assumes "kernel_range va n" "i < n" "unat va + n * 4096 \<le> unat p"
  shows "va_path p \<noteq> va_path (page_at va i)"
proof
  assume e: "va_path p = va_path (page_at va i)"
  have "0xFFFF800000000000 \<le> p" using assms(1,3) by (simp add: kernel_range_def word_le_nat_alt)
  then have "unat p div 4096 = (unat va + i * 4096) div 4096"
    using kernel_path_inj[OF _ kernel_range_page(2)[OF assms(1,2)] e] kernel_range_page(1)[OF assms(1,2)] by simp
  moreover have "(unat va + n * 4096) div 4096 \<le> unat p div 4096" using assms(3) by (rule div_le_mono)
  ultimately show False using assms(2) by simp
qed

lemma big_prepare:
  assumes ok: "small_ok lim h" and n: "0 < n" "n \<le> 2 ^ 63" and room: "unat (current_heap_vaddr h) + n * 4096 \<le> unat lim"
    and al: "pmm_alloc_pages (pmm (hvmm h)) n = Some (a, q)" "a \<noteq> 0"
  obtains k p r m v where "get_order n = Some k" "n \<le> 2 ^ k" "a = p * 4096" "p + 2 ^ k \<le> 2 ^ 40" "kernel_range (current_heap_vaddr h) n"
    "vmm_map_range (heap_pml4 h) (current_heap_vaddr h) (of_nat a) n (PAGE_FLAG_PRESENT OR PAGE_FLAG_RW) (hvmm h\<lparr>pmm := q\<rparr>) = Some (r, v)"
    "m \<le> n" "r \<longrightarrow> m = n" "big_prepared lim h n k p m v"
proof -
  let ?t = "heap_pml4 h" and ?va = "current_heap_vaddr h" let ?v1 = "hvmm h\<lparr>pmm := q\<rparr>"
  note cf = cursor_facts[OF ok]
  have vok: "vmm_ok (hvmm h) ?t" by (rule cf(3))
  obtain k p where b: "get_order n = Some k" "n \<le> 2 ^ k" "a = p * 4096" "p + 2 ^ k \<le> 2 ^ 40" "pmm_inv q" "pmm_keeps (pmm (hvmm h)) q"
    "owned_block q k p" "pages k p \<subseteq> free_set (pmm (hvmm h))" "free_set q = free_set (pmm (hvmm h)) - pages k p"
    by (rule block_taken[OF vmm_okD(1)[OF vok] n al(1)]) (use al(2) in auto)
  have "unat lim < 2 ^ 64" by (rule unat_u64_less)
  moreover have "unat lim \<le> 0xFFFFFFFFFFFFF000" using cf(5) by (simp add: word_le_nat_alt)
  ultimately have kr: "kernel_range ?va n" using room upper_half[OF cf(1)] cf(2) by (simp add: kernel_range_def)
  have v1: "vmm_ok ?v1 ?t" using vok b(5,9) by (auto simp: vmm_ok_def table_pages_def)
  have none: "\<forall>i<n. aspace (mem ?v1) ?t (va_path (page_at ?va i)) = None"
  proof (intro allI impI)
    fix i assume i: "i < n"
    have "?va \<le> page_at ?va i" "page_at ?va i < lim" using kernel_range_page(1)[OF kr i] room i
      by (simp_all add: word_le_nat_alt word_less_nat_alt)
    then show "aspace (mem ?v1) ?t (va_path (page_at ?va i)) = None" using cf(4) by (simp add: arena_def)
  qed
  obtain r m v where m: "vmm_map_range ?t ?va (of_nat a) n (PAGE_FLAG_PRESENT OR PAGE_FLAG_RW) ?v1 = Some (r, v)"
    "m \<le> n" "r \<longrightarrow> m = n" "range_mapped ?t ?v1 ?va (of_nat a) (PAGE_FLAG_PRESENT OR PAGE_FLAG_RW) 0 m v"
    using vmm_map_range_spec[OF kr v1 none] by blast
  have ts: "table_step ?t ?v1 v" "vmm_ok v ?t" using m(4) by (simp_all add: range_mapped_def)
  have oth: "aspace (mem v) ?t (va_path x) = heap_space h x" if "\<forall>i<n. va_path x \<noteq> va_path (page_at ?va i)" for x
    using m(2,4) that va_path_ok unfolding range_mapped_def by auto
  have "below_kept h v"
    unfolding below_kept_def using oth range_below[OF kr _ upper_half] by blast
  moreover have "arena v ?t (?va + of_nat n * 4096) lim"
    unfolding arena_def
  proof (intro allI impI)
    fix x assume x: "?va + of_nat n * 4096 \<le> x \<and> x < lim"
    have u: "unat ?va + n * 4096 \<le> unat x"
      using x page_at_unat[of ?va n] kr by (simp add: kernel_range_def word_le_nat_alt)
    then have "?va \<le> x" by (simp add: word_le_nat_alt)
    then show "aspace (mem v) ?t (va_path x) = None" using oth range_above[OF kr _ u] x cf(4) by (simp add: arena_def)
  qed
  moreover have nt: "x * 4096 \<notin> page_tables (mem v) ?t" if "x \<in> pages k p" for x
  proof -
    have "x * 4096 \<notin> page_tables (mem (hvmm h)) ?t" using vmm_okD(3)[OF vok] b(8) that by (force simp: table_pages_def)
    then show ?thesis using frame_not_table[OF ts(1), of "x * 4096"] b(9) that by simp
  qed
  moreover have "vmm_grown ?t (hvmm h) v"
    using vmm_grown_table_step[OF ts(1)] pmm_keeps_owned[OF b(6)] b(9) by (auto simp: vmm_grown_def)
  moreover have "owned_block (pmm v) k p"
    using b(7) pmm_keeps_owned[OF table_stepD(5)[OF ts(1)]] by (simp add: owned_block_def)
  moreover have "cr3 v = cr3 (hvmm h)" using ts(1) by (simp add: table_step_def)
  ultimately have "big_prepared lim h n k p m v" using ts(2) b(3,8) m(4) by (simp add: big_prepared_def range_mapped_def)
  then show thesis using that[OF b(1-4) kr] m(1-3) by blast
qed

lemma big_refused:
  assumes ok: "small_ok lim h" "bigs_ok h bs" and n: "0 < n" "get_order n = Some k" and kr: "kernel_range (current_heap_vaddr h) n"
    and pr: "big_prepared lim h n k p m v"
  obtains v' where "pmm_free_pages (pmm v) (p * 4096) n = Some (pmm v')" "v' = v\<lparr>pmm := pmm v'\<rparr>"
    "small_ok lim (h\<lparr>hvmm := v', current_heap_vaddr := current_heap_vaddr h + of_nat n * 4096\<rparr>)"
    "bigs_ok (h\<lparr>hvmm := v', current_heap_vaddr := current_heap_vaddr h + of_nat n * 4096\<rparr>) bs"
    "\<forall>i<6. small_slots (h\<lparr>hvmm := v', current_heap_vaddr := current_heap_vaddr h + of_nat n * 4096\<rparr>) i = small_slots h i"
proof -
  let ?c = "current_heap_vaddr h + of_nat n * 4096"
  note P = pr[unfolded big_prepared_def]
  have vok: "vmm_ok v (heap_pml4 h)" and ob: "owned_block (pmm v) k p" using P by simp_all
  obtain q where q: "pmm_free_pages (pmm v) (p * 4096) n = Some q" "pmm_inv q" "free_set q = free_set (pmm v) \<union> pages k p"
    "\<forall>x. owned_page (pmm v) x \<longrightarrow> x \<notin> pages k p \<longrightarrow> owned_page q x"
    by (rule block_released[OF vmm_okD(1)[OF vok] n ob], rule that; assumption)
  let ?v' = "v\<lparr>pmm := q\<rparr>"
  have "x div 4096 \<notin> pages k p" if "x \<in> page_tables (mem v) (heap_pml4 h)" for x
  proof
    assume "x div 4096 \<in> pages k p"
    then have "x div 4096 * 4096 \<notin> page_tables (mem v) (heap_pml4 h)" using P by blast
    moreover have "4096 dvd x" by (rule table_aligned[OF vmm_okD(2)[OF vok] that])
    ultimately show False using that by simp
  qed
  then have v': "vmm_ok ?v' (heap_pml4 h)" using vok q(2,3) by (auto simp: vmm_ok_def table_pages_def)
  have "owned_page q x" if "owned_page (pmm (hvmm h)) x" for x
  proof -
    have "x \<notin> pages k p" using P that by (auto simp: owned_page_def)
    then show ?thesis using q(4) P that by (simp add: vmm_grown_def)
  qed
  then have g: "vmm_grown (heap_pml4 h) (hvmm h) ?v'" using P by (simp add: vmm_grown_def)
  have u: "unat ?c = unat (current_heap_vaddr h) + n * 4096" using page_at_unat kr by (simp add: kernel_range_def)
  then have c: "current_heap_vaddr h \<le> ?c" "4096 dvd unat ?c" using kr by (simp_all add: word_le_nat_alt kernel_range_def)
  have bk: "below_kept h ?v'" "arena ?v' (heap_pml4 h) ?c lim" "cr3 ?v' = cr3 (hvmm h)"
    using P by (simp_all add: below_kept_def arena_def)
  note hg = heap_grow[OF ok bk(3) v' g bk(1,2) c]
  show thesis using that[of ?v'] q(1) hg(1,2,4) by simp
qed

text \<open>Only the headers change: blocks depend on the kind and the size in their header.\<close>

lemma big_retag:
  assumes "sp_magic (hpages h' b) = sp_magic (hpages h b)" "big_pages (hpages h' b) = big_pages (hpages h b)" "hvmm h' = hvmm h"
    "current_heap_vaddr h' = current_heap_vaddr h"
  shows "big_block h' b = big_block h b" "big_range h' b = big_range h b" "big_frames h' b = big_frames h b" "big_n h' b = big_n h b"
proof -
  show n: "big_n h' b = big_n h b" using assms by (simp add: big_n_def)
  show "big_range h' b = big_range h b" by (simp add: big_range_def n)
  show f: "big_frames h' b = big_frames h b" using assms(3) by (simp add: big_frames_def big_order_def n)
  show "big_block h' b = big_block h b" using assms unfolding big_block_def n f by (simp add: big_order_def n)
qed

lemma big_link:
  assumes ok: "small_ok lim h" "bigs_ok h bs" and va: "va \<notin> set bs" "va \<notin> heap_slabs h" "va \<noteq> 0"
    and p: "slab_push (big_alloc_head h) va ((hpages h)(va := pg)) = (hd1, st)"
    and g: "g = h\<lparr>hpages := (hpages h)(va := pg)\<rparr>" and nb: "big_block g va"
    and d: "\<forall>b\<in>set bs. big_range g va \<inter> big_range h b = {} \<and> big_frames g va \<inter> big_frames h b = {}"
      "\<forall>p\<in>heap_slabs h. unat p \<notin> big_range g va \<and> heap_frame h p div 4096 \<notin> big_frames g va"
  shows "small_ok lim (h\<lparr>hpages := st, big_alloc_head := hd1\<rparr>)" "bigs_ok (h\<lparr>hpages := st, big_alloc_head := hd1\<rparr>) (va # bs)"
    "i < 6 \<Longrightarrow> small_slots (h\<lparr>hpages := st, big_alloc_head := hd1\<rparr>) i = small_slots h i"
    "big_n (h\<lparr>hpages := st, big_alloc_head := hd1\<rparr>) va = big_n g va"
proof -
  let ?h = "h\<lparr>hpages := st, big_alloc_head := hd1\<rparr>"
  note D = ok(2)[unfolded bigs_ok_def]
  have ch: "chain ((hpages h)(va := pg)) bs (big_alloc_head h)"
    using D seg_frame[of bs "(hpages h)(va := pg)" "hpages h"] va(1) by auto
  have dv: "distinct (va # bs)" using D va(1) by simp
  note m = slab_push_chain[OF ch dv va(3) p] and tg = push_tags[OF p, unfolded same_tags_def]
  have ns: "q \<notin> set (va # bs)" if "q \<in> heap_slabs h" for q
    using small_slab_place(4)[OF ok(1) that] D va(2) that by (auto simp: big_block_def SLAB_MAGIC_def BIG_MAGIC_def)
  have pg: "st q = hpages h q" if "q \<in> heap_slabs h" for q using m(3)[OF ns[OF that]] ns[OF that] by auto
  have tgb: "sp_magic (st b) = sp_magic (hpages h b)" "big_pages (st b) = big_pages (hpages h b)" if "b \<in> set bs" for b
    using tg va(1) that by auto
  have fr: "small_ok lim ?h" "heap_slabs ?h = heap_slabs h" "\<And>i. i < 6 \<Longrightarrow> small_slots ?h i = small_slots h i"
    using small_ok_frame[OF ok(1), of ?h] cursor_facts[OF ok(1)] pg small_slab_place(5)[OF ok(1)] by (simp_all add: backed_page_def)
  have bt: "big_block ?h b = big_block h b" "big_range ?h b = big_range h b" "big_frames ?h b = big_frames h b" if "b \<in> set bs" for b
    using big_retag[of ?h b h] tgb[OF that] by simp_all
  have vt: "big_block ?h va = big_block g va" "big_range ?h va = big_range g va" "big_frames ?h va = big_frames g va"
    "big_n ?h va = big_n g va"
    using big_retag[of ?h va g] tg by (simp_all add: g)
  show "small_ok lim ?h" "big_n ?h va = big_n g va" by (rule fr(1), rule vt(4))
  show "i < 6 \<Longrightarrow> small_slots ?h i = small_slots h i" by (rule fr(3))
  have "big_range ?h b \<inter> big_range ?h c = {} \<and> big_frames ?h b \<inter> big_frames ?h c = {}"
    if "b \<in> set (va # bs)" "c \<in> set (va # bs)" "b \<noteq> c" for b c
  proof -
    consider "b = va" "c \<in> set bs" | "c = va" "b \<in> set bs" | "b \<in> set bs" "c \<in> set bs" using \<open>b \<in> _\<close> \<open>c \<in> _\<close> \<open>b \<noteq> c\<close> by auto
    then show ?thesis
    proof cases
      case 1
      then show ?thesis using d(1) bt(2,3)[of c] vt(2,3) by simp
    next
      case 2
      then show ?thesis using d(1) bt(2,3)[of b] vt(2,3) by (simp add: Int_commute)
    next
      case 3
      then show ?thesis using D bt(2,3)[of b] bt(2,3)[of c] \<open>b \<noteq> c\<close> by simp
    qed
  qed
  moreover have "unat q \<notin> big_range ?h b \<and> heap_frame ?h q div 4096 \<notin> big_frames ?h b" if "b \<in> set (va # bs)" "q \<in> heap_slabs ?h" for b q
  proof -
    have q: "q \<in> heap_slabs h" using that(2) fr(2) by simp
    show ?thesis
    proof (cases "b = va")
      case True
      then show ?thesis using d(2) q vt(2,3) by simp
    next
      case False
      then have "b \<in> set bs" using that(1) by simp
      then show ?thesis using D q bt(2,3)[of b] by simp
    qed
  qed
  moreover have "big_block ?h b" if "b \<in> set (va # bs)" for b using that nb vt(1) D bt(1)[of b] by auto
  ultimately show "bigs_ok ?h (va # bs)" unfolding bigs_ok_def using m(1) dv by simp
qed

lemma block_frame:
  assumes "p + 2 ^ k \<le> 2 ^ 40" "i < 2 ^ k"
  shows "entry_phys (map_entry (page_at (of_nat (p * 4096)) i) (PAGE_FLAG_PRESENT OR PAGE_FLAG_RW)) = p * 4096 + i * 4096"
proof -
  have "page_at (of_nat (p * 4096)) i = of_nat (p * 4096 + i * 4096)" by simp
  moreover have "(p + i) * 4096 < 2 ^ 52" using assms by simp
  moreover have "4096 dvd p * 4096 + i * 4096" by (metis dvd_add dvd_triv_right)
  ultimately show ?thesis using map_entry_frame[OF _ _ kernel_flags, of "p * 4096 + i * 4096"] by (simp add: algebra_simps)
qed

lemma new_big_block:
  assumes ok: "small_ok lim h" and n: "unat w = n" "0 < n" "get_order n = Some k" "n \<le> 2 ^ k" "p + 2 ^ k \<le> 2 ^ 40"
    and kr: "kernel_range (current_heap_vaddr h) n" and pr: "big_prepared lim h n k p n v"
    and g: "g = h\<lparr>hvmm := v, current_heap_vaddr := current_heap_vaddr h + of_nat n * 4096,
      hpages := (hpages h)(current_heap_vaddr h := r)\<rparr>" "sp_magic r = BIG_MAGIC" "big_pages r = w"
  shows "big_block g (current_heap_vaddr h)" "big_n g (current_heap_vaddr h) = n" "big_frames g (current_heap_vaddr h) = pages k p"
proof -
  let ?va = "current_heap_vaddr h" let ?f = "PAGE_FLAG_PRESENT OR PAGE_FLAG_RW"
  note P = pr[unfolded big_prepared_def]
  have t: "heap_pml4 g = heap_pml4 h" using P g(1) by (simp add: vmm_get_active_pml4_def)
  have e: "heap_space g (page_at ?va i) = Some (0, map_entry (page_at (of_nat (p * 4096)) i) ?f)" if "i < n" for i
    unfolding t using P that by (simp add: g(1))
  have f: "heap_frame g ?va = p * 4096"
    using e[OF n(2)] block_frame[OF n(5), of 0] by (simp add: frame_def)
  show bn: "big_n g ?va = n" using n(1) g by (simp add: big_n_def)
  have k: "big_order g ?va = k" using n(3) by (simp add: big_order_def bn)
  show fr: "big_frames g ?va = pages k p" by (simp add: big_frames_def f k)
  have u: "unat (current_heap_vaddr g) = unat ?va + n * 4096"
    using page_at_unat[of ?va n] kr by (simp add: g(1) kernel_range_def)
  have ent: "\<exists>e. heap_space g (page_at ?va i) = Some (0, e) \<and> entry_phys e = p * 4096 + i * 4096" if "i < n" for i
    using e[OF that] block_frame[OF n(5), of i] that n(4) by simp
  have "owned_block (pmm (hvmm g)) k p" "\<forall>x\<in>pages k p. x * 4096 \<notin> page_tables (mem (hvmm g)) (heap_pml4 g)"
    unfolding t using P by (simp_all add: g(1))
  then show "big_block g ?va"
    unfolding big_block_def bn fr f k using cursor_facts(1,2)[OF ok] n g ent u by simp
qed

lemma big_outside:
  assumes ok: "small_ok lim h" "bigs_ok h bs"
  shows "b \<in> set bs \<Longrightarrow> big_range h b \<subseteq> {..<unat (current_heap_vaddr h)}"
    "b \<in> set bs \<Longrightarrow> big_frames h b \<inter> free_set (pmm (hvmm h)) = {}"
    "q \<in> heap_slabs h \<Longrightarrow> unat q < unat (current_heap_vaddr h) \<and> heap_frame h q div 4096 \<notin> free_set (pmm (hvmm h))"
    "current_heap_vaddr h \<notin> set bs" "current_heap_vaddr h \<notin> heap_slabs h" "current_heap_vaddr h \<noteq> 0"
proof -
  have bb: "big_block h b" if "b \<in> set bs" for b using ok(2) that by (simp add: bigs_ok_def)
  show "big_range h b \<subseteq> {..<unat (current_heap_vaddr h)}" if "b \<in> set bs"
    using big_blockD(5)[OF bb[OF that]] by (auto simp: big_range_def)
  show "big_frames h b \<inter> free_set (pmm (hvmm h)) = {}" if "b \<in> set bs"
    using big_frame_owned(1)[OF bb[OF that]] by (auto simp: owned_page_def)
  show s: "unat q < unat (current_heap_vaddr h) \<and> heap_frame h q div 4096 \<notin> free_set (pmm (hvmm h))" if "q \<in> heap_slabs h" for q
    using small_slab_place[OF ok(1) that] by (simp add: word_less_nat_alt backed_page_def owned_page_def)
  show "current_heap_vaddr h \<notin> set bs" using big_blockD(2)[OF bb] by blast
  show "current_heap_vaddr h \<notin> heap_slabs h" using s by blast
  show "current_heap_vaddr h \<noteq> 0" using cursor_facts(1)[OF ok(1)] by (auto simp: KERNEL_HEAP_BASE_def word_le_nat_alt)
qed

lemma big_granted:
  fixes w :: u64
  assumes ok: "small_ok lim h" "bigs_ok h bs" and n: "0 < unat w"
    and b: "get_order (unat w) = Some k" "unat w \<le> 2 ^ k" "p + 2 ^ k \<le> 2 ^ 40" "kernel_range (current_heap_vaddr h) (unat w)"
    and pr: "big_prepared lim h (unat w) k p (unat w) v"
    and ps: "slab_push (big_alloc_head h) (current_heap_vaddr h)
        ((hpages h)(current_heap_vaddr h := (hpages h (current_heap_vaddr h))\<lparr>sp_magic := BIG_MAGIC, big_pages := w\<rparr>)) = (x, st)"
    and h': "h' = h\<lparr>hvmm := v, current_heap_vaddr := current_heap_vaddr h + w * 4096, hpages := st, big_alloc_head := x\<rparr>"
  shows "small_ok lim h'" "bigs_ok h' (current_heap_vaddr h # bs)" "\<forall>i<6. small_slots h' i = small_slots h i"
    "big_n h' (current_heap_vaddr h) = unat w" "\<forall>b\<in>set bs. big_n h' b = big_n h b" "current_heap_vaddr h + BIG_HDR \<noteq> 0"
proof -
  let ?w = w and ?va = "current_heap_vaddr h" let ?n = "unat ?w"
  let ?h1 = "h\<lparr>hvmm := v, current_heap_vaddr := ?va + of_nat ?n * 4096\<rparr>"
  let ?r = "(hpages h ?va)\<lparr>sp_magic := BIG_MAGIC, big_pages := ?w\<rparr>"
  note P = pr[unfolded big_prepared_def]
  have u: "unat (?va + of_nat ?n * 4096) = unat ?va + ?n * 4096"
    by (rule page_at_unat) (use b(4) in \<open>simp add: kernel_range_def\<close>)
  then have cc: "?va \<le> ?va + of_nat ?n * 4096" "4096 dvd unat (?va + of_nat ?n * 4096)"
    using b(4) by (simp_all add: word_le_nat_alt kernel_range_def)
  note hg = heap_grow[OF ok, of v "?va + of_nat ?n * 4096"]
  have h1: "small_ok lim ?h1" "bigs_ok ?h1 bs" "heap_slabs ?h1 = heap_slabs h"
    "\<And>i. i < 6 \<Longrightarrow> small_slots ?h1 i = small_slots h i"
    "\<And>b. b \<in> set bs \<Longrightarrow> big_n ?h1 b = big_n h b \<and> big_frames ?h1 b = big_frames h b"
    "\<And>q. q \<in> heap_slabs h \<Longrightarrow> heap_frame ?h1 q = heap_frame h q"
    using hg P cc by blast+
  let ?g = "?h1\<lparr>hpages := (hpages ?h1)(?va := ?r)\<rparr>"
  have g: "?g = h\<lparr>hvmm := v, current_heap_vaddr := ?va + of_nat ?n * 4096, hpages := (hpages h)(?va := ?r)\<rparr>" by simp
  have nb: "big_block ?g ?va" "big_n ?g ?va = ?n" "big_frames ?g ?va = pages k p"
    using new_big_block[OF ok(1) refl n b(1-4) pr g] by simp_all
  note out = big_outside[OF ok]
  have ps': "slab_push (big_alloc_head ?h1) ?va ((hpages ?h1)(?va := ?r)) = (x, st)" using ps by simp
  have rg: "unat ?va \<le> x" if "x \<in> big_range ?g ?va" for x using that by (simp add: big_range_def)
  have d1: "\<forall>b\<in>set bs. big_range ?g ?va \<inter> big_range ?h1 b = {} \<and> big_frames ?g ?va \<inter> big_frames ?h1 b = {}"
  proof
    fix b assume b: "b \<in> set bs"
    have "big_range ?h1 b \<subseteq> {..<unat ?va}" using out(1)[OF b] h1(5)[OF b] by (simp add: big_range_def)
    then have "big_range ?g ?va \<inter> big_range ?h1 b = {}" using rg by fastforce
    moreover have "pages k p \<inter> big_frames h b = {}" using out(2)[OF b] P by blast
    ultimately show "big_range ?g ?va \<inter> big_range ?h1 b = {} \<and> big_frames ?g ?va \<inter> big_frames ?h1 b = {}"
      using h1(5)[OF b] unfolding nb(3) by blast
  qed
  have d2: "\<forall>q\<in>heap_slabs ?h1. unat q \<notin> big_range ?g ?va \<and> heap_frame ?h1 q div 4096 \<notin> big_frames ?g ?va"
  proof
    fix q assume "q \<in> heap_slabs ?h1"
    then have q: "q \<in> heap_slabs h" using h1(3) by simp
    have "heap_frame h q div 4096 \<notin> pages k p" "unat q \<notin> big_range ?g ?va" using out(3)[OF q] P rg[of "unat q"] by auto
    then show "unat q \<notin> big_range ?g ?va \<and> heap_frame ?h1 q div 4096 \<notin> big_frames ?g ?va"
      using h1(6)[OF q] unfolding nb(3) by metis
  qed
  note bl = big_link[OF h1(1,2) out(4) out(5)[folded h1(3)] out(6) ps' refl nb(1) d1 d2]
  have e: "h' = ?h1\<lparr>hpages := st, big_alloc_head := x\<rparr>" by (simp add: h')
  show "small_ok lim h'" "bigs_ok h' (?va # bs)" "big_n h' ?va = ?n" unfolding e using bl(1,2,4) nb(2) by simp_all
  show "\<forall>i<6. small_slots h' i = small_slots h i" unfolding e using bl(3) h1(4) by simp
  show "\<forall>b\<in>set bs. big_n h' b = big_n h b"
  proof
    fix b assume "b \<in> set bs"
    then have "b \<noteq> ?va" using out(4) by auto
    then show "big_n h' b = big_n h b" using push_tags[OF ps] by (simp add: e big_n_def same_tags_def)
  qed
  have "unat (?va + BIG_HDR) = unat ?va + 64"
    using b(4) n unat_add_u64[of ?va BIG_HDR] by (simp add: kernel_range_def BIG_HDR_def)
  then show "?va + BIG_HDR \<noteq> 0" by auto
qed

lemma kmalloc_big_spec:
  assumes ok: "small_ok lim h" "bigs_ok h bs" and sz: "unat sz + 4159 < 2 ^ 64"
    and room: "unat (current_heap_vaddr h) + unat (big_pages_for sz) * 4096 \<le> unat lim"
  shows "\<exists>ptr h'. kmalloc_big sz h = Some (ptr, h') \<and> small_ok lim h' \<and> (\<forall>i<6. small_slots h' i = small_slots h i) \<and> hmem h' = hmem h \<and>
    (if ptr = 0 then bigs_ok h' bs
     else bigs_ok h' (current_heap_vaddr h # bs) \<and> ptr = current_heap_vaddr h + BIG_HDR \<and>
       big_n h' (current_heap_vaddr h) = unat (big_pages_for sz)) \<and> (\<forall>b\<in>set bs. big_n h' b = big_n h b)"
proof -
  let ?w = "big_pages_for sz" let ?n = "unat ?w" and ?va = "current_heap_vaddr h" let ?f = "PAGE_FLAG_PRESENT OR PAGE_FLAG_RW"
  note n = big_pages_for_ok[OF sz] and cf = cursor_facts[OF ok(1)]
  obtain a q where al: "pmm_alloc_pages (pmm (hvmm h)) ?n = Some (a, q)"
    using pmm_alloc_pages_total[OF vmm_okD(1)[OF cf(3)] n(2,4)] by blast
  have c: "?va + ?w * 4096 = ?va + of_nat ?n * 4096" by simp
  show ?thesis
  proof (cases "a = 0")
    case True
    have "q = pmm (hvmm h)" by (rule block_taken[OF vmm_okD(1)[OF cf(3)] n(2,4) al]) (use True in simp_all)
    then have "kmalloc_big sz h = Some (0, h)" using al True by (simp add: kmalloc_big_def alloc_blocks_def Let_def)
    then show ?thesis using ok by simp
  next
    case False
    obtain k p r m v where b: "get_order ?n = Some k" "?n \<le> 2 ^ k" "a = p * 4096" "p + 2 ^ k \<le> 2 ^ 40" "kernel_range ?va ?n"
      "vmm_map_range (heap_pml4 h) ?va (of_nat a) ?n ?f (hvmm h\<lparr>pmm := q\<rparr>) = Some (r, v)"
      "m \<le> ?n" "r \<longrightarrow> m = ?n" "big_prepared lim h ?n k p m v"
      by (rule big_prepare[OF ok(1) n(2,4) room al False], rule that; assumption)
    have t: "vmm_get_active_pml4 (hvmm h\<lparr>pmm := q\<rparr>) = heap_pml4 h" by (simp add: vmm_get_active_pml4_def)
    show ?thesis
    proof (cases r)
      case False
      obtain v' where v': "pmm_free_pages (pmm v) (p * 4096) ?n = Some (pmm v')" "v' = v\<lparr>pmm := pmm v'\<rparr>"
        "small_ok lim (h\<lparr>hvmm := v', current_heap_vaddr := ?va + of_nat ?n * 4096\<rparr>)"
        "bigs_ok (h\<lparr>hvmm := v', current_heap_vaddr := ?va + of_nat ?n * 4096\<rparr>) bs"
        "\<forall>i<6. small_slots (h\<lparr>hvmm := v', current_heap_vaddr := ?va + of_nat ?n * 4096\<rparr>) i = small_slots h i"
        by (rule big_refused[OF ok n(2) b(1,5,9)], rule that; assumption)
      have "kmalloc_big sz h = Some (0, h\<lparr>hvmm := v', current_heap_vaddr := ?va + of_nat ?n * 4096\<rparr>)"
        using al \<open>a \<noteq> 0\<close> b(3,6) False v'(1,2) t
        by (simp add: kmalloc_big_def alloc_blocks_def free_blocks_def allocate_virtual_space_def Let_def)
      then show ?thesis using v'(3-5) by (simp add: big_n_def)
    next
      case True
      let ?r = "(hpages h ?va)\<lparr>sp_magic := BIG_MAGIC, big_pages := ?w\<rparr>"
      have pr: "big_prepared lim h ?n k p ?n v" using b(8,9) True by simp
      obtain x st where ps: "slab_push (big_alloc_head h) ?va ((hpages h)(?va := ?r)) = (x, st)" by fastforce
      let ?h' = "h\<lparr>hvmm := v, current_heap_vaddr := ?va + ?w * 4096, hpages := st, big_alloc_head := x\<rparr>"
      have "kmalloc_big sz h = Some (?va + BIG_HDR, ?h')"
        using al \<open>a \<noteq> 0\<close> b(3,6) True t ps
        by (simp add: kmalloc_big_def alloc_blocks_def allocate_virtual_space_def Let_def)
      then show ?thesis using big_granted[OF ok n(2) b(1,2,4,5) pr ps refl] by simp
    qed
  qed
qed

end
