(* ===== verification/Heap_Release.thy ===== *)
theory Heap_Release
  imports Heap_Big
begin

text \<open>
  The release of a large block: it leaves the list, its pages are unmapped and its frames go back
  to the page allocator, while all other blocks and slabs stay as they are.
\<close>

unbundle bit_operations_syntax

section \<open>The list\<close>

lemma list_remove_chain:
  assumes c: "chain st (xs @ b # zs) g" "distinct (xs @ b # zs)" and r: "list_remove g b st = (g', st')"
  shows "chain st' (xs @ zs) g'" "\<And>x. x \<notin> set (xs @ b # zs) \<Longrightarrow> st' x = st x"
proof -
  let ?st = "st'(b := (st' b)\<lparr>sl_next := 0, sl_prev := 0\<rparr>)"
  note u = slab_unlink_chain[OF c slab_unlink_remove[OF r]]
  show "chain st' (xs @ zs) g'" using u(1) seg_frame[of "xs @ zs" ?st st'] c(2) by auto
  show "st' x = st x" if "x \<notin> set (xs @ b # zs)" for x using u(2)[OF that] that by auto
qed

section \<open>The memory\<close>

lemma big_first_page:
  assumes ok: "small_ok lim h" and b: "big_block h b"
  shows "backed_page (hvmm h) (heap_pml4 h) b" "heap_frame h b div 4096 * 4096 = heap_frame h b"
    "unat (vmm_virt_to_phys (hvmm h) (heap_pml4 h) b) = heap_frame h b"
proof -
  obtain e where "heap_space h b = Some (0, e)" using b unfolding big_block_def by (metis mult_zero_left add_0_right of_nat_0)
  moreover show al: "heap_frame h b div 4096 * 4096 = heap_frame h b" using frame_aligned by simp
  have f: "heap_frame h b div 4096 \<in> big_frames h b" by (simp add: big_frames_def pages_self)
  ultimately show bp: "backed_page (hvmm h) (heap_pml4 h) b"
    using big_frame_owned[OF b f] al by (simp add: backed_page_def)
  show "unat (vmm_virt_to_phys (hvmm h) (heap_pml4 h) b) = heap_frame h b"
    by (rule backed_phys(3)[OF cursor_facts(3)[OF ok] bp big_blockD(4)[OF b]])
qed

text \<open>A page outside the block.\<close>

lemma big_other_path:
  assumes b: "big_block h b" "i < big_n h b" and p: "KERNEL_HEAP_BASE \<le> p" "4096 dvd unat p" "unat p \<notin> big_range h b"
  shows "va_path p \<noteq> va_path (page_at b i)"
proof -
  note pg = kernel_range_page[OF big_blockD(1)[OF b(1)] b(2)]
  have "unat (page_at b i) \<in> big_range h b" using pg(1) b(2) by (simp add: big_range_def)
  then have "p \<noteq> page_at b i" using p(3) by blast
  then show ?thesis using path_apart[OF upper_half[OF p(1)] pg(2) p(2) pg(3)] by blast
qed

definition block_gone :: "heap_state \<Rightarrow> u64 \<Rightarrow> vmm_state \<Rightarrow> bool" where
  "block_gone h b v \<longleftrightarrow> vmm_ok v (heap_pml4 h) \<and> cr3 v = cr3 (hvmm h) \<and>
     page_tables (mem v) (heap_pml4 h) \<subseteq> page_tables (mem (hvmm h)) (heap_pml4 h) \<and>
     free_set (pmm v) = free_set (pmm (hvmm h)) \<union> big_frames h b \<and>
     (\<forall>x. owned_page (pmm (hvmm h)) x \<longrightarrow> x \<notin> big_frames h b \<longrightarrow> owned_page (pmm v) x) \<and>
     (\<forall>i<big_n h b. aspace (mem v) (heap_pml4 h) (va_path (page_at b i)) = None) \<and>
     (\<forall>q. vpath 4 q \<and> length q = 4 \<and> (\<forall>i<big_n h b. q \<noteq> va_path (page_at b i)) \<longrightarrow>
        aspace (mem v) (heap_pml4 h) q = aspace (mem (hvmm h)) (heap_pml4 h) q)"

lemma block_goneI:
  assumes ok: "small_ok lim h" and b: "big_block h b"
  defines "v1 \<equiv> fold (\<lambda>i. vmm_unmap_page (heap_pml4 h) (page_at b i)) [0..<big_n h b] (hvmm h)"
  obtains v where "free_blocks (heap_frame h b) (big_pages (hpages h b)) v1 = Some v" "block_gone h b v"
proof -
  let ?t = "heap_pml4 h" and ?n = "big_n h b" and ?k = "big_order h b" and ?p = "heap_frame h b div 4096"
  have vok: "vmm_ok (hvmm h) ?t" by (rule cursor_facts(3)[OF ok])
  have nh: "\<forall>i<?n. no_huge (mem (hvmm h)) ?t (va_path (page_at b i))" using b by (fastforce simp: big_block_def no_huge_def)
  have u: "range_unmapped ?t (hvmm h) b ?n v1"
    unfolding v1_def by (rule unmap_range[OF big_blockD(1,3)[OF b] vok nh order.refl])
  have ob: "owned_block (pmm v1) ?k ?p" "get_order ?n = Some ?k" "pmm_inv (pmm v1)"
    using b u vmm_okD(1)[OF vok] by (simp_all add: big_block_def range_unmapped_def)
  obtain q where q: "pmm_free_pages (pmm v1) (?p * 4096) ?n = Some q" "pmm_inv q" "free_set q = free_set (pmm v1) \<union> pages ?k ?p"
    "\<forall>x. owned_page (pmm v1) x \<longrightarrow> x \<notin> pages ?k ?p \<longrightarrow> owned_page q x"
    by (rule block_released[OF ob(3) big_blockD(6)[OF b] ob(2,1)], rule that; assumption)
  have "x div 4096 \<notin> big_frames h b" if "x \<in> page_tables (mem v1) ?t" for x
  proof
    assume x: "x div 4096 \<in> big_frames h b"
    have t: "x \<in> page_tables (mem (hvmm h)) ?t" using u that by (auto simp: range_unmapped_def)
    have "4096 dvd x" by (rule table_aligned[OF vmm_okD(2)[OF vok] t])
    then show False using big_frame_owned(2)[OF b x] t by simp
  qed
  then have "vmm_ok (v1\<lparr>pmm := q\<rparr>) ?t"
    using u q(2,3) by (auto simp: range_unmapped_def vmm_ok_def table_pages_def big_frames_def)
  then have "block_gone h b (v1\<lparr>pmm := q\<rparr>)"
    using u q(3,4) by (simp add: block_gone_def range_unmapped_def big_frames_def)
  then show thesis
    using that[of "v1\<lparr>pmm := q\<rparr>"] q(1) big_first_page(2)[OF ok b] by (simp add: free_blocks_def big_n_def)
qed

section \<open>The heap without the block\<close>

lemma gone_slabs:
  assumes ok: "small_ok lim h" "bigs_ok h bs" and b: "b \<in> set bs" and g: "block_gone h b v" and p: "p \<in> heap_slabs h"
  shows "aspace (mem v) (heap_pml4 h) (va_path p) = heap_space h p" "heap_frame h p \<notin> page_tables (mem v) (heap_pml4 h)"
    "owned_page (pmm v) (heap_frame h p div 4096)"
proof -
  have bb: "big_block h b" and d: "unat p \<notin> big_range h b" "heap_frame h p div 4096 \<notin> big_frames h b"
    using ok(2) b p by (simp_all add: bigs_ok_def)
  note pl = small_slab_place[OF ok(1) p]
  show "aspace (mem v) (heap_pml4 h) (va_path p) = heap_space h p"
    using g big_other_path[OF bb _ pl(1,3) d(1)] va_path_ok unfolding block_gone_def by blast
  show "heap_frame h p \<notin> page_tables (mem v) (heap_pml4 h)" "owned_page (pmm v) (heap_frame h p div 4096)"
    using g d(2) pl(5) by (auto simp: block_gone_def backed_page_def)
qed

lemma gone_blocks:
  assumes ok: "bigs_ok h bs" and b: "b \<in> set bs" and c: "c \<in> set bs" "c \<noteq> b" and g: "block_gone h b v"
  shows "\<forall>x\<in>big_frames h c. owned_page (pmm v) x \<and> x * 4096 \<notin> page_tables (mem v) (heap_pml4 h)"
    "\<forall>i<big_n h c. aspace (mem v) (heap_pml4 h) (va_path (page_at c i)) = heap_space h (page_at c i)"
proof -
  have bb: "big_block h b" "big_block h c" and d: "big_range h c \<inter> big_range h b = {}" "big_frames h c \<inter> big_frames h b = {}"
    using ok b c by (simp_all add: bigs_ok_def)
  show "\<forall>x\<in>big_frames h c. owned_page (pmm v) x \<and> x * 4096 \<notin> page_tables (mem v) (heap_pml4 h)"
  proof
    fix x assume x: "x \<in> big_frames h c"
    then have "x \<notin> big_frames h b" using d(2) by blast
    then show "owned_page (pmm v) x \<and> x * 4096 \<notin> page_tables (mem v) (heap_pml4 h)"
      using g big_frame_owned[OF bb(2) x] by (auto simp: block_gone_def)
  qed
  show "\<forall>i<big_n h c. aspace (mem v) (heap_pml4 h) (va_path (page_at c i)) = heap_space h (page_at c i)"
  proof (intro allI impI)
    fix i assume i: "i < big_n h c"
    have "unat (page_at c i) \<in> big_range h c"
      using kernel_range_page(1)[OF big_blockD(1)[OF bb(2)] i] i by (simp add: big_range_def)
    then have "unat (page_at c i) \<notin> big_range h b" using d(1) by blast
    then show "aspace (mem v) (heap_pml4 h) (va_path (page_at c i)) = heap_space h (page_at c i)"
      using g big_other_path[OF bb(1) _ big_page_place(1,2)[OF bb(2) i]] va_path_ok unfolding block_gone_def by blast
  qed
qed

lemma gone_arena:
  assumes ok: "small_ok lim h" and b: "big_block h b" and g: "block_gone h b v"
  shows "arena v (heap_pml4 h) (current_heap_vaddr h) lim"
  unfolding arena_def
proof (intro allI impI)
  fix x assume x: "current_heap_vaddr h \<le> x \<and> x < lim"
  then have u: "unat b + big_n h b * 4096 \<le> unat x" using big_blockD(5)[OF b] by (simp add: word_le_nat_alt)
  have "aspace (mem v) (heap_pml4 h) (va_path x) = heap_space h x"
    using g va_path_ok range_above[OF big_blockD(1)[OF b] _ u] unfolding block_gone_def by blast
  then show "aspace (mem v) (heap_pml4 h) (va_path x) = None" using cursor_facts(4)[OF ok] x by (simp add: arena_def)
qed

lemma bigs_sub:
  assumes ok: "bigs_ok h bs" and c: "set cs \<subseteq> set bs" "distinct cs" "chain (hpages h') cs (big_alloc_head h')"
    and k: "\<And>c. c \<in> set cs \<Longrightarrow> big_block h' c \<and> big_n h' c = big_n h c \<and> big_frames h' c = big_frames h c"
    and s: "heap_slabs h' = heap_slabs h" "\<And>p. p \<in> heap_slabs h \<Longrightarrow> heap_frame h' p = heap_frame h p"
  shows "bigs_ok h' cs"
  unfolding bigs_ok_def
proof (intro conjI ballI impI)
  note D = ok[unfolded bigs_ok_def]
  have rg: "big_range h' c = big_range h c" "big_frames h' c = big_frames h c" if "c \<in> set cs" for c
    using k[OF that] by (simp_all add: big_range_def)
  show "chain (hpages h') cs (big_alloc_head h')" "distinct cs" by (fact c)+
  fix c assume c': "c \<in> set cs"
  show "big_block h' c" using k[OF c'] by blast
  {
    fix d assume d: "d \<in> set cs" "c \<noteq> d"
    have "big_range h c \<inter> big_range h d = {} \<and> big_frames h c \<inter> big_frames h d = {}" using D c(1) c' d by blast
    then show "big_range h' c \<inter> big_range h' d = {}" "big_frames h' c \<inter> big_frames h' d = {}"
      unfolding rg[OF c'] rg[OF d(1)] by blast+
  next
    fix p assume p: "p \<in> heap_slabs h'"
    have "unat p \<notin> big_range h c \<and> heap_frame h p div 4096 \<notin> big_frames h c" using D c(1) c' p s(1) by blast
    then show "unat p \<notin> big_range h' c" "heap_frame h' p div 4096 \<notin> big_frames h' c"
      unfolding rg[OF c'] using s p by simp_all
  }
qed

lemma kfree_big_spec:
  assumes ok: "small_ok lim h" "bigs_ok h (xs @ b # zs)"
  shows "\<exists>h'. kfree_big b h = Some h' \<and> small_ok lim h' \<and> bigs_ok h' (xs @ zs) \<and> (\<forall>i<6. small_slots h' i = small_slots h i) \<and>
    hmem h' = hmem h \<and> current_heap_vaddr h' = current_heap_vaddr h \<and> (\<forall>c\<in>set (xs @ zs). big_n h' c = big_n h c) \<and>
    block_gone h b (hvmm h')"
proof -
  let ?bs = "xs @ b # zs" and ?t = "heap_pml4 h"
  note D = ok(2)[unfolded bigs_ok_def]
  have bb: "big_block h b" using D by simp
  obtain g st where r: "list_remove (big_alloc_head h) b (hpages h) = (g, st)" by fastforce
  have ch: "chain (hpages h) ?bs (big_alloc_head h)" "distinct ?bs" using D by simp_all
  note lr = list_remove_chain[OF ch r] and tg = remove_tags[OF r, unfolded same_tags_def, rule_format]
  obtain v where v: "free_blocks (heap_frame h b) (big_pages (hpages h b))
      (fold (\<lambda>i. vmm_unmap_page ?t (page_at b i)) [0..<big_n h b] (hvmm h)) = Some v" "block_gone h b v"
    by (rule block_goneI[OF ok(1) bb])
  let ?h = "h\<lparr>hpages := st, big_alloc_head := g, hvmm := v\<rparr>"
  note G = v(2)[unfolded block_gone_def]
  have e: "kfree_big b h = Some ?h"
    using r v(1) tg[of b] big_first_page(3)[OF ok(1) bb] by (simp add: kfree_big_def Let_def big_n_def)
  have inb: "b \<in> set ?bs" by simp
  have pg: "hpages ?h p = hpages h p" if "p \<in> heap_slabs h" for p
  proof -
    have "p \<notin> set ?bs" using small_slab_place(4)[OF ok(1) that] D by (auto simp: big_block_def SLAB_MAGIC_def BIG_MAGIC_def)
    then show ?thesis using lr(2) by simp
  qed
  have ar: "arena v ?t (current_heap_vaddr h) lim" by (rule gone_arena[OF ok(1) bb v(2)])
  have fr: "small_ok lim ?h" "heap_slabs ?h = heap_slabs h" "\<And>i. i < 6 \<Longrightarrow> small_slots ?h i = small_slots h i"
    "\<And>p. p \<in> heap_slabs h \<Longrightarrow> heap_frame ?h p = heap_frame h p"
    using small_ok_frame[OF ok(1), of ?h] pg gone_slabs[OF ok inb v(2)] cursor_facts(2)[OF ok(1)] G ar by simp_all
  have k: "big_block ?h c" "big_n ?h c = big_n h c" "big_frames ?h c = big_frames h c" if "c \<in> set (xs @ zs)" for c
  proof -
    have c: "c \<in> set ?bs" "c \<noteq> b" using that ch(2) by auto
    have bc: "big_block h c" and cr: "cr3 v = cr3 (hvmm h)" using D c(1) G by blast+
    show "big_block ?h c" "big_n ?h c = big_n h c" "big_frames ?h c = big_frames h c"
      using big_block_kept[OF bc, of ?h] gone_blocks[OF ok(2) inb c v(2)] tg[of c] cr by simp_all
  qed
  have "bigs_ok ?h (xs @ zs)"
    by (rule bigs_sub[OF ok(2)]) (use ch(2) lr(1) k fr(2,4) in auto)
  then show ?thesis using e fr(1,3) k(2) v(2) by (intro exI[of _ ?h]) simp
qed

end
