(* ===== verification/Heap_Objects.thy ===== *)
theory Heap_Objects
  imports Heap_Release
begin

text \<open>
  The heap for a client that knows objects by their addresses and sizes: the objects in use of
  the six caches and the large blocks, where they are, and that they do not overlap.
\<close>

unbundle bit_operations_syntax

section \<open>Objects\<close>

definition small_obj :: "nat \<times> u64 \<times> nat \<Rightarrow> u64 \<times> u64" where
  "small_obj = (\<lambda>(i, x). (small_addr i x, heap_sizes ! i))"

definition big_obj :: "heap_state \<Rightarrow> u64 \<Rightarrow> u64 \<times> u64" where
  "big_obj h b = (b + BIG_HDR, big_pages (hpages h b) * 4096 - BIG_HDR)"

definition big_blocks :: "heap_state \<Rightarrow> u64 set" where
  "big_blocks h = {b. \<exists>bs. chain (hpages h) bs (big_alloc_head h) \<and> b \<in> set bs}"

definition small_all :: "heap_state \<Rightarrow> (nat \<times> u64 \<times> nat) set" where
  "small_all h = (SIGMA i:{..<6}. small_slots h i)"

definition heap_objs :: "heap_state \<Rightarrow> (u64 \<times> u64) set" where
  "heap_objs h = small_obj ` small_all h \<union> big_obj h ` big_blocks h"

definition obj_range :: "u64 \<times> u64 \<Rightarrow> nat set" where
  "obj_range = (\<lambda>(a, n). {unat a ..< unat a + unat n})"

lemma big_blocks_eq: "bigs_ok h bs \<Longrightarrow> big_blocks h = set bs"
  by (auto simp: big_blocks_def bigs_ok_def dest: seg_unique)

lemma heap_objs_mem [simp]:
  "heap_objs (h\<lparr>hmem := m\<rparr>) = heap_objs h" "heap_ok lim (h\<lparr>hmem := m\<rparr>) = heap_ok lim h"
  by (simp_all add: heap_objs_def small_all_def small_slots_def big_blocks_def big_obj_def[abs_def]
      heap_ok_def small_ok_def heap_sim_def bigs_ok_def big_block_def big_n_def big_order_def big_frames_def big_range_def heap_slabs_def)

section \<open>Places\<close>

lemma small_obj_slab:
  assumes "i < 6" "(p, k) \<in> small_slots h i"
  shows "p \<in> cache_slabs (caches h ! i) (hpages h)" "k < unat (slab_capacity (h_obj_size (caches h ! i)))" "p \<in> heap_slabs h"
  using assms by (auto simp: small_slots_def heap_slabs_def)

lemma small_obj_place:
  assumes ok: "small_ok lim h" and i: "i < 6" and x: "(p, k) \<in> small_slots h i"
  shows "obj_range (small_obj (i, p, k)) \<subseteq> {unat p + 64 ..< unat p + 4096}" "small_addr i (p, k) \<noteq> 0"
    "small_addr i (p, k) AND NOT 0xFFF = p" "sp_cache (hpages h p) = i" "page_present (hvmm h) p"
proof -
  from ok obtain s where s: "heap_sim h s" "slab_ok lim s" "map h_obj_size (caches h) = heap_sizes" "\<forall>i<6. in_use s i"
    by (rule small_ok_cases)
  have u: "in_use s i" "i < 32" "cache_used s ! i" using s(4) i by simp_all
  have "(p, k) \<in> live_slots s i" using x live_sim[OF s(1) i] by simp
  note l = live_slots_slab[OF this]
  note a = addr_sim[OF s(3,1) i]
  show "obj_range (small_obj (i, p, k)) \<subseteq> {unat p + 64 ..< unat p + 4096}"
    using obj_bytes_place(2)[OF s(2) u(1) conjunct1[OF l] conjunct2[OF l]]
    by (simp add: obj_bytes_def obj_range_def small_obj_def a)
  note o = slab_object[OF s(2) u(2,3) conjunct1[OF l] conjunct2[OF l], unfolded a(1)]
  show "small_addr i (p, k) \<noteq> 0" "small_addr i (p, k) AND NOT 0xFFF = p" "sp_cache (hpages h p) = i" "page_present (hvmm h) p"
    using o(1,2,4,6) heap_simD(1,2)[OF s(1)] by simp_all
qed

lemma small_objs_apart:
  assumes ok: "small_ok lim h" and x: "x \<in> small_all h" "y \<in> small_all h" "x \<noteq> y"
  shows "obj_range (small_obj x) \<inter> obj_range (small_obj y) = {}"
proof -
  from ok obtain s where s: "heap_sim h s" "slab_ok lim s" "map h_obj_size (caches h) = heap_sizes" "\<forall>i<6. in_use s i"
    by (rule small_ok_cases)
  obtain i p k j q l where e: "x = (i, p, k)" "y = (j, q, l)" by (cases x, cases y) auto
  have ij: "i < 6" "j < 6" "(p, k) \<in> live_slots s i" "(q, l) \<in> live_slots s j"
    using x(1,2) e live_sim[OF s(1)] by (auto simp: small_all_def)
  have u: "in_use s i" "in_use s j" using s(4) ij by simp_all
  show ?thesis
    using slots_disjoint[OF s(2) u ij(3,4)] x(3) e addr_sim[OF s(3,1) ij(1)] addr_sim[OF s(3,1) ij(2)]
    by (simp add: obj_bytes_def obj_range_def small_obj_def)
qed

lemma big_obj_place:
  assumes "big_block h b"
  shows "obj_range (big_obj h b) = {unat b + 64 ..< unat b + big_n h b * 4096}"
    "unat (b + BIG_HDR) = unat b + 64" "unat (snd (big_obj h b)) = big_n h b * 4096 - 64" "(b + BIG_HDR) AND NOT 0xFFF = b"
proof -
  note B = big_blockD[OF assms]
  have lt: "unat b + big_n h b * 4096 < 2 ^ 64" using B(5) unat_u64_less[of "current_heap_vaddr h"] by simp
  have n: "4096 \<le> big_n h b * 4096" using B(6) by simp
  show a: "unat (b + BIG_HDR) = unat b + 64" using lt n by (simp add: BIG_HDR_def unat_add_u64)
  let ?w = "big_pages (hpages h b)"
  have w: "unat (?w * 4096) = big_n h b * 4096" using lt by (simp add: unat_word_ariths big_n_def)
  have "BIG_HDR \<le> ?w * 4096" using n by (simp add: word_le_nat_alt w BIG_HDR_def)
  then show sz: "unat (snd (big_obj h b)) = big_n h b * 4096 - 64" by (simp add: big_obj_def unat_sub w BIG_HDR_def)
  show "obj_range (big_obj h b) = {unat b + 64 ..< unat b + big_n h b * 4096}"
    using a sz n by (simp add: obj_range_def big_obj_def)
  have "unat ((b + BIG_HDR) AND NOT 0xFFF) = unat b"
    using B(4) unfolding unat_page_base a by (auto elim!: dvdE)
  then show "(b + BIG_HDR) AND NOT 0xFFF = b" by (simp add: word_unat_eq_iff)
qed

lemma page_off_block:
  assumes "4096 dvd (p :: nat)" "4096 dvd b" "p \<notin> {b ..< b + n * 4096}"
  shows "{p ..< p + 4096} \<inter> {b ..< b + n * 4096} = {}"
proof -
  obtain x y where e: "p = 4096 * x" "b = 4096 * y" using assms(1,2) by (elim dvdE)
  then have "x < y \<or> y + n \<le> x" using assms(3) by auto
  then have "p + 4096 \<le> b \<or> b + n * 4096 \<le> p" unfolding e by auto
  then show ?thesis by auto
qed

lemma small_big_apart:
  assumes ok: "small_ok lim h" "bigs_ok h bs" and x: "x \<in> small_all h" and b: "b \<in> set bs"
  shows "obj_range (small_obj x) \<inter> obj_range (big_obj h b) = {}"
proof -
  obtain i p k where e: "x = (i, p, k)" by (cases x) auto
  have i: "i < 6" "(p, k) \<in> small_slots h i" using x e by (simp_all add: small_all_def)
  note sl = small_obj_slab(3)[OF i]
  have bb: "big_block h b" and d: "unat p \<notin> big_range h b" using ok(2) b sl by (simp_all add: bigs_ok_def)
  have "{unat p ..< unat p + 4096} \<inter> {unat b ..< unat b + big_n h b * 4096} = {}"
    by (rule page_off_block) (use small_slab_place(3)[OF ok(1) sl] big_blockD(4)[OF bb] d in \<open>simp_all add: big_range_def\<close>)
  moreover have "obj_range (small_obj x) \<subseteq> {unat p ..< unat p + 4096}"
    "obj_range (big_obj h b) \<subseteq> {unat b ..< unat b + big_n h b * 4096}"
    using small_obj_place(1)[OF ok(1) i] unfolding e big_obj_place(1)[OF bb] by auto
  ultimately show ?thesis by blast
qed

lemma big_objs_apart:
  assumes "bigs_ok h bs" "b \<in> set bs" "c \<in> set bs" "b \<noteq> c"
  shows "obj_range (big_obj h b) \<inter> obj_range (big_obj h c) = {}"
proof -
  have bb: "big_block h b" "big_block h c" "big_range h b \<inter> big_range h c = {}" using assms by (simp_all add: bigs_ok_def)
  have "obj_range (big_obj h b) \<subseteq> big_range h b" "obj_range (big_obj h c) \<subseteq> big_range h c"
    unfolding big_obj_place(1)[OF bb(1)] big_obj_place(1)[OF bb(2)] by (auto simp: big_range_def)
  then show ?thesis using bb(3) by blast
qed

lemma heap_sizes_bounds: "i < 6 \<Longrightarrow> 0 < heap_sizes ! i \<and> heap_sizes ! i \<le> 1024"
proof -
  have "\<forall>n\<in>set heap_sizes. 0 < n \<and> n \<le> 1024" "length heap_sizes = 6" by (simp_all add: heap_sizes_def)
  then show "i < 6 \<Longrightarrow> 0 < heap_sizes ! i \<and> heap_sizes ! i \<le> 1024" by auto
qed

lemma heap_ok_cases:
  assumes "heap_ok lim h"
  obtains bs where "small_ok lim h" "bigs_ok h bs" "big_blocks h = set bs" "heap_objs h = small_obj ` small_all h \<union> big_obj h ` set bs"
  using assms big_blocks_eq by (auto simp: heap_ok_def heap_objs_def)

lemma heap_obj_cases:
  assumes "x \<in> heap_objs h"
  obtains (small) i p k where "i < 6" "(p, k) \<in> small_slots h i" "x = small_obj (i, p, k)"
  | (big) b where "b \<in> big_blocks h" "x = big_obj h b"
  using assms by (auto simp: heap_objs_def small_all_def)

lemma heap_objs_apart:
  assumes "heap_ok lim h" "x \<in> heap_objs h" "y \<in> heap_objs h" "x \<noteq> y" shows "obj_range x \<inter> obj_range y = {}"
proof -
  from assms(1) obtain bs where o: "small_ok lim h" "bigs_ok h bs" "heap_objs h = small_obj ` small_all h \<union> big_obj h ` set bs"
    by (rule heap_ok_cases)
  from assms(2-4) show ?thesis
    unfolding o(3) using small_objs_apart[OF o(1)] small_big_apart[OF o(1,2)] big_objs_apart[OF o(2)] by (fastforce simp: Int_commute)
qed

lemma heap_obj_range:
  assumes "heap_ok lim h" "x \<in> heap_objs h"
  shows "obj_range x \<subseteq> {unat KERNEL_HEAP_BASE ..< unat (current_heap_vaddr h)}" "unat (fst x) \<in> obj_range x" "fst x \<noteq> 0"
proof -
  from assms(1) obtain bs where o: "small_ok lim h" "bigs_ok h bs" "big_blocks h = set bs" by (rule heap_ok_cases)
  have "obj_range x \<subseteq> {unat KERNEL_HEAP_BASE ..< unat (current_heap_vaddr h)} \<and> unat (fst x) \<in> obj_range x"
    using assms(2)
  proof (cases rule: heap_obj_cases)
    case (small i p k)
    note pl = small_slab_place[OF o(1) small_obj_slab(3)[OF small(1,2)]]
    have "unat p + 4096 \<le> unat (current_heap_vaddr h)"
      using pl(2,3) cursor_facts(2)[OF o(1)] by (auto simp: word_less_nat_alt elim!: dvdE)
    then have "obj_range x \<subseteq> {unat KERNEL_HEAP_BASE ..< unat (current_heap_vaddr h)}"
      using small_obj_place(1)[OF o(1) small(1,2)] pl(1) unfolding small(3) word_le_nat_alt by auto
    moreover have "unat (fst x) \<in> obj_range x"
      using heap_sizes_bounds[OF small(1)] unfolding small(3) by (simp add: obj_range_def small_obj_def word_less_nat_alt)
    ultimately show ?thesis ..
  next
    case (big b)
    then have bb: "big_block h b" using o(2,3) by (simp add: bigs_ok_def)
    note B = big_blockD(3,5,6)[OF bb]
    show ?thesis
      unfolding big(2) big_obj_place(1)[OF bb] using B big_obj_place(2)[OF bb] by (auto simp: big_obj_def word_le_nat_alt)
  qed
  then show "obj_range x \<subseteq> {unat KERNEL_HEAP_BASE ..< unat (current_heap_vaddr h)}" "unat (fst x) \<in> obj_range x" by simp_all
  then show "fst x \<noteq> 0" by (auto simp: KERNEL_HEAP_BASE_def)
qed

lemma heap_objs_fst:
  assumes "heap_ok lim h" "x \<in> heap_objs h" "y \<in> heap_objs h" "fst x = fst y" shows "x = y"
  using heap_objs_apart[OF assms(1-3)] heap_obj_range(2)[OF assms(1,2)] heap_obj_range(2)[OF assms(1,3)] assms(4) by fastforce

end
