(* ===== verification/Heap_Spec.thy ===== *)
theory Heap_Spec
  imports Heap_Objects
begin

text \<open>
  The operations of the heap on its objects: \<open>kmalloc\<close> adds an object, \<open>kfree\<close> takes one away, and
  \<open>krealloc\<close> moves one with its contents.
\<close>

unbundle bit_operations_syntax

section \<open>Allocation\<close>

text \<open>Enough address space for the pages of a request, whose size does not overflow.\<close>

definition heap_room :: "u64 \<Rightarrow> u64 \<Rightarrow> heap_state \<Rightarrow> bool" where
  "heap_room lim sz h \<longleftrightarrow> unat sz + 4159 < 2 ^ 64 \<and>
     unat (current_heap_vaddr h) + (unat sz + 4159) div 4096 * 4096 \<le> unat lim"

lemma big_objs_kept:
  assumes "\<forall>b\<in>B. big_n h' b = big_n h b" shows "big_obj h' ` B = big_obj h ` B"
proof (rule image_cong[OF refl])
  fix b assume "b \<in> B"
  then have "unat (big_pages (hpages h' b)) = unat (big_pages (hpages h b))" using assms by (simp add: big_n_def)
  then show "big_obj h' b = big_obj h b" by (simp add: big_obj_def word_unat_eq_iff[symmetric])
qed

lemma heap_objs_eq: "bigs_ok h bs \<Longrightarrow> heap_objs h = small_obj ` small_all h \<union> big_obj h ` set bs"
  by (simp add: heap_objs_def big_blocks_eq)

lemma small_step_big_n:
  assumes "bigs_ok h bs" "rest_kept (unat (current_heap_vaddr h)) h h'" shows "\<forall>b\<in>set bs. big_n h' b = big_n h b"
proof
  fix b assume "b \<in> set bs"
  then have "b < current_heap_vaddr h" using assms(1) big_blockD(2) by (simp add: bigs_ok_def)
  then show "big_n h' b = big_n h b" using assms(2) by (simp add: big_n_def rest_kept_def word_less_nat_alt)
qed

definition allocated :: "u64 \<Rightarrow> heap_state \<Rightarrow> u64 \<Rightarrow> u64 \<Rightarrow> heap_state \<Rightarrow> bool" where
  "allocated lim h sz ptr h' \<longleftrightarrow> heap_ok lim h' \<and> (\<forall>a<unat (current_heap_vaddr h). hmem h' a = hmem h a) \<and>
     (if ptr = 0 then heap_objs h' = heap_objs h \<and> (0 < sz \<and> sz \<le> 1024 \<longrightarrow> card (free_set (pmm (hvmm h))) \<le> 4)
      else \<exists>n\<ge>sz. 0 < sz \<and> (ptr, n) \<notin> heap_objs h \<and> heap_objs h' = insert (ptr, n) (heap_objs h))"

lemma small_fresh:
  assumes ok: "small_ok lim h" "bigs_ok h bs" and x: "small_all h = insert x A" "x \<notin> A"
  shows "small_obj x \<notin> small_obj ` A \<union> big_obj h ` set bs"
proof
  have hok: "heap_ok lim h" using ok by (auto simp: heap_ok_def)
  have "small_obj x \<in> heap_objs h" using x(1) by (simp add: heap_objs_def)
  then have ne: "obj_range (small_obj x) \<noteq> {}" using heap_obj_range(2)[OF hok] by blast
  have xa: "x \<in> small_all h" "y \<in> A \<Longrightarrow> y \<in> small_all h \<and> y \<noteq> x" for y using x by auto
  assume "small_obj x \<in> small_obj ` A \<union> big_obj h ` set bs"
  then consider y where "y \<in> A" "small_obj x = small_obj y" | b where "b \<in> set bs" "small_obj x = big_obj h b" by blast
  then show False
  proof cases
    case 1
    then show False using small_objs_apart[OF ok(1) xa(1), of y] xa(2)[of y] ne by auto
  next
    case 2
    then show False using small_big_apart[OF ok xa(1), of b] ne by simp
  qed
qed

lemma kmalloc_small_objs:
  assumes ok: "small_ok lim h" "bigs_ok h bs" and i: "i < 6" "sz \<le> heap_sizes ! i" "0 < sz" and r: "current_heap_vaddr h < lim"
  shows "\<exists>ptr h'. kmalloc_slab i h = Some (ptr, h') \<and> allocated lim h sz ptr h'"
proof -
  obtain ptr h' where k: "kmalloc_slab i h = Some (ptr, h')" "small_ok lim h'" "rest_kept (unat (current_heap_vaddr h)) h h'"
    "heap_outside i h h'" "\<forall>j<6. j \<noteq> i \<longrightarrow> small_slots h' j = small_slots h j"
    "if ptr = 0 then small_slots h' i = small_slots h i \<and> card (free_set (pmm (hvmm h))) \<le> 4
     else \<exists>x. x \<notin> small_slots h i \<and> small_slots h' i = insert x (small_slots h i) \<and> ptr = small_addr i x"
    using kmalloc_slab_spec[OF ok(1) i(1) r] by blast
  have b: "bigs_ok h' bs" by (rule small_step_bigs[OF ok(1) i(1) k(4,3) ok(2)])
  note bo = big_objs_kept[OF small_step_big_n[OF ok(2) k(3)]]
  have hok: "heap_ok lim h'" using k(2) b by (auto simp: heap_ok_def)
  have m: "\<forall>a<unat (current_heap_vaddr h). hmem h' a = hmem h a" using k(3) by (simp add: rest_kept_def)
  have "allocated lim h sz ptr h'"
  proof (cases "ptr = 0")
    case True
    then have "small_all h' = small_all h" using k(5,6) i(1) by (auto simp: small_all_def; metis)
    then show ?thesis using True k(6) hok m bo by (simp add: allocated_def heap_objs_eq[OF ok(2)] heap_objs_eq[OF b])
  next
    case False
    then obtain x where x: "x \<notin> small_slots h i" "small_slots h' i = insert x (small_slots h i)" "ptr = small_addr i x"
      using k(6) by auto
    have sl: "small_slots h' j = (if j = i then insert x (small_slots h i) else small_slots h j)" if "j < 6" for j
      using x(2) k(5) that by simp
    have sa: "small_all h' = insert (i, x) (small_all h)" using sl i(1) by (auto simp: small_all_def split: if_splits)
    have o: "heap_objs h' = insert (ptr, heap_sizes ! i) (heap_objs h)"
      unfolding heap_objs_eq[OF ok(2)] heap_objs_eq[OF b] bo sa by (simp add: x(3) small_obj_def)
    have ni: "(i, x) \<notin> small_all h" using x(1) by (simp add: small_all_def)
    have "small_obj (i, x) \<notin> heap_objs h"
      unfolding heap_objs_eq[OF ok(2)] bo[symmetric] by (rule small_fresh[OF k(2) b sa ni])
    then have "(ptr, heap_sizes ! i) \<notin> heap_objs h" by (simp add: small_obj_def x(3))
    then show ?thesis using False hok m o i(2,3) by (auto simp: allocated_def)
  qed
  then show ?thesis using k(1) by blast
qed

lemma kmalloc_big_objs:
  assumes ok: "small_ok lim h" "bigs_ok h bs" and r: "heap_room lim sz h" "\<not> sz \<le> 1024"
  shows "\<exists>ptr h'. kmalloc_big sz h = Some (ptr, h') \<and> allocated lim h sz ptr h'"
proof -
  let ?va = "current_heap_vaddr h"
  have sz: "unat sz + 4159 < 2 ^ 64" using r(1) by (simp add: heap_room_def)
  note n = big_pages_for_ok[OF sz]
  have "unat ?va + unat (big_pages_for sz) * 4096 \<le> unat lim" using r(1) by (simp add: heap_room_def n(1))
  then obtain ptr h' where k: "kmalloc_big sz h = Some (ptr, h')" "small_ok lim h'" "\<forall>i<6. small_slots h' i = small_slots h i"
    "hmem h' = hmem h" "if ptr = 0 then bigs_ok h' bs else bigs_ok h' (?va # bs) \<and> ptr = ?va + BIG_HDR \<and>
       big_n h' ?va = unat (big_pages_for sz)" "\<forall>b\<in>set bs. big_n h' b = big_n h b"
    using kmalloc_big_spec[OF ok sz] by blast
  have sa: "small_all h' = small_all h" using k(3) by (auto simp: small_all_def)
  note bo = big_objs_kept[OF k(6)]
  have "allocated lim h sz ptr h'"
  proof (cases "ptr = 0")
    case True
    then have b: "bigs_ok h' bs" using k(5) by simp
    then show ?thesis
      using True k(2,4) r(2) sa bo by (auto simp: allocated_def heap_ok_def heap_objs_eq[OF ok(2)] heap_objs_eq[OF b])
  next
    case False
    then have b: "bigs_ok h' (?va # bs)" "ptr = ?va + BIG_HDR" "big_n h' ?va = unat (big_pages_for sz)" using k(5) by simp_all
    have bb: "big_block h' ?va" using b(1) by (simp add: bigs_ok_def)
    note p = big_obj_place[OF bb]
    have hok: "heap_ok lim h" "heap_ok lim h'" using ok k(2) b(1) by (auto simp: heap_ok_def)
    have o: "heap_objs h' = insert (ptr, snd (big_obj h' ?va)) (heap_objs h)"
      unfolding heap_objs_eq[OF ok(2)] heap_objs_eq[OF b(1)] sa using bo b(2) by (simp add: big_obj_def)
    have "(ptr, m) \<notin> heap_objs h" for m
    proof
      assume a: "(ptr, m) \<in> heap_objs h"
      have "unat ptr < unat ?va" using heap_obj_range(1,2)[OF hok(1) a] by auto
      then show False using p(2) b(2) by simp
    qed
    moreover have "sz \<le> snd (big_obj h' ?va)" using n(3) by (simp add: word_le_nat_alt p(3) b(3))
    moreover have "0 < sz" using r(2) by (auto simp: not_le intro: order.strict_trans[of 0 1024])
    ultimately show ?thesis using False hok(2) o k(4) by (auto simp: allocated_def)
  qed
  then show ?thesis using k(1) by blast
qed

lemma kmalloc_spec:
  assumes ok: "heap_ok lim h" and r: "heap_room lim sz h"
  shows "\<exists>ptr h'. kmalloc sz h = Some (ptr, h') \<and> allocated lim h sz ptr h'"
proof -
  from ok obtain bs where o: "small_ok lim h" "bigs_ok h bs" by (rule heap_ok_cases)
  then have sizes: "map h_obj_size (caches h) = heap_sizes" by (simp add: small_ok_def)
  show ?thesis
  proof (cases "sz = 0 \<or> sz \<le> 1024")
    case True
    show ?thesis
    proof (cases "sz = 0")
      case True
      then show ?thesis using ok by (simp add: kmalloc_def allocated_def)
    next
      case False
      obtain i where i: "cache_for sz (caches h) 0 = Some i" "i < 6" "sz \<le> heap_sizes ! i"
        by (rule cache_for_small[OF sizes]) (use True False in auto)
      have "1 * 4096 \<le> (unat sz + 4159) div 4096 * 4096" by (rule mult_le_mono1) simp
      then have "current_heap_vaddr h < lim" using r by (simp add: heap_room_def word_less_nat_alt)
      then show ?thesis using kmalloc_small_objs[OF o i(2,3)] i(1) False by (simp add: kmalloc_def word_gt_0)
    qed
  next
    case False
    have "\<not> sz \<le> h_obj_size c" if "c \<in> set (caches h)" for c
    proof -
      have "h_obj_size c \<in> set heap_sizes" using arg_cong[OF sizes, of set] that by auto
      then have "h_obj_size c \<le> 1024" by (auto simp: heap_sizes_def)
      then show ?thesis using False by auto
    qed
    then have "cache_for sz (caches h) 0 = None" by (simp add: cache_for_None)
    then show ?thesis using kmalloc_big_objs[OF o r] False by (simp add: kmalloc_def)
  qed
qed

section \<open>Release\<close>

lemma objs_inj:
  assumes "heap_ok lim h"
  shows "inj_on small_obj (small_all h)" "inj_on (big_obj h) (big_blocks h)" "small_obj ` small_all h \<inter> big_obj h ` big_blocks h = {}"
proof -
  from assms obtain bs where o: "small_ok lim h" "bigs_ok h bs" "big_blocks h = set bs" by (rule heap_ok_cases)
  have ne: "obj_range y \<noteq> {}" if "y \<in> heap_objs h" for y using heap_obj_range(2)[OF assms that] by blast
  have s: "obj_range (small_obj x) \<noteq> {}" if "x \<in> small_all h" for x by (rule ne) (simp add: heap_objs_def that)
  have b: "obj_range (big_obj h x) \<noteq> {}" if "x \<in> big_blocks h" for x by (rule ne) (simp add: heap_objs_def that)
  show "inj_on small_obj (small_all h)"
  proof (rule inj_onI, rule ccontr)
    fix x y assume "x \<in> small_all h" "y \<in> small_all h" "small_obj x = small_obj y" "x \<noteq> y"
    then show False using small_objs_apart[OF o(1), of x y] s by simp
  qed
  show "inj_on (big_obj h) (big_blocks h)"
  proof (rule inj_onI, rule ccontr)
    fix x y assume "x \<in> big_blocks h" "y \<in> big_blocks h" "big_obj h x = big_obj h y" "x \<noteq> y"
    then show False using big_objs_apart[OF o(2), of x y] b o(3) by simp
  qed
  have "small_obj x \<noteq> big_obj h c" if "x \<in> small_all h" "c \<in> big_blocks h" for x c
    using small_big_apart[OF o(1,2) that(1), of c] s[OF that(1)] that(2) o(3) by auto
  then show "small_obj ` small_all h \<inter> big_obj h ` big_blocks h = {}" by blast
qed

lemma kfree_small_objs:
  assumes ok: "heap_ok lim h" and x: "i < 6" "(p, k) \<in> small_slots h i"
  shows "\<exists>h'. kfree (small_addr i (p, k)) h = Some h' \<and> heap_ok lim h' \<and> hmem h' = hmem h \<and> free_set (pmm (hvmm h')) = free_set (pmm (hvmm h)) \<and>
    heap_objs h' = heap_objs h - {small_obj (i, p, k)}"
proof -
  from ok obtain bs where o: "small_ok lim h" "bigs_ok h bs" "big_blocks h = set bs" by (rule heap_ok_cases)
  note sl = small_obj_slab[OF x]
  obtain h' where f: "kfree (small_addr i (p, k)) h = Some h'" "small_ok lim h'" "hvmm h' = hvmm h" "\<forall>n. rest_kept n h h'"
    "\<forall>j<6. j \<noteq> i \<longrightarrow> small_slots h' j = small_slots h j" "small_slots h' i = small_slots h i - {(p, k)}" "heap_outside i h h'"
    using kfree_small_spec[OF o(1) x(1) sl(1,2)] x(2) by auto
  have b: "bigs_ok h' bs" using small_step_bigs[OF o(1) x(1) f(7) _ o(2)] f(4) by blast
  have bo: "big_obj h' ` set bs = big_obj h ` set bs" using big_objs_kept[OF small_step_big_n[OF o(2)]] f(4) by blast
  have sa: "small_all h' = small_all h - {(i, p, k)}" using f(5,6) x(1) by (auto simp: small_all_def; metis DiffD1 DiffD2 DiffI singletonI)
  have im: "small_obj ` (small_all h - {(i, p, k)}) = small_obj ` small_all h - {small_obj (i, p, k)}"
    using x by (subst inj_on_image_set_diff[OF objs_inj(1)[OF ok]]) (auto simp: small_all_def)
  have nb: "small_obj (i, p, k) \<notin> big_obj h ` set bs" using objs_inj(3)[OF ok] x o(3) by (auto simp: small_all_def)
  have "heap_objs h' = heap_objs h - {small_obj (i, p, k)}"
    unfolding heap_objs_eq[OF o(2)] heap_objs_eq[OF b] bo sa im using nb by (simp add: Un_Diff)
  moreover have "hmem h' = hmem h"
  proof
    fix a show "hmem h' a = hmem h a" using f(4)[rule_format, of "Suc a"] by (simp add: rest_kept_def)
  qed
  ultimately show ?thesis using f(1-3) b by (auto simp: heap_ok_def)
qed

lemma kfree_big_objs:
  assumes ok: "heap_ok lim h" and b: "b \<in> big_blocks h"
  shows "\<exists>h'. kfree (b + BIG_HDR) h = Some h' \<and> heap_ok lim h' \<and> hmem h' = hmem h \<and>
    free_set (pmm (hvmm h')) = free_set (pmm (hvmm h)) \<union> big_frames h b \<and> heap_objs h' = heap_objs h - {big_obj h b}"
proof -
  from ok obtain bs where o: "small_ok lim h" "bigs_ok h bs" "big_blocks h = set bs" by (rule heap_ok_cases)
  obtain xs zs where bs: "bs = xs @ b # zs" using b o(3) by (metis split_list)
  have bb: "big_block h b" using o(2) bs by (simp add: bigs_ok_def)
  obtain h' where f: "kfree_big b h = Some h'" "small_ok lim h'" "bigs_ok h' (xs @ zs)" "\<forall>i<6. small_slots h' i = small_slots h i"
    "hmem h' = hmem h" "\<forall>c\<in>set (xs @ zs). big_n h' c = big_n h c" "block_gone h b (hvmm h')"
    using kfree_big_spec[OF o(1), of xs b zs] o(2) bs by blast
  have "page_present (hvmm h) b" using big_first_page(1)[OF o(1) bb] by (auto simp: page_present_def backed_page_def)
  moreover have "b + BIG_HDR \<noteq> 0" using big_obj_place(2)[OF bb] by auto
  moreover have "sp_magic (hpages h b) = BIG_MAGIC" using bb by (simp add: big_block_def)
  ultimately have e: "kfree (b + BIG_HDR) h = Some h'"
    using f(1) big_obj_place(4)[OF bb] by (simp add: kfree_def Let_def BIG_MAGIC_def SLAB_MAGIC_def)
  have sa: "small_all h' = small_all h" using f(4) by (auto simp: small_all_def)
  have d: "set (xs @ zs) = big_blocks h - {b}" using o(2,3) bs by (auto simp: bigs_ok_def)
  have im: "big_obj h ` (big_blocks h - {b}) = big_obj h ` big_blocks h - {big_obj h b}"
    using b by (subst inj_on_image_set_diff[OF objs_inj(2)[OF ok]]) auto
  have ns: "big_obj h b \<notin> small_obj ` small_all h" using objs_inj(3)[OF ok] b by blast
  have "heap_objs h' = heap_objs h - {big_obj h b}"
    unfolding heap_objs_eq[OF f(3)] sa d big_objs_kept[OF f(6), unfolded d] im unfolding heap_objs_def using ns by (simp add: Un_Diff)
  then show ?thesis using e f(2,3,5,7) by (auto simp: heap_ok_def block_gone_def)
qed

lemma kfree_spec:
  assumes ok: "heap_ok lim h" and x: "(ptr, n) \<in> heap_objs h"
  shows "\<exists>h'. kfree ptr h = Some h' \<and> heap_ok lim h' \<and> hmem h' = hmem h \<and> heap_objs h' = heap_objs h - {(ptr, n)} \<and>
    free_set (pmm (hvmm h)) \<subseteq> free_set (pmm (hvmm h')) \<and>
    (1024 < n \<longrightarrow> (unat n + 64) div 4096 \<le> card (free_set (pmm (hvmm h')) - free_set (pmm (hvmm h))))"
  using x
proof (cases rule: heap_obj_cases)
  case (small i p k)
  have "\<not> 1024 < n" using heap_sizes_bounds[OF small(1)] small(3) by (simp add: small_obj_def not_less)
  then show ?thesis using kfree_small_objs[OF ok small(1,2)] small(3) by (auto simp: small_obj_def)
next
  case (big b)
  from ok obtain bs where o: "small_ok lim h" "bigs_ok h bs" "big_blocks h = set bs" by (rule heap_ok_cases)
  have bb: "big_block h b" using o big(1) by (simp add: bigs_ok_def)
  obtain h' where f: "kfree (b + BIG_HDR) h = Some h'" "heap_ok lim h'" "hmem h' = hmem h"
    "free_set (pmm (hvmm h')) = free_set (pmm (hvmm h)) \<union> big_frames h b" "heap_objs h' = heap_objs h - {big_obj h b}"
    using kfree_big_objs[OF ok big(1)] by blast
  have "big_frames h b \<inter> free_set (pmm (hvmm h)) = {}" using big_outside(2)[OF o(1,2)] big(1) o(3) by simp
  then have "free_set (pmm (hvmm h')) - free_set (pmm (hvmm h)) = big_frames h b" using f(4) by blast
  moreover have "big_n h b \<le> card (big_frames h b)"
  proof -
    have "big_n h b \<le> 2 ^ 63" using big_blockD(5)[OF bb] unat_u64_less[of "current_heap_vaddr h"] by simp
    then obtain r where "get_order (big_n h b) = Some r" "big_n h b \<le> 2 ^ r" by (rule get_order_spec[OF big_blockD(6)[OF bb]])
    then show ?thesis using bb by (simp add: big_block_def big_frames_def pages_def)
  qed
  moreover have "(unat n + 64) div 4096 = big_n h b"
    using big_obj_place(3)[OF bb] big_blockD(6)[OF bb] big(2) by (simp add: big_obj_def)
  ultimately show ?thesis using f big(2) by (auto simp: big_obj_def)
qed

section \<open>Contents\<close>

lemma allocated_keeps:
  assumes "heap_ok lim h" "allocated lim h sz ptr h'" "x \<in> heap_objs h" "a \<in> obj_range x"
  shows "hmem h' a = hmem h a"
  using heap_obj_range(1)[OF assms(1,3)] assms(2,4) by (auto simp: allocated_def)

lemma allocated_new:
  assumes "allocated lim h sz ptr h'" "ptr \<noteq> 0"
  obtains n where "sz \<le> n" "heap_objs h' = insert (ptr, n) (heap_objs h)" "(ptr, n) \<notin> heap_objs h"
    "\<forall>x\<in>heap_objs h. obj_range (ptr, n) \<inter> obj_range x = {}" "\<forall>i<unat n. unat ptr + i \<in> obj_range (ptr, n)"
    "obj_range (ptr, n) \<subseteq> {unat KERNEL_HEAP_BASE ..< unat (current_heap_vaddr h')}"
proof -
  obtain n where n: "sz \<le> n" "(ptr, n) \<notin> heap_objs h" "heap_objs h' = insert (ptr, n) (heap_objs h)" and ok: "heap_ok lim h'"
    using assms by (auto simp: allocated_def)
  have "obj_range (ptr, n) \<inter> obj_range x = {}" if "x \<in> heap_objs h" for x
    by (rule heap_objs_apart[OF ok]) (use that n(2,3) in auto)
  moreover have "obj_range (ptr, n) \<subseteq> {unat KERNEL_HEAP_BASE ..< unat (current_heap_vaddr h')}"
    by (rule heap_obj_range(1)[OF ok]) (simp add: n(3))
  ultimately show thesis using that[OF n(1,3,2)] by (simp add: obj_range_def)
qed

lemma old_size_spec:
  assumes ok: "heap_ok lim h" and x: "(ptr, n) \<in> heap_objs h"
  shows "old_size_of ptr h = Some (Some n)"
  using x
proof (cases rule: heap_obj_cases)
  case (small i p k)
  from ok have o: "small_ok lim h" by (rule heap_ok_cases)
  then have sz: "h_obj_size (caches h ! i) = heap_sizes ! i" using size_sim[of h, OF _ small(1)] by (simp add: small_ok_def)
  show ?thesis
    using small_obj_place(3-5)[OF o small(1,2)] small_slab_place(4)[OF o small_obj_slab(3)[OF small(1,2)]] sz small(3)
    by (simp add: old_size_of_def Let_def small_obj_def)
next
  case (big b)
  from ok obtain bs where o: "small_ok lim h" "bigs_ok h bs" "big_blocks h = set bs" by (rule heap_ok_cases)
  have bb: "big_block h b" using o big(1) by (simp add: bigs_ok_def)
  have "page_present (hvmm h) b" using big_first_page(1)[OF o(1) bb] by (auto simp: page_present_def backed_page_def)
  then show ?thesis
    using big_obj_place(4)[OF bb] bb big(2) by (simp add: old_size_of_def Let_def big_obj_def big_block_def BIG_MAGIC_def SLAB_MAGIC_def)
qed

lemma apart_forward:
  assumes "{p ..< p + m} \<inter> {s ..< s + n} = {}" "0 < n" "n \<le> m" shows "forward_ok p s n"
proof (rule ccontr)
  assume "\<not> forward_ok p s n"
  then have "p \<in> {p ..< p + m} \<inter> {s ..< s + n}" using assms(2,3) by (auto simp: forward_ok_def)
  then show False using assms(1) by blast
qed

lemma krealloc_moves:
  assumes ok: "heap_ok lim h" and x: "(ptr, n) \<in> heap_objs h" and r: "heap_room lim sz h" and sz: "n < sz"
  shows "\<exists>p h'. krealloc ptr sz h = Some (p, h') \<and> heap_ok lim h' \<and>
    (if p = 0 then heap_objs h' = heap_objs h \<and> (\<forall>a\<in>obj_range (ptr, n). hmem h' a = hmem h a)
     else \<exists>m\<ge>sz. (p, m) \<notin> heap_objs h \<and> heap_objs h' = insert (p, m) (heap_objs h - {(ptr, n)}) \<and>
       (\<forall>i<unat n. hmem h' (unat p + i) = hmem h (unat ptr + i))) \<and>
    (\<forall>x\<in>heap_objs h - {(ptr, n)}. \<forall>a\<in>obj_range x. hmem h' a = hmem h a)"
proof -
  have nz: "ptr \<noteq> 0" "sz \<noteq> 0" "\<not> sz \<le> n" using heap_obj_range(3)[OF ok x] sz by auto
  obtain p h1 where k: "kmalloc sz h = Some (p, h1)" and a: "allocated lim h sz p h1" using kmalloc_spec[OF ok r] by blast
  note keep = allocated_keeps[OF ok a]
  show ?thesis
  proof (cases "p = 0")
    case True
    then have "krealloc ptr sz h = Some (0, h1)" using nz k old_size_spec[OF ok x] by (simp add: krealloc_def)
    then show ?thesis using a True keep x by (auto simp: allocated_def)
  next
    case False
    obtain m where m: "sz \<le> m" "heap_objs h1 = insert (p, m) (heap_objs h)" "(p, m) \<notin> heap_objs h"
      "\<forall>x\<in>heap_objs h. obj_range (p, m) \<inter> obj_range x = {}" "\<forall>i<unat m. unat p + i \<in> obj_range (p, m)"
      by (rule allocated_new[OF a False], rule that; assumption)
    let ?m = "memcpy (hmem h1) (unat p) (unat ptr) (unat n)" let ?h1 = "h1\<lparr>hmem := ?m\<rparr>"
    have nm: "unat n \<le> unat m" using sz m(1) by (simp add: word_le_nat_alt word_less_nat_alt)
    have d: "obj_range (p, m) \<inter> obj_range (ptr, n) = {}" using m(4) x by blast
    have "0 < unat n" using heap_obj_range(2)[OF ok x] by (simp add: obj_range_def)
    then have "forward_ok (unat p) (unat ptr) (unat n)"
      using d nm by (intro apart_forward[where m = "unat m"]) (simp_all add: obj_range_def)
    then have mc: "?m = mcopy (hmem h1) (unat p) (unat ptr) (unat n)" by (rule memcpy_mcopy)
    have "heap_ok lim ?h1" "(ptr, n) \<in> heap_objs ?h1" using a m(2) x by (simp_all add: allocated_def)
    then obtain h' where f: "kfree ptr ?h1 = Some h'" "heap_ok lim h'" "hmem h' = ?m" "heap_objs h' = heap_objs h1 - {(ptr, n)}"
      using kfree_spec[of lim ?h1 ptr n] by auto
    have e: "krealloc ptr sz h = Some (p, h')" using nz k old_size_spec[OF ok x] False f(1) by (simp add: krealloc_def)
    have o: "heap_objs h' = insert (p, m) (heap_objs h - {(ptr, n)})" using f(4) m(2,3) x by auto
    have c: "hmem h' (unat p + i) = hmem h (unat ptr + i)" if "i < unat n" for i
      using keep[OF x, of "unat ptr + i"] that f(3) mc by (simp add: mcopy_def obj_range_def)
    have "hmem h' b = hmem h b" if "y \<in> heap_objs h" "b \<in> obj_range y" for y b
    proof -
      have "b \<notin> obj_range (p, m)" using m(4) that by blast
      then show ?thesis using keep[OF that] f(3) mc nm by (auto simp: mcopy_def obj_range_def)
    qed
    then show ?thesis using e f(2) False m(1,3) o c by auto
  qed
qed

end
