(* ===== verification/Heap_Props.thy ===== *)
theory Heap_Props
  imports Heap_Spec
begin

text \<open>
  The properties of the kernel heap: allocation, release, clearing and resizing, and the histories
  of a heap.
\<close>

unbundle bit_operations_syntax

section \<open>The initial heap\<close>

definition start_pool :: "kmem_cache list" where
  "start_pool = map (\<lambda>n. new_cache [] n 8 None None) heap_sizes @ replicate 26 zero_cache"

lemma start_sizes: "n \<in> set heap_sizes \<Longrightarrow> aligned_size n 8 = n \<and> slab_capacity n \<noteq> 0"
proof -
  have "\<forall>n\<in>set heap_sizes. aligned_size n 8 = n \<and> slab_capacity n \<noteq> 0"
    by (simp add: heap_sizes_def aligned_size_def slab_capacity_def SLAB_HDR_def)
  then show "n \<in> set heap_sizes \<Longrightarrow> aligned_size n 8 = n \<and> slab_capacity n \<noteq> 0" by blast
qed

lemma start_nth:
  assumes "i < 6"
  shows "start_pool ! i = new_cache [] (heap_sizes ! i) 8 None None" "heap_sizes ! i \<in> set heap_sizes"
    "static_caches ! i = \<lparr>slabs_partial = 0, slabs_full = 0, slabs_free = 0, h_obj_size = heap_sizes ! i\<rparr>"
proof -
  have l: "length heap_sizes = 6" by (simp add: heap_sizes_def)
  show "start_pool ! i = new_cache [] (heap_sizes ! i) 8 None None" using assms l by (simp add: start_pool_def nth_append)
  show "heap_sizes ! i \<in> set heap_sizes" using assms l by simp
  have st: "static_caches = map (\<lambda>n. \<lparr>slabs_partial = 0, slabs_full = 0, slabs_free = 0, h_obj_size = n\<rparr>) heap_sizes"
    by (simp add: static_caches_def heap_sizes_def)
  show "static_caches ! i = \<lparr>slabs_partial = 0, slabs_full = 0, slabs_free = 0, h_obj_size = heap_sizes ! i\<rparr>"
    unfolding st by (rule nth_map) (simp add: l assms)
qed

lemma start_cache_sim: "i < 6 \<Longrightarrow> cache_sim (static_caches ! i) (start_pool ! i)"
  using start_nth[of i] start_sizes[of "heap_sizes ! i"] by (simp add: cache_sim_def new_cache_def zero_cache_def)

lemma heap_start_ok:
  assumes c: "caches h = static_caches" "big_alloc_head h = 0" "KERNEL_HEAP_BASE \<le> current_heap_vaddr h"
      "4096 dvd unat (current_heap_vaddr h)" "lim \<le> 0xFFFFFFFFFFFFF000"
    and v: "vmm_ok (hvmm h) (heap_pml4 h)" "arena (hvmm h) (heap_pml4 h) (current_heap_vaddr h) lim"
  shows "heap_ok lim h" "heap_objs h = {}"
proof -
  let ?s = "\<lparr>vmm = hvmm h, slab_pages = cache_pages (hpages h), cache_pool = start_pool, cache_used = map (\<lambda>i. i < 6) [0..<32],
    cache_count = 6, slab_vaddr_cursor = current_heap_vaddr h, obj_calls = []\<rparr>"
  have sim: "heap_sim h ?s"
    using c(1) start_cache_sim by (simp add: heap_sim_def) (simp add: static_caches_def start_pool_def heap_sizes_def)
  have so: "slabs_ok {} SLAB_PAGE_MAGIC i (per_slab (start_pool ! i)) (start_pool ! i) (cache_pages (hpages h)) [] [] [] \<and>
    cache_slabs (start_pool ! i) (cache_pages (hpages h)) = {} \<and> active_objects (start_pool ! i) = 0 \<and>
    16 \<le> unat (obj_aligned (start_pool ! i)) \<and> per_slab (start_pool ! i) * unat (obj_aligned (start_pool ! i)) \<le> 4032" if i: "i < 6" for i
  proof -
    let ?c = "new_cache [] (heap_sizes ! i) 8 None None"
    have "objs_per_slab ?c \<noteq> 0" using start_sizes[OF start_nth(2)[OF i]] by (simp add: new_cache_def)
    note n = new_cache_ok[OF this]
    then have "slabs_ok {} SLAB_PAGE_MAGIC i (per_slab ?c) ?c (cache_pages (hpages h)) [] [] []"
      by (simp add: slabs_ok_def triple_def)
    then show ?thesis using n slabs_ok_slabs unfolding start_nth(1)[OF i] by fastforce
  qed
  have ok: "cache_ok {} ?s i" if "i < 6" for i
    using so[OF that] by (auto simp: cache_ok_def Let_def live_slots_def)
  have "other_slabs ?s 32 = {}" using so by (auto simp: other_slabs_def)
  then have "slab_ok lim ?s" using ok c v by (auto simp: slab_okE_def backed_def start_pool_def heap_sizes_def)
  moreover have sizes: "map h_obj_size (caches h) = heap_sizes" using c(1) by (simp add: static_caches_def heap_sizes_def)
  ultimately have "small_ok lim h" using sim by (auto simp: small_ok_def)
  moreover have b: "bigs_ok h []" using c(2) by (simp add: bigs_ok_def)
  ultimately show "heap_ok lim h" by (auto simp: heap_ok_def)
  have "small_slots h i = {}" if "i < 6" for i using so[OF that] live_sim[OF sim that] by (simp add: live_slots_def)
  then show "heap_objs h = {}" by (auto simp: heap_objs_eq[OF b] small_all_def)
qed

definition demo_heap :: heap_state where
  "demo_heap = heap_init \<lparr>hvmm = demo_vmm, hpages = (\<lambda>_. undefined), caches = static_caches, big_alloc_head = 0,
     current_heap_vaddr = KERNEL_HEAP_BASE, heap_initialized = False, hmem = (\<lambda>_. 0xAA)\<rparr>"

lemma demo_heap:
  "heap_ok SLAB_BASE demo_heap" "heap_objs demo_heap = {}" "hvmm demo_heap = demo_vmm"
  "current_heap_vaddr demo_heap = KERNEL_HEAP_BASE"
proof -
  have "entry_phys 0x1000 = 0x1000" by code_simp
  then have t: "heap_pml4 demo_heap = 0x1000" by (simp add: demo_heap_def heap_init_def demo_vmm_def vmm_get_active_pml4_def)
  show v: "hvmm demo_heap = demo_vmm" "current_heap_vaddr demo_heap = KERNEL_HEAP_BASE" by (simp_all add: demo_heap_def heap_init_def)
  have "vmm_ok (hvmm demo_heap) (heap_pml4 demo_heap)" unfolding t unfolding v by (rule demo_vmm_ok)
  moreover have "arena (hvmm demo_heap) (heap_pml4 demo_heap) (current_heap_vaddr demo_heap) SLAB_BASE"
    by (simp add: arena_def v zero_aspace)
  ultimately show "heap_ok SLAB_BASE demo_heap" "heap_objs demo_heap = {}"
    using heap_start_ok[of demo_heap SLAB_BASE] by (simp_all add: demo_heap_def heap_init_def KERNEL_HEAP_BASE_def SLAB_BASE_def)
qed

lemma demo_room: "unat sz \<le> 2 ^ 20 \<Longrightarrow> heap_room SLAB_BASE sz demo_heap"
proof -
  assume "unat sz \<le> 2 ^ 20"
  then have "(unat sz + 4159) div 4096 * 4096 \<le> 2 ^ 20 + 4159" by (intro order.trans[OF div_times_less_eq_dividend]) simp
  then show ?thesis using \<open>unat sz \<le> 2 ^ 20\<close> by (simp add: heap_room_def demo_heap(4) KERNEL_HEAP_BASE_def SLAB_BASE_def)
qed

text \<open>The heap with one object.\<close>

definition demo_ptr :: u64 where "demo_ptr = fst (the (kmalloc 100 demo_heap))"
definition demo_heap1 :: heap_state where "demo_heap1 = snd (the (kmalloc 100 demo_heap))"

lemma demo_heap1:
  "kmalloc 100 demo_heap = Some (demo_ptr, demo_heap1)" "demo_ptr \<noteq> 0" "heap_ok SLAB_BASE demo_heap1"
  "\<exists>n\<ge>100. heap_objs demo_heap1 = {(demo_ptr, n)}"
proof -
  obtain p h where a: "kmalloc 100 demo_heap = Some (p, h)" "allocated SLAB_BASE demo_heap 100 p h"
    using kmalloc_spec[OF demo_heap(1) demo_room, of 100] by auto
  then show "kmalloc 100 demo_heap = Some (demo_ptr, demo_heap1)" by (simp add: demo_ptr_def demo_heap1_def)
  then have e: "p = demo_ptr" "h = demo_heap1" using a(1) by simp_all
  show "demo_ptr \<noteq> 0" "heap_ok SLAB_BASE demo_heap1" "\<exists>n\<ge>100. heap_objs demo_heap1 = {(demo_ptr, n)}"
    using a(2) unfolding e by (auto simp: allocated_def demo_heap(2,3) demo_pmm_spec(2) split: if_splits)
qed

lemma heap_cursor_step:
  assumes "kmalloc_slab i h = Some (p, h')"
  shows "current_heap_vaddr h' = current_heap_vaddr h \<or> current_heap_vaddr h' = current_heap_vaddr h + 4096"
proof -
  have n: "current_heap_vaddr h2 = current_heap_vaddr h1 \<or> current_heap_vaddr h2 = current_heap_vaddr h1 + 4096"
    if "allocate_new_slab i h1 = Some (sl, h2)" for h1 h2 sl
    using that by (auto simp: allocate_new_slab_def allocate_virtual_space_def Let_def split: Option.bind_splits if_splits)
  obtain sl h1 where f: "heap_slab_for_alloc i h = Some (sl, h1)" using assms by (auto simp: kmalloc_slab_def split: Option.bind_splits)
  have "current_heap_vaddr h1 = current_heap_vaddr h \<or> current_heap_vaddr h1 = current_heap_vaddr h + 4096"
    using f n[of h] by (auto simp: heap_slab_for_alloc_def put_hcache_def Let_def split: if_splits prod.splits Option.bind_splits)
  moreover have "current_heap_vaddr h' = current_heap_vaddr h1"
    using assms f by (auto simp: kmalloc_slab_def put_hcache_def Let_def split: if_splits prod.splits option.splits)
  ultimately show ?thesis by simp
qed

lemma demo_room1: "unat sz \<le> 2 ^ 20 \<Longrightarrow> heap_room SLAB_BASE sz demo_heap1"
proof -
  assume sz: "unat sz \<le> 2 ^ 20"
  have "cache_for 100 (caches demo_heap) 0 = Some 2" by (simp add: demo_heap_def heap_init_def static_caches_def)
  then have "kmalloc_slab 2 demo_heap = Some (demo_ptr, demo_heap1)" using demo_heap1(1) by (simp add: kmalloc_def)
  from heap_cursor_step[OF this] have "current_heap_vaddr demo_heap1 \<le> KERNEL_HEAP_BASE + 4096"
    unfolding demo_heap(4) by (auto simp: KERNEL_HEAP_BASE_def)
  then have c: "unat (current_heap_vaddr demo_heap1) \<le> unat (KERNEL_HEAP_BASE + 4096)" by (simp add: word_le_nat_alt)
  have "(unat sz + 4159) div 4096 * 4096 \<le> 2 ^ 20 + 4159" using sz by (intro order.trans[OF div_times_less_eq_dividend]) simp
  then show ?thesis using sz c by (simp add: heap_room_def KERNEL_HEAP_BASE_def SLAB_BASE_def)
qed

section \<open>Allocation and release\<close>

text \<open>
  C36. \<open>kmalloc\<close> returns and keeps the heap well formed. A request of no bytes has no object. An
  object that is handed out has at least the requested size, is in the range of heap addresses,
  overlaps no object in use, and is in use after the call. All objects in use keep their contents. A
  request that a cache can serve fails only when at most four physical pages were free.
\<close>

theorem kmalloc_correct:
  assumes "heap_ok lim h" "heap_room lim sz h"
  shows "\<exists>ptr h'. kmalloc sz h = Some (ptr, h') \<and> heap_ok lim h' \<and> (sz = 0 \<longrightarrow> ptr = 0) \<and>
    (\<forall>x\<in>heap_objs h. \<forall>a\<in>obj_range x. hmem h' a = hmem h a) \<and>
    (if ptr = 0 then heap_objs h' = heap_objs h \<and> (0 < sz \<and> sz \<le> 1024 \<longrightarrow> card (free_set (pmm (hvmm h))) \<le> 4)
     else \<exists>n\<ge>sz. heap_objs h' = insert (ptr, n) (heap_objs h) \<and> (ptr, n) \<notin> heap_objs h \<and>
       (\<forall>x\<in>heap_objs h. obj_range (ptr, n) \<inter> obj_range x = {}) \<and>
       obj_range (ptr, n) \<subseteq> {unat KERNEL_HEAP_BASE ..< unat (current_heap_vaddr h')})"
proof -
  obtain ptr h' where k: "kmalloc sz h = Some (ptr, h')" and a: "allocated lim h sz ptr h'" using kmalloc_spec[OF assms] by blast
  have z: "sz = 0 \<longrightarrow> ptr = 0" "heap_ok lim h'" using k a by (auto simp: kmalloc_def allocated_def)
  show ?thesis
  proof (cases "ptr = 0")
    case True
    then show ?thesis using k a z allocated_keeps[OF assms(1) a] by (auto simp: allocated_def)
  next
    case False
    then show ?thesis using k a z allocated_keeps[OF assms(1) a] by (elim allocated_new) auto
  qed
qed

theorem kmalloc_correct_witness:
  "\<exists>ptr h'. kmalloc 5000 demo_heap1 = Some (ptr, h') \<and> heap_ok SLAB_BASE h'"
  using kmalloc_correct[OF demo_heap1(3) demo_room1[of 5000]] by auto

text \<open>
  C37. \<open>kfree\<close> of an object in use returns, keeps the heap well formed, ends the use of this object
  only, and changes no byte. All pages of a large block go back to the page allocator.
\<close>

theorem kfree_correct:
  assumes "heap_ok lim h" "(ptr, n) \<in> heap_objs h"
  shows "\<exists>h'. kfree ptr h = Some h' \<and> heap_ok lim h' \<and> hmem h' = hmem h \<and> heap_objs h' = heap_objs h - {(ptr, n)} \<and>
    free_set (pmm (hvmm h)) \<subseteq> free_set (pmm (hvmm h')) \<and>
    (1024 < n \<longrightarrow> (unat n + 64) div 4096 \<le> card (free_set (pmm (hvmm h')) - free_set (pmm (hvmm h))))"
  by (rule kfree_spec[OF assms])

theorem kfree_correct_witness:
  "\<exists>h'. kfree demo_ptr demo_heap1 = Some h' \<and> heap_ok SLAB_BASE h' \<and> heap_objs h' = {}"
proof -
  obtain n where n: "heap_objs demo_heap1 = {(demo_ptr, n)}" using demo_heap1(4) by blast
  then show ?thesis using kfree_correct[OF demo_heap1(3), of demo_ptr n] by auto
qed

section \<open>Resizing and clearing\<close>

text \<open>
  C38. \<open>krealloc\<close> of an object in use returns and keeps the heap well formed. When it succeeds, the
  object is replaced by one of at least the new size, which starts with the bytes of the old one.
  When it fails, the object stays in use with its contents. All other objects keep their contents.
\<close>

theorem krealloc_correct:
  assumes "heap_ok lim h" "(ptr, n) \<in> heap_objs h" "sz \<noteq> 0" "heap_room lim sz h"
  shows "\<exists>p h'. krealloc ptr sz h = Some (p, h') \<and> heap_ok lim h' \<and>
    (if p = 0 then heap_objs h' = heap_objs h \<and> (\<forall>a\<in>obj_range (ptr, n). hmem h' a = hmem h a)
     else \<exists>m\<ge>sz. heap_objs h' = insert (p, m) (heap_objs h - {(ptr, n)}) \<and>
       (\<forall>i<unat n. hmem h' (unat p + i) = hmem h (unat ptr + i))) \<and>
    (\<forall>x\<in>heap_objs h - {(ptr, n)}. \<forall>a\<in>obj_range x. hmem h' a = hmem h a)"
proof (cases "sz \<le> n")
  case True
  have "ptr \<noteq> 0" using heap_obj_range(3)[OF assms(1,2)] by simp
  then have "krealloc ptr sz h = Some (ptr, h)" using True assms(3) old_size_spec[OF assms(1,2)] by (simp add: krealloc_def)
  then show ?thesis using assms(1,2) True \<open>ptr \<noteq> 0\<close> by (auto simp: insert_absorb)
next
  case False
  then have "n < sz" by simp
  then show ?thesis using krealloc_moves[OF assms(1,2,4)] by (fastforce split: if_splits)
qed

theorem krealloc_correct_witness:
  "\<exists>p h'. krealloc demo_ptr 3000 demo_heap1 = Some (p, h') \<and> heap_ok SLAB_BASE h' \<and>
     (p \<noteq> 0 \<longrightarrow> hmem h' (unat p) = hmem demo_heap1 (unat demo_ptr))"
proof -
  obtain n where n: "100 \<le> n" "heap_objs demo_heap1 = {(demo_ptr, n)}" using demo_heap1(4) by blast
  then have "0 < unat n" by (simp add: word_le_nat_alt)
  then show ?thesis using krealloc_correct[OF demo_heap1(3), of demo_ptr n 3000] n(2) demo_room1[of 3000] by fastforce
qed

text \<open>
  C39. When the product of count and size does not overflow, \<open>kcalloc\<close> returns and keeps the heap
  well formed. An object that it hands out was not in use, has room for all elements, and all their
  bytes are zero. All objects in use keep their contents.
\<close>

theorem kcalloc_correct:
  assumes "heap_ok lim h" "unat num * unat sz < 2 ^ 64" "heap_room lim (num * sz) h"
  shows "\<exists>p h'. kcalloc num sz h = Some (p, h') \<and> heap_ok lim h' \<and>
    (\<forall>x\<in>heap_objs h. \<forall>a\<in>obj_range x. hmem h' a = hmem h a) \<and>
    (if p = 0 then heap_objs h' = heap_objs h
     else \<exists>n. unat num * unat sz \<le> unat n \<and> (p, n) \<notin> heap_objs h \<and> heap_objs h' = insert (p, n) (heap_objs h) \<and>
       (\<forall>i<unat num * unat sz. hmem h' (unat p + i) = 0))"
proof -
  have t: "unat (num * sz) = unat num * unat sz" using assms(2) by (simp add: unat_word_ariths)
  obtain p h1 where k: "kmalloc (num * sz) h = Some (p, h1)" and a: "allocated lim h (num * sz) p h1"
    using kmalloc_spec[OF assms(1,3)] by blast
  note keep = allocated_keeps[OF assms(1) a]
  show ?thesis
  proof (cases "p = 0")
    case True
    then have "kcalloc num sz h = Some (0, h1)" using k by (simp add: kcalloc_def Let_def)
    then show ?thesis using True a keep by (auto simp: allocated_def)
  next
    case False
    obtain n where n: "num * sz \<le> n" "heap_objs h1 = insert (p, n) (heap_objs h)" "(p, n) \<notin> heap_objs h"
      "\<forall>x\<in>heap_objs h. obj_range (p, n) \<inter> obj_range x = {}"
      by (rule allocated_new[OF a False], rule that; assumption)
    let ?m = "mfill (hmem h1) (unat p) 0 (unat num * unat sz)" let ?h = "h1\<lparr>hmem := ?m\<rparr>"
    have e: "kcalloc num sz h = Some (p, ?h)" using k False t by (simp add: kcalloc_def Let_def memset_mfill)
    have le: "unat num * unat sz \<le> unat n" using n(1) by (simp add: word_le_nat_alt t)
    have "?m b = hmem h b" if "x \<in> heap_objs h" "b \<in> obj_range x" for x b
    proof -
      have "b \<notin> obj_range (p, n)" using n(4) that by blast
      then show ?thesis using keep[OF that] le by (auto simp: mfill_def obj_range_def)
    qed
    moreover have "heap_ok lim h1" using a by (simp add: allocated_def)
    ultimately show ?thesis
      using e False n(2,3) le by (intro exI[of _ p] exI[of _ ?h]) (auto simp: mfill_def)
  qed
qed

theorem kcalloc_correct_witness:
  "\<exists>p h'. kcalloc 10 30 demo_heap1 = Some (p, h') \<and> heap_ok SLAB_BASE h' \<and> (p \<noteq> 0 \<longrightarrow> hmem h' (unat p + 299) = 0)"
  using kcalloc_correct[OF demo_heap1(3), of 10 30] demo_room1[of 300] by fastforce

section \<open>Histories\<close>

definition heap_live :: "heap_state \<Rightarrow> u64 set" where
  "heap_live h = fst ` heap_objs h"

interpretation kh: object_allocator "heap_ok lim" "heap_room lim" heap_live kmalloc kfree for lim
proof unfold_locales
  fix h sz assume h: "heap_ok lim h" "heap_room lim sz h"
  obtain p h' where k: "kmalloc sz h = Some (p, h')" and a: "allocated lim h sz p h'" using kmalloc_spec[OF h] by blast
  have "p \<notin> heap_live h" if nz: "p \<noteq> 0"
  proof
    assume "p \<in> heap_live h"
    then obtain n where n: "(p, n) \<in> heap_objs h" by (auto simp: heap_live_def)
    obtain m where m: "heap_objs h' = insert (p, m) (heap_objs h)" "(p, m) \<notin> heap_objs h"
      by (rule allocated_new[OF a nz], rule that; assumption)
    have "heap_ok lim h'" using a by (simp add: allocated_def)
    then have "(p, n) = (p, m)" by (rule heap_objs_fst) (use n m in auto)
    then show False using n m(2) by simp
  qed
  then show "\<exists>p h'. kmalloc sz h = Some (p, h') \<and> heap_ok lim h' \<and>
      (if p = 0 then heap_live h' = heap_live h else p \<notin> heap_live h \<and> heap_live h' = insert p (heap_live h))"
    using k a by (auto simp: allocated_def heap_live_def split: if_splits)
next
  fix h p assume h: "heap_ok lim h" and p: "p \<in> heap_live h"
  then obtain n where n: "(p, n) \<in> heap_objs h" by (auto simp: heap_live_def)
  obtain h' where f: "kfree p h = Some h'" "heap_ok lim h'" "heap_objs h' = heap_objs h - {(p, n)}" using kfree_spec[OF h n] by blast
  have "inj_on fst (heap_objs h)" by (rule inj_onI) (rule heap_objs_fst[OF h])
  then have "heap_live h' = heap_live h - {p}"
    unfolding heap_live_def f(3) using n by (subst inj_on_image_set_diff[where C = "heap_objs h"]) auto
  then show "\<exists>h'. kfree p h = Some h' \<and> heap_ok lim h' \<and> heap_live h' = heap_live h - {p}" using f(1,2) by blast
qed

text \<open>
  C40. In every history of the heap, with requests of any sizes, an object is handed out only while
  it is not in use, the objects in use at the end are those that the events leave, and no two of
  them overlap.
\<close>

theorem heap_history:
  assumes "heap_ok lim h" "history (heap_room lim) heap_live kmalloc kfree h es h'"
  shows "heap_ok lim h' \<and> replay es (heap_live h) = Some (heap_live h') \<and>
    (\<forall>x\<in>heap_objs h'. \<forall>y\<in>heap_objs h'. x \<noteq> y \<longrightarrow> obj_range x \<inter> obj_range y = {})"
  using kh.history_replay[OF assms(2,1)] heap_objs_apart by blast

theorem heap_history_witness:
  "\<exists>h'. history (heap_room SLAB_BASE) heap_live kmalloc kfree demo_heap [Got demo_ptr, Gone demo_ptr] h' \<and> heap_live h' = {}"
proof -
  obtain n where n: "heap_objs demo_heap1 = {(demo_ptr, n)}" using demo_heap1(4) by blast
  then obtain h' where h': "kfree demo_ptr demo_heap1 = Some h'" using kfree_spec[OF demo_heap1(3), of demo_ptr n] by auto
  have h: "history (heap_room SLAB_BASE) heap_live kmalloc kfree demo_heap [Got demo_ptr, Gone demo_ptr] h'"
    by (rule history.got, rule demo_room[of 100], simp, rule demo_heap1(1), rule demo_heap1(2), rule history.gone,
        simp add: heap_live_def n, rule h', rule history.stop)
  then show ?thesis using heap_history[OF demo_heap(1) h] by (auto simp: heap_live_def demo_heap(2))
qed

end
