(* ===== verification/Spec2Isabelle.thy ===== *)
theory Spec2Isabelle
  imports Heap_Props
begin

text \<open>
  A verification of the memory management of AscentOS, the kernel under \<^verbatim>\<open>src/kernel/src\<close>.

  \<^bold>\<open>The program.\<close> The physical page allocator (\<^verbatim>\<open>mm/pmm.c\<close>) hands out frames from the memory map of
  the boot loader. The page-table manager (\<^verbatim>\<open>mm/vmm.c\<close>) takes frames from it for page tables, for
  copies of shared pages and for pages that are touched for the first time; it asks the region tree
  of the process (\<^verbatim>\<open>mm/vma.c\<close>) what an address means. The object caches (\<^verbatim>\<open>mm/slab_cache.c\<close>) and the
  heap (\<^verbatim>\<open>mm/heap.c\<close>) take frames from the page allocator and map them at the next free kernel
  address. The intrusive lists of \<^verbatim>\<open>lib/list.h\<close> hold the free blocks of the page allocator, and the
  routines of \<^verbatim>\<open>lib/string.c\<close> fill and copy memory.

  \<^bold>\<open>Conventions.\<close> A C struct is a record, a C function is a function on the state that keeps its
  name, and a long function is composed of named parts in the order of the code. \<^verbatim>\<open>uint64_t\<close> is a
  64-bit word and its arithmetic wraps around; the page allocator counts pages and addresses
  in natural numbers, and so do the routines of \<^verbatim>\<open>lib/string.c\<close>, whose pointers do not wrap around.
  A loop that might not end is a \<^verbatim>\<open>partial_function (option)\<close>, so that \<open>None\<close> means that
  the call does not return; in the heap and the object caches \<open>None\<close> is also an access to a page that
  is not mapped. No definition has fuel. The theorems state that the result is \<open>Some\<close> wherever a
  call is claimed to return.

  \<^bold>\<open>Regions of a process.\<close> \<open>Vma_Tree\<close> has \<^verbatim>\<open>struct vma\<close>, the rotations, insertion, deletion and the
  searches of the AVL tree, with the interface \<open>region_store\<close> and its interpretation; \<open>Vma\<close> has the
  operations of \<^verbatim>\<open>struct vma_list\<close> (\<open>vma_add\<close>, \<open>vma_remove\<close>, \<open>vma_mprotect\<close>, \<open>vma_find_gap\<close>,
  \<open>vma_merge_adjacent\<close>, \<open>vma_list_clone\<close>). \<open>Vma_Loops\<close> shows what every call keeps, with any arguments:
  the tree stays ordered and balanced. \<open>Vma_Correct\<close> has the invariant over all sequences of calls, and shows
  that the operations act on the map from addresses to attributes as intended. The regions are disjoint
  and counted as long as no empty range is added; \<open>vma_add\<close> does not test for one, and a theorem
  shows the mapping that gets lost otherwise. The allocation of a node may fail; which ones fail is an
  argument of the operations, and some effects are claimed only when all allocations succeed.

  \<^bold>\<open>Physical pages.\<close> \<open>Kernel_List\<close> has the circular lists over a store of links. \<open>Pmm_Bitmap\<close> has the
  bitmaps and \<open>Pmm\<close> the buddy allocator: allocation with and without constraints, release with
  merging, reference counts, initialisation and the reclaiming of boot loader memory.
  \<open>Pmm_Invariant\<close> relates bitmap, free lists and counters, \<open>Pmm_Correct\<close>, \<open>Pmm_Init\<close> and \<open>Pmm_Reclaim\<close>
  show that every operation keeps that relation, and \<open>Pmm_Props\<close> has the theorems for clients:
  free pages only are handed out, released blocks come back, and the counter is exact. The list nodes,
  which the code keeps in the free frames, are a store of their own: linking a block does not
  write to the memory of \<open>Vmm\<close>. The page tables that \<^verbatim>\<open>vmm_protect_active_tables\<close> marks as used are an
  argument of \<open>pmm_reclaim_bootloader\<close>, the list of marked ranges.
  \<open>Page_Allocator\<close> is the interface \<open>page_allocator\<close> for single pages, interpreted on
  \<open>pmm_alloc_page\<close> and \<open>pmm_free_page\<close>.

  \<^bold>\<open>Page tables.\<close> \<open>Vmm\<close> has every function of \<^verbatim>\<open>vmm.c\<close> over a memory of 64-bit words.
  \<open>Vmm_Tables\<close> reads the tables as a tree, whose paths are lists of indices, and \<open>aspace\<close> is the map
  from pages to entries. \<open>Vmm_Correct\<close> shows that mapping and unmapping are updates of that map,
  and \<open>Vmm_User\<close> treats user ranges, copy-on-write and demand paging. \<open>Vmm_Props\<close> has the theorems.
  Those on mapping assume that no huge page covers the address (\<open>no_huge\<close>): \<open>get_next_level\<close> does not
  test for one, and the model keeps that.

  \<^bold>\<open>Memory routines.\<close> \<open>Kstring\<close> has \<^verbatim>\<open>lib/string.c\<close> over a byte memory and shows that the word loops of
  \<open>memset\<close> and \<open>memcpy\<close> do what a byte-wise definition does, and what the string routines do on
  terminated strings.

  \<^bold>\<open>Object caches.\<close> \<open>Slab_Lists\<close> has the slab headers, their lists and bitmaps, which the caches and the
  heap share; \<open>Slab_Cache\<close> has \<^verbatim>\<open>slab_cache.c\<close>. \<open>Kernel_Pages\<close> is the step of both allocators that
  takes a frame and maps it. \<open>Slab_Cache_Correct\<close> has the invariant \<open>slab_ok\<close> and the effect of
  each operation on the objects in use. \<open>Object_Allocator\<close> is the interface of an allocator of
  objects, with the histories of calls; \<open>Slab_Props\<close> interprets it and has the theorems.

  \<^bold>\<open>Heap.\<close> \<open>Heap\<close> has \<^verbatim>\<open>heap.c\<close>. \<open>Heap_Correct\<close> is a simulation: the six caches of the heap are
  object caches, so the results on those carry over. \<open>Kernel_Blocks\<close> treats blocks of
  pages at consecutive addresses; \<open>Heap_Big\<close> and \<open>Heap_Release\<close> treat the large blocks, with the
  invariant \<open>heap_ok\<close> of the whole heap. \<open>Heap_Objects\<close> gives the objects by address and size and shows that
  they do not overlap, \<open>Heap_Spec\<close> has the effect of the operations on them, and \<open>Heap_Props\<close> the
  theorems on \<open>kmalloc\<close>, \<open>kfree\<close>, \<open>krealloc\<close>, \<open>kcalloc\<close> and their histories. The text that
  \<open>heap_get_info\<close> builds is modelled, and nothing is proved of it.

  \<^bold>\<open>Bounds.\<close> The theorems on the caches and the heap have an address \<open>lim\<close> up to which the
  addresses after the cursor are unmapped, because the code never reuses addresses and does not
  test for the end of the range. For the heap the value is \<open>SLAB_BASE\<close>, where the addresses of the caches
  start. The theorems on the heap assume that size and header do not overflow, which the code does not
  test either.

  \<^bold>\<open>Not modelled.\<close> Spin locks, log output and console messages have no effect on the states above, and
  each function is a sequential step. The headers of slabs and blocks are a function of the
  address and not bytes in memory; the theorems show that no object covers a header. The contents of
  the objects of a cache are not modelled, so clearing a new slab page is modelled for its header only.
  The bytes of heap objects are a memory by virtual address, apart from the headers and from the words of
  the frames. The functions of \<open>Kstring\<close> that return their first argument return the memory only.
  The translation cache of the processor has no contents in the model: its flushes are a list in the
  state. The drivers, file systems, network,
  scheduler, system calls, the console and the user programs are not part of the development.
\<close>

end
